(* ===== verification/Prelude.thy ===== *)
theory Prelude
  imports Main "HOL-Library.Word"
begin

unbundle bit_operations_syntax

text \<open>
  Shared vocabulary of the development: the machine integer types of
  \<open>include/types.h\<close>, the ways a computation of the hypervisor can end abnormally, the
  state-and-fault computations in which every stateful C function is written, their
  weakest preconditions, and little-endian access to a byte-addressed memory.
  The collections are \<open>run\<close> (equations that execute a computation) and
  \<open>wps\<close> (weakest preconditions).
\<close>

named_theorems run "equations that execute a computation"
named_theorems wps "weakest preconditions of computations"

section \<open>Machine integers\<close>

type_synonym u8 = "8 word"
type_synonym u16 = "16 word"
type_synonym u32 = "32 word"
type_synonym u64 = "64 word"
type_synonym i32 = "32 word"

text \<open>The value a C \<open>int\<close> has once it is converted to a 64-bit unsigned integer.\<close>

abbreviation sext64 :: "u32 \<Rightarrow> u64" where
  "sext64 x \<equiv> scast x"

abbreviation zext64 :: "u32 \<Rightarrow> u64" where
  "zext64 x \<equiv> ucast x"

lemma unat_inc: "i < j \<Longrightarrow> unat (i + 1) = Suc (unat i)" for i j :: "'a::len word"
proof -
  assume "i < j"
  then have "Suc (unat i) \<le> unat j" by (simp add: word_less_nat_alt Suc_le_eq)
  also have "unat j < 2 ^ LENGTH('a)" by (rule unsigned_less)
  finally show ?thesis by (simp add: unat_word_ariths)
qed

lemma unat_ucast_up:
  "LENGTH('a::len) \<le> LENGTH('b::len) \<Longrightarrow> unat (ucast (w :: 'a word) :: 'b word) = unat w"
proof -
  assume l: "LENGTH('a) \<le> LENGTH('b)"
  have "unat w < 2 ^ LENGTH('a)" by (rule unsigned_less)
  also have "(2 :: nat) ^ LENGTH('a) \<le> 2 ^ LENGTH('b)" using l by simp
  finally show ?thesis by (simp add: unsigned_ucast_eq take_bit_nat_eq_self)
qed

lemma unat_ucast_mod: "unat (ucast (w :: 'a::len word) :: 'b::len word) = unat w mod 2 ^ LENGTH('b)"
  by (simp add: unsigned_ucast_eq take_bit_eq_mod)

text \<open>Bit fields.\<close>

lemma bit_and_mask: "bit (w AND mask k) n \<longleftrightarrow> bit w n \<and> n < k" for w :: "'a::len word"
  by (auto simp: bit_simps dest: bit_imp_le_length)

lemma bit_push_one: "bit (push_bit k 1 :: 'a::len word) n \<longleftrightarrow> n = k \<and> k < LENGTH('a)"
  by (auto simp: bit_simps)

lemma bit_field:
  "bit (push_bit k (w AND mask j) :: 'a::len word) n \<longleftrightarrow>
     k \<le> n \<and> n < k + j \<and> n < LENGTH('a) \<and> bit w (n - k)"
  by (auto simp: bit_simps dest: bit_imp_le_length)

lemma bit_zext64: "bit (zext64 w) n \<longleftrightarrow> bit w n"
  by (auto simp: bit_simps dest: bit_imp_le_length)

lemmas bit_fields = bit_or_iff bit_and_mask bit_push_one bit_field bit_zext64

lemma masks:
  "(0xff :: u64) = mask 8" "(0xfff :: u64) = mask 12" "(0x1fff :: u64) = mask 13"
  "(0xffffffff :: u64) = mask 32" "(3 :: u64) = mask 2"
  by (simp_all add: mask_eq_exp_minus_1)

lemma word_less_measure: "i < j \<Longrightarrow> unat j - unat (i + 1) < unat j - unat i"
  for i j :: "'a::len word"
  by (simp add: unat_inc word_less_nat_alt diff_less_mono2)

section \<open>Computations\<close>

text \<open>
  \<open>Panic\<close> is a call of the C function \<open>panic\<close>, which never returns; \<open>Bus_Error\<close> an access to
  an address that no memory backs; \<open>Out_Of_Bounds\<close> an access outside a static C array or
  through an object pointer that is NULL; \<open>Deadlock\<close> waiting for a spinlock that the same
  flow of control holds; \<open>Diverge\<close> a loop that is still running when its bound is used up;
  \<open>Div_By_Zero\<close> an integer division by zero, which C leaves undefined.
\<close>

datatype fault = Panic string | Bus_Error u64 | Out_Of_Bounds | Deadlock | Diverge | Div_By_Zero

type_synonym ('s, 'a) comp = "'s \<Rightarrow> fault + ('a \<times> 's)"

definition mret :: "'a \<Rightarrow> ('s, 'a) comp" where
  "mret x = (\<lambda>s. Inr (x, s))"

definition mfail :: "fault \<Rightarrow> ('s, 'a) comp" where
  "mfail e = (\<lambda>s. Inl e)"

definition mget :: "('s \<Rightarrow> 'a) \<Rightarrow> ('s, 'a) comp" where
  "mget f = (\<lambda>s. Inr (f s, s))"

definition mmod :: "('s \<Rightarrow> 's) \<Rightarrow> ('s, unit) comp" where
  "mmod f = (\<lambda>s. Inr ((), f s))"

definition mbind :: "('s, 'a) comp \<Rightarrow> ('a \<Rightarrow> ('s, 'b) comp) \<Rightarrow> ('s, 'b) comp" where
  "mbind m f = (\<lambda>s. case m s of Inl e \<Rightarrow> Inl e | Inr (x, s') \<Rightarrow> f x s')"

abbreviation mthen :: "('s, 'a) comp \<Rightarrow> ('s, 'b) comp \<Rightarrow> ('s, 'b) comp" where
  "mthen m n \<equiv> mbind m (\<lambda>_. n)"

definition massert :: "bool \<Rightarrow> fault \<Rightarrow> ('s, unit) comp" where
  "massert b e = (if b then mret () else mfail e)"

text \<open>A pointer to an object of a static array: its index, or NULL.\<close>

definition mthe :: "'a option \<Rightarrow> ('s, 'a) comp" where
  "mthe p = (case p of None \<Rightarrow> mfail Out_Of_Bounds | Some x \<Rightarrow> mret x)"

definition mnth :: "'a list \<Rightarrow> nat \<Rightarrow> ('s, 'a) comp" where
  "mnth xs i = (if i < length xs then mret (xs ! i) else mfail Out_Of_Bounds)"

text \<open>A pure function that may fault.\<close>

definition mlift :: "fault + 'a \<Rightarrow> ('s, 'a) comp" where
  "mlift r = (case r of Inl e \<Rightarrow> mfail e | Inr x \<Rightarrow> mret x)"

text \<open>A \<open>for\<close> loop over the given index values.\<close>

primrec mfor :: "'i list \<Rightarrow> ('i \<Rightarrow> ('s, unit) comp) \<Rightarrow> ('s, unit) comp" where
  "mfor [] f = mret ()"
| "mfor (i # is) f = mthen (f i) (mfor is f)"

text \<open>A \<open>for\<close> loop that carries one local variable.\<close>

primrec mfold :: "'i list \<Rightarrow> ('i \<Rightarrow> 'b \<Rightarrow> ('s, 'b) comp) \<Rightarrow> 'b \<Rightarrow> ('s, 'b) comp" where
  "mfold [] f y = mret y"
| "mfold (i # is) f y = mbind (f i y) (mfold is f)"

text \<open>
  A polling loop \<open>while (cond) body\<close> that is given up as \<open>Diverge\<close> after the given number of
  evaluations of its condition.
\<close>

primrec mwhile :: "nat \<Rightarrow> ('s, bool) comp \<Rightarrow> ('s, unit) comp \<Rightarrow> ('s, unit) comp" where
  "mwhile 0 c b = mfail Diverge"
| "mwhile (Suc n) c b = mbind c (\<lambda>t. if t then mthen b (mwhile n c b) else mret ())"

lemma run_prims [run]:
  "mret x s = Inr (x, s)"
  "mfail e s = Inl e"
  "mget g s = Inr (g s, s)"
  "mmod h s = Inr ((), h s)"
  "mbind m f s = (case m s of Inl e \<Rightarrow> Inl e | Inr (y, s') \<Rightarrow> f y s')"
  by (simp_all add: mret_def mfail_def mget_def mmod_def mbind_def)

lemma run_massert [run]: "massert b e s = (if b then Inr ((), s) else Inl e)"
  by (simp add: massert_def run)

lemma run_mthe [run]: "mthe p s = (case p of None \<Rightarrow> Inl Out_Of_Bounds | Some x \<Rightarrow> Inr (x, s))"
  by (simp add: mthe_def run split: option.splits)

lemma run_mnth [run]: "mnth xs i s = (if i < length xs then Inr (xs ! i, s) else Inl Out_Of_Bounds)"
  by (simp add: mnth_def run)

lemma run_mlift [run]: "mlift r s = (case r of Inl e \<Rightarrow> Inl e | Inr x \<Rightarrow> Inr (x, s))"
  by (simp add: mlift_def run split: sum.splits)

lemma run_if [run]: "(if b then m else n) s = (if b then m s else n s)"
  by simp

lemma mbind_mret [simp]: "mbind (mret x) f = f x"
  by (simp add: mret_def mbind_def)

lemma mbind_mfail [simp]: "mbind (mfail e) f = mfail e"
  by (simp add: mfail_def mbind_def)

lemma mbind_assoc: "mbind (mbind m f) g = mbind m (\<lambda>x. mbind (f x) g)"
  by (rule ext) (simp add: mbind_def split: sum.splits)

lemma mbind_run: "m s = Inr (x, s') \<Longrightarrow> mbind m f s = f x s'"
  by (simp add: mbind_def)

lemma mfor_append: "mfor (is @ js) f = mthen (mfor is f) (mfor js f)"
  by (induction "is") (simp_all add: mbind_assoc)

subsection \<open>Weakest preconditions\<close>

text \<open>
  \<open>wp m Q s\<close>: started in \<open>s\<close>, \<open>m\<close> returns, and its result and final state satisfy \<open>Q\<close>.
  \<open>wlp m Q s\<close>: if \<open>m\<close> returns, they do.
\<close>

definition wp :: "('s, 'a) comp \<Rightarrow> ('a \<Rightarrow> 's \<Rightarrow> bool) \<Rightarrow> 's \<Rightarrow> bool" where
  "wp m Q s = (case m s of Inl e \<Rightarrow> False | Inr (x, s') \<Rightarrow> Q x s')"

definition wlp :: "('s, 'a) comp \<Rightarrow> ('a \<Rightarrow> 's \<Rightarrow> bool) \<Rightarrow> 's \<Rightarrow> bool" where
  "wlp m Q s = (case m s of Inl e \<Rightarrow> True | Inr (x, s') \<Rightarrow> Q x s')"

lemma wp_prims [wps]:
  "wp (mret x) Q s = Q x s"
  "wp (mfail e) Q s = False"
  "wp (mget g) Q s = Q (g s) s"
  "wp (mmod h) R s = R () (h s)"
  "wp (mbind m f) Q' s = wp m (\<lambda>x. wp (f x) Q') s"
  by (simp_all add: wp_def run split: sum.splits)

lemma wlp_prims [wps]:
  "wlp (mret x) Q s = Q x s"
  "wlp (mfail e) Q s = True"
  "wlp (mget g) Q s = Q (g s) s"
  "wlp (mmod h) R s = R () (h s)"
  "wlp (mbind m f) Q' s = wlp m (\<lambda>x. wlp (f x) Q') s"
  by (simp_all add: wlp_def run split: sum.splits)

lemma wp_massert [wps]: "wp (massert b e) Q s = (b \<and> Q () s)"
  by (simp add: massert_def wps)

lemma wlp_massert [wps]: "wlp (massert b e) Q s = (b \<longrightarrow> Q () s)"
  by (simp add: massert_def wps)

lemma wp_mthe [wps]: "wp (mthe p) Q s = (\<exists>x. p = Some x \<and> Q x s)"
  by (simp add: mthe_def wps split: option.splits)

lemma wlp_mthe [wps]: "wlp (mthe p) Q s = (\<forall>x. p = Some x \<longrightarrow> Q x s)"
  by (simp add: mthe_def wps split: option.splits)

lemma wp_mnth [wps]: "wp (mnth xs i) Q s = (i < length xs \<and> Q (xs ! i) s)"
  by (simp add: mnth_def wps)

lemma wlp_mnth [wps]: "wlp (mnth xs i) Q s = (i < length xs \<longrightarrow> Q (xs ! i) s)"
  by (simp add: mnth_def wps)

lemma wp_mlift [wps]: "wp (mlift r) Q s = (\<exists>x. r = Inr x \<and> Q x s)"
  by (auto simp: mlift_def wps split: sum.splits)

lemma wlp_mlift [wps]: "wlp (mlift r) Q s = (\<forall>x. r = Inr x \<longrightarrow> Q x s)"
  by (auto simp: mlift_def wps split: sum.splits)

lemma wp_if [wps]: "wp (if b then m else n) Q s = (if b then wp m Q s else wp n Q s)"
  by simp

lemma wlp_if [wps]: "wlp (if b then m else n) Q s = (if b then wlp m Q s else wlp n Q s)"
  by simp

lemma wp_mono: "wp m Q s \<Longrightarrow> (\<And>x s'. Q x s' \<Longrightarrow> R x s') \<Longrightarrow> wp m R s"
  by (auto simp: wp_def split: sum.splits)

lemma wlp_mono: "wlp m Q s \<Longrightarrow> (\<And>x s'. Q x s' \<Longrightarrow> R x s') \<Longrightarrow> wlp m R s"
  by (auto simp: wlp_def split: sum.splits)

lemma wp_conj: "wp m Q s \<Longrightarrow> wlp m R s \<Longrightarrow> wp m (\<lambda>x s'. Q x s' \<and> R x s') s"
  by (auto simp: wp_def wlp_def split: sum.splits)

lemma wp_imp_wlp: "wp m Q s \<Longrightarrow> wlp m Q s"
  by (auto simp: wp_def wlp_def split: sum.splits)

lemma wpI: "m s = Inr (x, s') \<Longrightarrow> Q x s' \<Longrightarrow> wp m Q s"
  by (simp add: wp_def)

lemma wp_of_run: "m s = Inr (x, s') \<Longrightarrow> wp m Q s = Q x s'"
  by (simp add: wp_def)

lemma wp_runD: "wp m Q s \<Longrightarrow> \<exists>x s'. m s = Inr (x, s') \<and> Q x s'"
  by (auto simp: wp_def split: sum.splits)

lemma wlp_runD: "wlp m Q s \<Longrightarrow> m s = Inr (x, s') \<Longrightarrow> Q x s'"
  by (simp add: wlp_def)

lemma wlpI: "(\<And>x s'. m s = Inr (x, s') \<Longrightarrow> Q x s') \<Longrightarrow> wlp m Q s"
  by (auto simp: wlp_def split: sum.splits)

text \<open>Loop rules: an invariant indexed by the position reached.\<close>

lemma wp_mfor:
  assumes "I 0 s"
    and "\<And>k t. k < length is \<Longrightarrow> I k t \<Longrightarrow> wp (f (is ! k)) (\<lambda>_. I (Suc k)) t"
  shows "wp (mfor is f) (\<lambda>_. I (length is)) s"
  using assms
proof (induction "is" arbitrary: I s)
  case Nil
  then show ?case by (simp add: wps)
next
  case (Cons i "is")
  have "wp (f i) (\<lambda>_. I (Suc 0)) s"
    using Cons.prems(2) [of 0] Cons.prems(1) by simp
  moreover have "wp (mfor is f) (\<lambda>_. I (Suc (length is))) t" if "I (Suc 0) t" for t
    by (rule Cons.IH [of "\<lambda>k. I (Suc k)"], rule that)
      (use Cons.prems(2) in fastforce)
  ultimately show ?case
    by (auto simp: wps elim!: wp_mono)
qed

text \<open>A loop that ends after \<open>n\<close> rounds, with fuel for more.\<close>

lemma wp_mwhile:
  assumes "I 0 s" and "n < fuel"
    and "\<And>k t. k \<le> n \<Longrightarrow> I k t \<Longrightarrow> c t = Inr (k \<noteq> n, t)"
    and "\<And>k t. k < n \<Longrightarrow> I k t \<Longrightarrow> wp b (\<lambda>_. I (Suc k)) t"
  shows "wp (mwhile fuel c b) (\<lambda>_. I n) s"
proof -
  have "wp (mwhile m c b) (\<lambda>_. I n) t" if "I k t" "k \<le> n" "n < k + m" for m k t
    using that
  proof (induction m arbitrary: k t)
    case 0
    then show ?case by simp
  next
    case (Suc m)
    show ?case
    proof (cases "k = n")
      case True
      with Suc.prems assms(3) [of k t] show ?thesis by (simp add: wp_def run)
    next
      case False
      with Suc.prems have "wp b (\<lambda>_. wp (mwhile m c b) (\<lambda>_. I n)) t"
        by (intro wp_mono [OF assms(4)]) (use Suc.IH [of "Suc k"] in auto)
      with False Suc.prems assms(3) [of k t] show ?thesis by (simp add: wps wp_of_run)
    qed
  qed
  then show ?thesis using assms(1,2) by simp
qed

lemma wlp_mfor:
  assumes "I 0 s"
    and "\<And>k t. k < length is \<Longrightarrow> I k t \<Longrightarrow> wlp (f (is ! k)) (\<lambda>_. I (Suc k)) t"
  shows "wlp (mfor is f) (\<lambda>_. I (length is)) s"
  using assms
proof (induction "is" arbitrary: I s)
  case Nil
  then show ?case by (simp add: wps)
next
  case (Cons i "is")
  have "wlp (f i) (\<lambda>_. I (Suc 0)) s"
    using Cons.prems(2) [of 0] Cons.prems(1) by simp
  moreover have "wlp (mfor is f) (\<lambda>_. I (Suc (length is))) t" if "I (Suc 0) t" for t
    by (rule Cons.IH [of "\<lambda>k. I (Suc k)"], rule that)
      (use Cons.prems(2) in fastforce)
  ultimately show ?case
    by (auto simp: wps elim!: wlp_mono)
qed

section \<open>Little-endian access to a byte-addressed memory\<close>

type_synonym memory = "u64 \<Rightarrow> u8"

primrec rd_le :: "nat \<Rightarrow> memory \<Rightarrow> u64 \<Rightarrow> 'a::len word" where
  "rd_le 0 m a = 0"
| "rd_le (Suc k) m a = ucast (m a) OR push_bit 8 (rd_le k m (a + 1))"

primrec wr_le :: "nat \<Rightarrow> memory \<Rightarrow> u64 \<Rightarrow> 'a::len word \<Rightarrow> memory" where
  "wr_le 0 m a v = m"
| "wr_le (Suc k) m a v = wr_le k (m(a := ucast v)) (a + 1) (drop_bit 8 v)"

text \<open>The addresses of the \<open>n\<close> bytes from \<open>a\<close>; they wrap around at the end of the address space.\<close>

definition span :: "u64 \<Rightarrow> nat \<Rightarrow> u64 set" where
  "span a n = {b. unat (b - a) < n}"

lemma mem_span [simp]: "b \<in> span a n \<longleftrightarrow> unat (b - a) < n"
  by (simp add: span_def)

lemma unat_minus_one_word: "x \<noteq> 0 \<Longrightarrow> unat (x - 1) = unat x - 1" for x :: "'a::len word"
  by (simp add: unat_minus_one)

lemma wr_le_apply:
  "k \<le> 2 ^ 64 - 1 \<Longrightarrow>
   wr_le k m a v b = (if unat (b - a) < k then ucast (drop_bit (8 * unat (b - a)) v) else m b)"
proof (induction k arbitrary: m a v)
  case 0
  then show ?case by simp
next
  case (Suc k)
  show ?case
  proof (cases "b = a")
    case True
    have "unat (a - (a + 1)) = 2 ^ 64 - 1"
      by (simp add: unsigned_minus_1_eq_mask mask_eq_exp_minus_1)
    with True Suc show ?thesis by simp
  next
    case False
    then have nz: "b - a \<noteq> 0" by simp
    have "unat (b - (a + 1)) = unat (b - a) - 1"
      using unat_minus_one_word [OF nz] by (simp add: algebra_simps)
    moreover have "0 < unat (b - a)"
      using nz by (simp add: unat_gt_0)
    ultimately show ?thesis
      using Suc False by (auto simp: drop_bit_drop_bit algebra_simps)
  qed
qed

lemma bit_rd_le:
  "bit (rd_le k m a :: 'a::len word) n \<longleftrightarrow>
     n < 8 * k \<and> n < LENGTH('a) \<and> bit (m (a + of_nat (n div 8))) (n mod 8)"
proof (induction k arbitrary: a n)
  case 0
  then show ?case by simp
next
  case (Suc k)
  show ?case
  proof (cases "n < 8")
    case True
    then show ?thesis by (auto simp: bit_simps)
  next
    case False
    then have "n div 8 = Suc ((n - 8) div 8)" and "n mod 8 = (n - 8) mod 8"
      by (simp_all add: le_div_geq le_mod_geq)
    moreover have "\<not> bit (ucast (m a) :: 'a word) n"
      using False by (auto simp: bit_simps dest: bit_imp_le_length)
    ultimately show ?thesis
      using False Suc.IH [of "a + 1" "n - 8"]
      by (auto simp: bit_simps algebra_simps dest: bit_imp_le_length)
  qed
qed

lemma rd_le_cong:
  "(\<And>i. i < k \<Longrightarrow> m (a + of_nat i) = m' (a + of_nat i)) \<Longrightarrow>
   (rd_le k m a :: 'a::len word) = rd_le k m' a"
  by (rule bit_word_eqI) (auto simp: bit_rd_le)

lemma rd_wr_le_same:
  assumes "8 * k = LENGTH('a::len)" and "k \<le> 2 ^ 64 - 1"
  shows "rd_le k (wr_le k m a v) a = (v :: 'a word)"
proof (rule bit_word_eqI)
  fix n
  assume n: "n < LENGTH('a)"
  have "n div 8 < k"
    using n assms(1) by auto
  moreover from this assms(2) have "unat (of_nat (n div 8) :: u64) = n div 8"
    by (simp add: unat_of_nat)
  ultimately show "bit (rd_le k (wr_le k m a v) a :: 'a word) n \<longleftrightarrow> bit v n"
    using n assms by (auto simp: bit_rd_le wr_le_apply bit_simps)
qed

lemma rd_wr_le_other:
  assumes "span a k \<inter> span b j = {}" and "k \<le> 2 ^ 64 - 1" and "j \<le> 2 ^ 64 - 1"
  shows "(rd_le k (wr_le j m b v) a :: 'a::len word) = rd_le k m a"
proof (rule rd_le_cong)
  fix i
  assume "i < k"
  with assms(2) have "a + of_nat i \<in> span a k"
    by (simp add: unat_of_nat)
  with assms(1) have "a + of_nat i \<notin> span b j"
    by blast
  with assms(3) show "wr_le j m b v (a + of_nat i) = m (a + of_nat i)"
    by (simp add: wr_le_apply)
qed

lemma unat_offset:
  assumes "b = c + of_nat k" and "unat c + k < 2 ^ 64"
  shows "unat (b :: u64) = unat c + k"
  using assms by (simp add: unat_word_ariths unat_of_nat)

lemma span_offset:
  assumes "j + n \<le> 2 ^ 64"
  shows "b \<in> span (a + of_nat j) n \<longleftrightarrow> j \<le> unat (b - a) \<and> unat (b - a) < j + n"
proof (cases "j \<le> unat (b - a)")
  case True
  then have j: "unat (of_nat j :: u64) = j"
    using unsigned_less [of "b - a", where 'a = nat] by (simp add: unat_of_nat)
  with True have "(of_nat j :: u64) \<le> b - a"
    by (simp add: word_le_nat_alt)
  from unat_sub [OF this] have "unat (b - a - of_nat j) = unat (b - a) - j"
    using j by simp
  then have "unat (b - (a + of_nat j)) = unat (b - a) - j"
    by (simp add: algebra_simps)
  with True show ?thesis by auto
next
  case False
  then show ?thesis
    using assms unat_offset [of "b - a" "b - (a + of_nat j)" j] by auto
qed

lemma sub_span: "span a n \<subseteq> P \<Longrightarrow> j + k \<le> n \<Longrightarrow> n \<le> 2 ^ 63 \<Longrightarrow> span (a + of_nat j) k \<subseteq> P"
  using span_offset [of j k _ a] by fastforce

lemma span_apart:
  assumes "k \<le> unat (b - a)" and "j \<le> unat (a - b)"
  shows "span a k \<inter> span b j = {}"
proof -
  have False if x: "unat (x - a) < k" "unat (x - b) < j" for x
  proof -
    have "unat (a - b) + unat (b - a) \<le> 2 ^ 64"
      using unat_word_ariths(1) [of "a - b" "b - a"] unsigned_less [of "b - a", where 'a = nat] unsigned_less [of "a - b", where 'a = nat]
      by (auto simp: mod_eq_0_iff_dvd dvd_def)
    then have "unat (x - b) + unat (b - a) < 2 ^ 64"
      using x(2) assms(2) by linarith
    then have "unat ((x - b) + (b - a)) = unat (x - b) + unat (b - a)"
      using unat_word_ariths(1) [of "x - b" "b - a"] by simp
    then show False
      using x(1) assms(1) by simp
  qed
  then show ?thesis by (auto simp: span_def)
qed

end
