(* ===== verification/Machine.thy ===== *)
theory Machine
  imports Prelude
begin

text \<open>
  The machine below the hypervisor: byte-addressed physical memory (the MMU is off at EL2, so
  every C pointer is a physical address), and the devices and system registers. A volatile
  access or a system-register instruction is an observable event; the value a read returns is
  chosen by the environment \<open>dev\<close> from the whole history of events, so nothing is assumed of
  the hardware unless a theorem says so. Models \<open>include/aarch64.h\<close> and the register accessors
  of \<open>include/gic.h\<close>.
\<close>

section \<open>Devices, system registers and memory\<close>

datatype loc =
    Mmio32 u64
  | Mmio64 u64
  | Sysreg nat string   \<comment> \<open>a system register of one processing element\<close>
  | Smc u32 u64 u64 u64 \<comment> \<open>the value in x0 after \<open>smc #0\<close> with these arguments\<close>

datatype io = Rd loc | Wr loc u64 | Instr string

record machine =
  mem :: memory
  backed :: "u64 \<Rightarrow> bool"
  trace :: "io list"
  dev :: "io list \<Rightarrow> loc \<Rightarrow> u64"
  pcpu :: nat
  poll_bound :: nat

text \<open>
  \<open>trace\<close> has the newest event first; \<open>pcpu\<close> is the processing element that executes;
  \<open>backed\<close> tells which addresses memory answers at; \<open>poll_bound\<close> bounds the polling loops.
\<close>

text \<open>A machine on which witnesses run: memory is zero and answers everywhere, devices read as zero.\<close>

definition machine0 :: machine where
  "machine0 = \<lparr>mem = (\<lambda>_. 0), backed = (\<lambda>_. True), trace = [], dev = (\<lambda>_ _. 0), pcpu = 0,
     poll_bound = 1\<rparr>"

definition emit :: "io \<Rightarrow> ('a machine_scheme, unit) comp" where
  "emit e = mmod (trace_update (\<lambda>t. e # t))"

definition dev_read :: "loc \<Rightarrow> ('a machine_scheme, u64) comp" where
  "dev_read l = mbind (mget (\<lambda>s. dev s (trace s) l)) (\<lambda>v. mthen (emit (Rd l)) (mret v))"

definition read_sysreg :: "string \<Rightarrow> ('a machine_scheme, u64) comp" where
  "read_sysreg r = mbind (mget pcpu) (\<lambda>c. dev_read (Sysreg c r))"

definition write_sysreg :: "string \<Rightarrow> u64 \<Rightarrow> ('a machine_scheme, unit) comp" where
  "write_sysreg r v = mbind (mget pcpu) (\<lambda>c. emit (Wr (Sysreg c r) v))"

definition isb :: "('a machine_scheme, unit) comp" where
  "isb = emit (Instr ''isb'')"

definition dsb :: "string \<Rightarrow> ('a machine_scheme, unit) comp" where
  "dsb ty = emit (Instr (''dsb '' @ ty))"

definition intr_enable :: "('a machine_scheme, unit) comp" where
  "intr_enable = emit (Instr ''msr daifclr, #2'')"

definition intr_disable :: "('a machine_scheme, unit) comp" where
  "intr_disable = emit (Instr ''msr daifset, #2'')"

lemma run_emit [run]: "emit e s = Inr ((), s\<lparr>trace := e # trace s\<rparr>)"
  by (simp add: emit_def run)

lemma run_dev_read [run]:
  "dev_read l s = Inr (dev s (trace s) l, s\<lparr>trace := Rd l # trace s\<rparr>)"
  by (simp add: dev_read_def run)

lemma run_sysreg [run]:
  "read_sysreg r s = Inr (dev s (trace s) (Sysreg (pcpu s) r),
                          s\<lparr>trace := Rd (Sysreg (pcpu s) r) # trace s\<rparr>)"
  "write_sysreg r v s = Inr ((), s\<lparr>trace := Wr (Sysreg (pcpu s) r) v # trace s\<rparr>)"
  by (simp_all add: read_sysreg_def write_sysreg_def run)

lemma run_barriers [run]:
  "isb s = Inr ((), s\<lparr>trace := Instr ''isb'' # trace s\<rparr>)"
  "dsb ty s = Inr ((), s\<lparr>trace := Instr (''dsb '' @ ty) # trace s\<rparr>)"
  by (simp_all add: isb_def dsb_def run)

section \<open>Functions of \<open>include/aarch64.h\<close>\<close>

definition cpuid :: "('a machine_scheme, nat) comp" where
  "cpuid = mbind (read_sysreg ''mpidr_el1'') (\<lambda>v. mret (unat ((ucast v :: u32) AND 0xf)))"

definition vttbr_ipa2pa :: "u64 \<Rightarrow> ('a machine_scheme, u64) comp" where
  "vttbr_ipa2pa ipa = mthen (write_sysreg ''at s12e1r'' ipa) (read_sysreg ''par_el1'')"

definition tlb_flush :: "('a machine_scheme, unit) comp" where
  "tlb_flush =
     mthen (dsb ''ishst'') (mthen (emit (Instr ''tlbi vmalls12e1'')) (mthen (dsb ''ish'') isb))"

definition vm_va_to_ipa :: "u64 \<Rightarrow> bool \<Rightarrow> ('a machine_scheme, u64) comp" where
  "vm_va_to_ipa va is_el0 =
     mthen (write_sysreg (if is_el0 then ''at s1e0r'' else ''at s1e1r'') va)
     (mbind (read_sysreg ''par_el1'') (\<lambda>par.
      mret (if par AND 0x1 \<noteq> 0 then NOT 0
            else (par AND 0x000FFFFFFFFFF000) OR (va AND 0xFFF))))"

definition vm_va_to_pa :: "u64 \<Rightarrow> bool \<Rightarrow> ('a machine_scheme, u64) comp" where
  "vm_va_to_pa va is_el0 =
     mbind (read_sysreg ''par_el1'') (\<lambda>orig_par.
     mthen (write_sysreg (if is_el0 then ''at s12e0r'' else ''at s12e1r'') va)
     (mbind (read_sysreg ''par_el1'') (\<lambda>par.
      mthen (write_sysreg ''par_el1'' orig_par)
      (mret (if par AND 0x1 \<noteq> 0 then NOT 0
             else (par AND 0x000FFFFFFFFFF000) OR (va AND 0xFFF))))))"

lemma cpuid_less_16: "wp cpuid (\<lambda>c _. c < 16) s"
proof -
  have "unat ((x :: u32) AND 0xf) < 16" for x
  proof -
    have "unat (x AND 0xf) \<le> unat (0xf :: u32)"
      by (rule word_le_nat_alt [THEN iffD1]) (rule word_and_le1)
    then show ?thesis by simp
  qed
  then show ?thesis
    by (simp add: cpuid_def wp_def run)
qed

text \<open>A history of reads and instructions: nothing is written to a device.\<close>

definition quiet :: "io list \<Rightarrow> bool" where
  "quiet es \<longleftrightarrow> (\<forall>l v. Wr l v \<notin> set es)"

lemma quiet_simps [simp]: "quiet []" "quiet (Rd l # es) = quiet es" "quiet (Instr i # es) = quiet es"
  "quiet (es @ fs) = (quiet es \<and> quiet fs)"
  by (auto simp: quiet_def)

section \<open>Plain memory accesses\<close>

definition all_backed :: "'a machine_scheme \<Rightarrow> u64 \<Rightarrow> nat \<Rightarrow> bool" where
  "all_backed s a n = (\<forall>i < n. backed s (a + of_nat i))"

lemma all_backed_code [code]: "all_backed s a n = list_all (\<lambda>i. backed s (a + of_nat i)) [0..<n]"
  by (auto simp: all_backed_def list_all_iff)

definition ld :: "nat \<Rightarrow> u64 \<Rightarrow> ('a machine_scheme, 'w::len word) comp" where
  "ld k a = mbind (mget (\<lambda>s. s)) (\<lambda>s.
     mthen (massert (all_backed s a k) (Bus_Error a)) (mret (rd_le k (mem s) a)))"

definition st :: "nat \<Rightarrow> u64 \<Rightarrow> 'w::len word \<Rightarrow> ('a machine_scheme, unit) comp" where
  "st k a v = mbind (mget (\<lambda>s. s)) (\<lambda>s.
     mthen (massert (all_backed s a k) (Bus_Error a)) (mmod (mem_update (\<lambda>m. wr_le k m a v))))"

abbreviation ld8 :: "u64 \<Rightarrow> ('a machine_scheme, u8) comp" where "ld8 \<equiv> ld 1"
abbreviation ld16 :: "u64 \<Rightarrow> ('a machine_scheme, u16) comp" where "ld16 \<equiv> ld 2"
abbreviation ld32 :: "u64 \<Rightarrow> ('a machine_scheme, u32) comp" where "ld32 \<equiv> ld 4"
abbreviation ld64 :: "u64 \<Rightarrow> ('a machine_scheme, u64) comp" where "ld64 \<equiv> ld 8"
abbreviation st8 :: "u64 \<Rightarrow> u8 \<Rightarrow> ('a machine_scheme, unit) comp" where "st8 \<equiv> st 1"
abbreviation st16 :: "u64 \<Rightarrow> u16 \<Rightarrow> ('a machine_scheme, unit) comp" where "st16 \<equiv> st 2"
abbreviation st32 :: "u64 \<Rightarrow> u32 \<Rightarrow> ('a machine_scheme, unit) comp" where "st32 \<equiv> st 4"
abbreviation st64 :: "u64 \<Rightarrow> u64 \<Rightarrow> ('a machine_scheme, unit) comp" where "st64 \<equiv> st 8"

abbreviation rd64 :: "memory \<Rightarrow> u64 \<Rightarrow> u64" where "rd64 \<equiv> rd_le 8"
abbreviation wr64 :: "memory \<Rightarrow> u64 \<Rightarrow> u64 \<Rightarrow> memory" where "wr64 \<equiv> wr_le 8"

lemma run_ld [run]:
  "ld k a s = (if all_backed s a k then Inr (rd_le k (mem s) a, s) else Inl (Bus_Error a))"
  by (simp add: ld_def run)

lemma run_st [run]:
  "st k a v s = (if all_backed s a k then Inr ((), s\<lparr>mem := wr_le k (mem s) a v\<rparr>)
                 else Inl (Bus_Error a))"
  by (simp add: st_def run)

lemma wp_ld [wps]: "wp (ld k a) Q s = (all_backed s a k \<and> Q (rd_le k (mem s) a) s)"
  by (simp add: wp_def run)

lemma wlp_ld [wps]: "wlp (ld k a) Q s = (all_backed s a k \<longrightarrow> Q (rd_le k (mem s) a) s)"
  by (simp add: wlp_def run)

lemma wp_st [wps]: "wp (st k a v) Q s = (all_backed s a k \<and> Q () (s\<lparr>mem := wr_le k (mem s) a v\<rparr>))"
  by (simp add: wp_def run)

lemma wlp_st [wps]: "wlp (st k a v) Q s = (all_backed s a k \<longrightarrow> Q () (s\<lparr>mem := wr_le k (mem s) a v\<rparr>))"
  by (simp add: wlp_def run)

lemma all_backed_cong: "backed s = backed t \<Longrightarrow> all_backed s = all_backed t"
  by (rule ext)+ (simp add: all_backed_def)

lemma all_backed_update [simp]:
  "all_backed (s\<lparr>mem := m\<rparr>) = all_backed s"
  "all_backed (s\<lparr>trace := t\<rparr>) = all_backed s"
  by (rule all_backed_cong, simp)+

section \<open>Volatile registers of the interrupt controller (\<open>include/gic.h\<close>)\<close>

definition GICDBASE :: u64 where "GICDBASE = 0x08000000"
definition GICDSIZE :: u64 where "GICDSIZE = 0x10000"
definition GICRBASE :: u64 where "GICRBASE = 0x080a0000"
definition GICRSIZE :: u64 where "GICRSIZE = 0xf60000"
definition GICRSTRIDE :: u64 where "GICRSTRIDE = 0x20000"

text \<open>The register offset is a \<open>u32\<close>, so the address is computed modulo $2^{32}$.\<close>

definition gicd_addr :: "u32 \<Rightarrow> u64" where
  "gicd_addr offset = ucast (0x08000000 + offset)"

definition GICRBASEn :: "nat \<Rightarrow> u32" where
  "GICRBASEn n = 0x080a0000 + of_nat n * 0x20000"

definition gicr_addr :: "nat \<Rightarrow> u32 \<Rightarrow> u64" where
  "gicr_addr c offset = ucast (GICRBASEn c + offset)"

definition gicd_r :: "u32 \<Rightarrow> ('a machine_scheme, u32) comp" where
  "gicd_r offset = mbind (dev_read (Mmio32 (gicd_addr offset))) (\<lambda>v. mret (ucast v))"

definition gicd_w :: "u32 \<Rightarrow> u32 \<Rightarrow> ('a machine_scheme, unit) comp" where
  "gicd_w offset v = emit (Wr (Mmio32 (gicd_addr offset)) (ucast v))"

definition gicr_r32 :: "nat \<Rightarrow> u32 \<Rightarrow> ('a machine_scheme, u32) comp" where
  "gicr_r32 c offset = mbind (dev_read (Mmio32 (gicr_addr c offset))) (\<lambda>v. mret (ucast v))"

definition gicr_w32 :: "nat \<Rightarrow> u32 \<Rightarrow> u32 \<Rightarrow> ('a machine_scheme, unit) comp" where
  "gicr_w32 c offset v = emit (Wr (Mmio32 (gicr_addr c offset)) (ucast v))"

definition gicr_r64 :: "nat \<Rightarrow> u32 \<Rightarrow> ('a machine_scheme, u64) comp" where
  "gicr_r64 c offset = dev_read (Mmio64 (gicr_addr c offset))"

definition gicr_w64 :: "nat \<Rightarrow> u32 \<Rightarrow> u32 \<Rightarrow> ('a machine_scheme, unit) comp" where
  "gicr_w64 c offset v = emit (Wr (Mmio64 (gicr_addr c offset)) (ucast v))"

lemma run_gic_regs [run]:
  "gicd_r offset s = Inr (ucast (dev s (trace s) (Mmio32 (gicd_addr offset))),
     s\<lparr>trace := Rd (Mmio32 (gicd_addr offset)) # trace s\<rparr>)"
  "gicd_w offset v s = Inr ((), s\<lparr>trace := Wr (Mmio32 (gicd_addr offset)) (ucast v) # trace s\<rparr>)"
  "gicr_r32 c offset s = Inr (ucast (dev s (trace s) (Mmio32 (gicr_addr c offset))),
     s\<lparr>trace := Rd (Mmio32 (gicr_addr c offset)) # trace s\<rparr>)"
  "gicr_w32 c offset v s =
     Inr ((), s\<lparr>trace := Wr (Mmio32 (gicr_addr c offset)) (ucast v) # trace s\<rparr>)"
  "gicr_r64 c offset s = Inr (dev s (trace s) (Mmio64 (gicr_addr c offset)),
     s\<lparr>trace := Rd (Mmio64 (gicr_addr c offset)) # trace s\<rparr>)"
  by (simp_all add: gicd_r_def gicd_w_def gicr_r32_def gicr_w32_def gicr_r64_def run)

end
