(* ===== verification/Spinlock.thy ===== *)
theory Spinlock
  imports Prelude
begin

text \<open>
  The ticket lock of \<open>include/spinlock.h\<close>. The first section has the lock as the sequential
  models of the other theories use it: they run one flow of control, so waiting for a lock that
  this flow already holds never ends. The second models the instruction sequences of
  \<open>spin_lock\<close> and \<open>spin_unlock\<close> on several processing elements, the exclusive monitor of
  \<open>ldaxr\<close>/\<open>stxr\<close> included, and shows that the sequences implement a first-come first-served
  queue; mutual exclusion is what allows the sequential models to run critical sections whole.
\<close>

section \<open>The lock and its sequential use\<close>

record spinlock =
  ticket :: u32
  nxt :: u32

definition spinlock_init :: spinlock where
  "spinlock_init = \<lparr>ticket = 0, nxt = 0\<rparr>"

definition spin_free :: "spinlock \<Rightarrow> bool" where
  "spin_free l \<longleftrightarrow> ticket l = nxt l"

definition spin_lock :: "spinlock \<Rightarrow> fault + spinlock" where
  "spin_lock l = (if ticket l = nxt l then Inr (l\<lparr>ticket := ticket l + 1\<rparr>) else Inl Deadlock)"

definition spin_unlock :: "spinlock \<Rightarrow> spinlock" where
  "spin_unlock l = l\<lparr>nxt := nxt l + 1\<rparr>"

text \<open>
  A lock that is a part of a larger state: how to read it and how to replace it. Every lock of
  the hypervisor is one such part.
\<close>

locale lock_part =
  fixes get :: "'s \<Rightarrow> spinlock" and put :: "(spinlock \<Rightarrow> spinlock) \<Rightarrow> 's \<Rightarrow> 's"
  assumes get_put: "get (put f s) = f (get s)"
    and put_put: "put f (put g s) = put (\<lambda>l. f (g l)) s"
    and put_cong: "f (get s) = g (get s) \<Longrightarrow> put f s = put g s"
begin

text \<open>Taking a free lock and giving it back leaves it free and changes nothing else.\<close>

lemma lock_unlock_free: "spin_free (get s) \<Longrightarrow> spin_lock (get s) = Inr l \<Longrightarrow>
   spin_free (get (put spin_unlock (put (\<lambda>_. l) s)))"
  by (auto simp: get_put spin_free_def spin_lock_def spin_unlock_def)

lemma lock_held: "spin_lock (get s) = Inr l \<Longrightarrow> spin_lock (get (put (\<lambda>_. l) s)) = Inl Deadlock"
  by (auto simp: get_put spin_lock_def split: if_splits)

end

text \<open>The lock after it has been taken and given back once.\<close>

definition lock_cycle :: "spinlock \<Rightarrow> spinlock" where
  "lock_cycle l = l\<lparr>ticket := ticket l + 1, nxt := nxt l + 1\<rparr>"

lemma spin_free_lock_cycle [simp]: "spin_free (lock_cycle l) = spin_free l"
  by (simp add: lock_cycle_def spin_free_def)

lemma lock_unlock_eq: "spin_unlock (l\<lparr>ticket := ticket l + 1\<rparr>) = lock_cycle l"
  by (simp add: spin_unlock_def lock_cycle_def)

definition mlock :: "('s \<Rightarrow> spinlock) \<Rightarrow> ((spinlock \<Rightarrow> spinlock) \<Rightarrow> 's \<Rightarrow> 's) \<Rightarrow> ('s, unit) comp" where
  "mlock get put = mbind (mget get) (\<lambda>l.
     case spin_lock l of Inl e \<Rightarrow> mfail e | Inr l' \<Rightarrow> mmod (put (\<lambda>_. l')))"

definition munlock :: "((spinlock \<Rightarrow> spinlock) \<Rightarrow> 's \<Rightarrow> 's) \<Rightarrow> ('s, unit) comp" where
  "munlock put = mmod (put spin_unlock)"

lemma run_mlock [run]:
  "mlock get put s = (if spin_free (get s)
     then Inr ((), put (\<lambda>_. (get s)\<lparr>ticket := ticket (get s) + 1\<rparr>) s) else Inl Deadlock)"
  by (simp add: mlock_def spin_lock_def spin_free_def run split: sum.splits)

lemma run_munlock [run]: "munlock put s = Inr ((), put spin_unlock s)"
  by (simp add: munlock_def run)

lemma wp_mlock [wps]:
  "wp (mlock get put) Q s \<longleftrightarrow>
     spin_free (get s) \<and> Q () (put (\<lambda>_. (get s)\<lparr>ticket := ticket (get s) + 1\<rparr>) s)"
  by (simp add: wp_def run)

lemma wlp_mlock [wps]:
  "wlp (mlock get put) Q s \<longleftrightarrow>
     (spin_free (get s) \<longrightarrow> Q () (put (\<lambda>_. (get s)\<lparr>ticket := ticket (get s) + 1\<rparr>) s))"
  by (simp add: wlp_def run)

lemma wp_munlock [wps]: "wp (munlock put) Q s = Q () (put spin_unlock s)"
  by (simp add: wp_def run)

lemma wlp_munlock [wps]: "wlp (munlock put) Q s = Q () (put spin_unlock s)"
  by (simp add: wlp_def run)

section \<open>The instruction sequences on several processing elements\<close>

text \<open>
  Where a processing element stands. \<open>Load t\<close>: it has executed \<open>ldaxr\<close> and read ticket \<open>t\<close>.
  \<open>Wait t\<close>: its \<open>stxr\<close> succeeded, it owns ticket \<open>t\<close> and polls \<open>next\<close>. \<open>Crit\<close>: it left the
  polling loop. \<open>Unload v\<close>: \<open>spin_unlock\<close> has read \<open>next = v\<close> and not yet stored \<open>v + 1\<close>.
\<close>

datatype pc = Idle | Load u32 | Wait u32 | Crit | Unload u32

record smp =
  lk :: spinlock
  pcs :: "nat \<Rightarrow> pc"
  monitor :: "nat set"

definition smp_init :: smp where
  "smp_init = \<lparr>lk = spinlock_init, pcs = (\<lambda>_. Idle), monitor = {}\<rparr>"

inductive smp_step :: "nat \<Rightarrow> smp \<Rightarrow> smp \<Rightarrow> bool" for n where
  ldaxr: "i < n \<Longrightarrow> pcs s i = Idle \<Longrightarrow>
    smp_step n s (s\<lparr>pcs := (pcs s)(i := Load (ticket (lk s))), monitor := insert i (monitor s)\<rparr>)"
| stxr_ok: "i < n \<Longrightarrow> pcs s i = Load t \<Longrightarrow> i \<in> monitor s \<Longrightarrow>
    smp_step n s (s\<lparr>lk := (lk s)\<lparr>ticket := t + 1\<rparr>, pcs := (pcs s)(i := Wait t), monitor := {}\<rparr>)"
| stxr_fail: "i < n \<Longrightarrow> pcs s i = Load t \<Longrightarrow>
    smp_step n s (s\<lparr>pcs := (pcs s)(i := Idle), monitor := monitor s - {i}\<rparr>)"
| poll_ne: "i < n \<Longrightarrow> pcs s i = Wait t \<Longrightarrow> nxt (lk s) \<noteq> t \<Longrightarrow> smp_step n s s"
| poll_eq: "i < n \<Longrightarrow> pcs s i = Wait t \<Longrightarrow> nxt (lk s) = t \<Longrightarrow>
    smp_step n s (s\<lparr>pcs := (pcs s)(i := Crit)\<rparr>)"
| unlock_ldr: "i < n \<Longrightarrow> pcs s i = Crit \<Longrightarrow>
    smp_step n s (s\<lparr>pcs := (pcs s)(i := Unload (nxt (lk s)))\<rparr>)"
| unlock_stlr: "i < n \<Longrightarrow> pcs s i = Unload v \<Longrightarrow>
    smp_step n s (s\<lparr>lk := (lk s)\<lparr>nxt := v + 1\<rparr>, pcs := (pcs s)(i := Idle)\<rparr>)"

inductive smp_reach :: "nat \<Rightarrow> smp \<Rightarrow> bool" for n where
  start: "smp_reach n smp_init"
| step: "smp_reach n s \<Longrightarrow> smp_step n s t \<Longrightarrow> smp_reach n t"

text \<open>
  The abstract lock is a queue of processing elements whose head may be inside. \<open>smp_abs\<close> says
  which queue a concrete state stands for: the \<open>k\<close>-th element of the queue owns the ticket
  \<open>next + k\<close> (modulo $2^{32}$), and a valid exclusive monitor has seen the current ticket.
\<close>

definition holds_ticket :: "pc \<Rightarrow> u32 \<Rightarrow> nat \<Rightarrow> bool" where
  "holds_ticket p v k \<longleftrightarrow> p = Wait (v + of_nat k) \<or> k = 0 \<and> (p = Crit \<or> p = Unload v)"

definition smp_abs :: "nat \<Rightarrow> smp \<Rightarrow> nat list \<Rightarrow> bool" where
  "smp_abs n s q \<longleftrightarrow> distinct q \<and> set q \<subseteq> {..<n} \<and>
     ticket (lk s) = nxt (lk s) + of_nat (length q) \<and>
     (\<forall>k < length q. holds_ticket (pcs s (q ! k)) (nxt (lk s)) k) \<and>
     (\<forall>i. i \<notin> set q \<longrightarrow> pcs s i = Idle \<or> (\<exists>t. pcs s i = Load t)) \<and>
     (\<forall>i t. pcs s i = Load t \<and> i \<in> monitor s \<longrightarrow> t = ticket (lk s))"

definition queue_step :: "nat list \<Rightarrow> nat list \<Rightarrow> bool" where
  "queue_step q q' \<longleftrightarrow> q' = q \<or> (\<exists>i. i \<notin> set q \<and> q' = q @ [i]) \<or> (q \<noteq> [] \<and> q' = tl q)"

lemma smp_abs_init: "smp_abs n smp_init []"
  by (simp add: smp_abs_def smp_init_def spinlock_init_def)

lemma smp_abs_length: "smp_abs n s q \<Longrightarrow> length q \<le> n"
  by (metis smp_abs_def card_lessThan card_mono distinct_card finite_lessThan)

text \<open>An element that stands in the protocol is in the queue, and one that is inside is its head.\<close>

lemma smp_abs_queued:
  "smp_abs n s q \<Longrightarrow> pcs s i \<noteq> Idle \<Longrightarrow> \<forall>t. pcs s i \<noteq> Load t \<Longrightarrow> i \<in> set q"
  by (auto simp: smp_abs_def)

lemma smp_abs_unqueued: "smp_abs n s q \<Longrightarrow> pcs s i = Idle \<or> pcs s i = Load t \<Longrightarrow> i \<notin> set q"
  unfolding smp_abs_def by (metis holds_ticket_def in_set_conv_nth pc.distinct)

lemma smp_abs_inside:
  assumes "smp_abs n s q" and "pcs s i = Crit \<or> pcs s i = Unload v"
  shows "q \<noteq> [] \<and> i = hd q \<and> (pcs s i = Unload v \<longrightarrow> v = nxt (lk s))"
proof -
  have "i \<in> set q" using smp_abs_queued [OF assms(1)] assms(2) by auto
  then obtain k where k: "k < length q" "q ! k = i" by (auto simp: in_set_conv_nth)
  with assms have "holds_ticket (pcs s i) (nxt (lk s)) k" by (auto simp: smp_abs_def)
  with assms(2) have "k = 0 \<and> (pcs s i = Unload v \<longrightarrow> v = nxt (lk s))"
    by (auto simp: holds_ticket_def)
  with k show ?thesis by (cases q) auto
qed

lemma smp_abs_turn:
  assumes "smp_abs n s q" and "n < 2 ^ 32" and "pcs s i = Wait (nxt (lk s))"
  shows "q \<noteq> [] \<and> i = hd q"
proof -
  have "i \<in> set q" using smp_abs_queued [OF assms(1)] assms(3) by auto
  then obtain k where k: "k < length q" "q ! k = i" by (auto simp: in_set_conv_nth)
  with assms have "holds_ticket (pcs s i) (nxt (lk s)) k" by (auto simp: smp_abs_def)
  with assms(3) have "(of_nat k :: u32) = 0" by (auto simp: holds_ticket_def)
  moreover have "k < 2 ^ 32" using k smp_abs_length [OF assms(1)] assms(2) by simp
  then have "unat (of_nat k :: u32) = k" by (simp add: unat_of_nat)
  ultimately have "k = 0" by (simp only: unat_0)
  with k show ?thesis by (cases q) auto
qed

text \<open>One step keeps the queue, appends its element at the tail, or removes the head.\<close>

lemma smp_abs_step:
  assumes "smp_step n s t" and "smp_abs n s q" and "n < 2 ^ 32"
  shows "\<exists>q'. smp_abs n t q' \<and> queue_step q q'"
  using assms(1)
proof cases
  case (ldaxr i)
  with assms(2) have "smp_abs n t q"
    using smp_abs_unqueued [OF assms(2), of i] by (auto simp: smp_abs_def)
  then show ?thesis by (auto simp: queue_step_def)
next
  case (stxr_ok i v)
  have i: "i \<notin> set q" and v: "v = nxt (lk s) + of_nat (length q)"
    using smp_abs_unqueued [OF assms(2)] assms(2) stxr_ok by (auto simp: smp_abs_def)
  have "smp_abs n t (q @ [i])"
    using assms(2) stxr_ok i v
    by (auto simp: smp_abs_def nth_append less_Suc_eq holds_ticket_def)
  with i show ?thesis by (auto simp: queue_step_def)
next
  case (stxr_fail i v)
  with assms(2) have "smp_abs n t q"
    using smp_abs_unqueued [OF assms(2), of i] by (auto simp: smp_abs_def)
  then show ?thesis by (auto simp: queue_step_def)
next
  case (poll_ne i v)
  with assms(2) show ?thesis by (auto simp: queue_step_def)
next
  case (poll_eq i v)
  with smp_abs_turn [OF assms(2,3)] have hd: "q \<noteq> []" "i = hd q" by auto
  have "smp_abs n t q"
    using assms(2) poll_eq hd
    by (auto simp: smp_abs_def holds_ticket_def hd_conv_nth nth_eq_iff_index_eq)
  then show ?thesis by (auto simp: queue_step_def)
next
  case (unlock_ldr i)
  with smp_abs_inside [OF assms(2)] have hd: "q \<noteq> []" "i = hd q" by auto
  have "smp_abs n t q"
    using assms(2) unlock_ldr hd
    by (auto simp: smp_abs_def holds_ticket_def hd_conv_nth nth_eq_iff_index_eq)
  then show ?thesis by (auto simp: queue_step_def)
next
  case (unlock_stlr i v)
  with smp_abs_inside [OF assms(2)] have hd: "q \<noteq> []" "i = hd q" "v = nxt (lk s)" by auto
  then obtain q' where q: "q = i # q'" by (cases q) auto
  have hold: "holds_ticket (pcs s (q' ! k)) (nxt (lk s) + 1) k" if "k < length q'" for k
  proof -
    have "holds_ticket (pcs s (q ! Suc k)) (nxt (lk s)) (Suc k)"
      using assms(2) that q by (auto simp: smp_abs_def)
    then show ?thesis by (auto simp: holds_ticket_def q algebra_simps)
  qed
  have "smp_abs n t q'"
    using assms(2) unlock_stlr hold hd(3) by (auto simp: smp_abs_def q)
  with q show ?thesis by (auto simp: queue_step_def)
qed

lemma smp_reach_abs: "smp_reach n s \<Longrightarrow> n < 2 ^ 32 \<Longrightarrow> \<exists>q. smp_abs n s q"
proof (induction rule: smp_reach.induct)
  case start
  show ?case using smp_abs_init by blast
next
  case (step s t)
  then show ?case using smp_abs_step by blast
qed

text \<open>An element that waits and is at the head is let in by its next poll; none is stuck.\<close>

lemma smp_head_enters:
  assumes "smp_abs n s (i # q)" and "pcs s i = Wait t"
  shows "smp_step n s (s\<lparr>pcs := (pcs s)(i := Crit)\<rparr>)"
proof (rule poll_eq)
  show "i < n" using assms(1) by (auto simp: smp_abs_def)
  have "holds_ticket (pcs s i) (nxt (lk s)) 0"
    using assms(1) by (fastforce simp: smp_abs_def)
  with assms(2) show "nxt (lk s) = t" by (auto simp: holds_ticket_def)
qed (rule assms(2))

section \<open>Properties\<close>

text \<open>
  C5. The ticket lock gives mutual exclusion: in every state that the instruction sequences of
  \<open>spin_lock\<close> and \<open>spin_unlock\<close> can reach on fewer than $2^{32}$ processing elements, at most
  one of them is between the end of \<open>spin_lock\<close> and the store of \<open>spin_unlock\<close>, although the
  32-bit ticket and next counters wrap around.
\<close>

theorem spinlock_mutual_exclusion:
  assumes "n < 2 ^ 32" and "smp_reach n s"
    and "pcs s i = Crit \<or> pcs s i = Unload u" and "pcs s j = Crit \<or> pcs s j = Unload v"
  shows "i = j"
proof -
  obtain q where "smp_abs n s q" using smp_reach_abs assms(1,2) by blast
  from smp_abs_inside [OF this] assms(3,4) show ?thesis by metis
qed

theorem spinlock_mutual_exclusion_witness:
  "\<exists>s. smp_reach 4 s \<and> pcs s 2 = Crit \<and> (\<forall>j. pcs s j = Crit \<longrightarrow> 2 = j)"
proof -
  define s1 where "s1 = smp_init\<lparr>pcs := (\<lambda>_. Idle)(2 := Load 0), monitor := {2}\<rparr>"
  define s2 where "s2 = s1\<lparr>lk := \<lparr>ticket = 1, nxt = 0\<rparr>, pcs := (\<lambda>_. Idle)(2 := Wait 0), monitor := {}\<rparr>"
  define s3 where "s3 = s2\<lparr>pcs := (\<lambda>_. Idle)(2 := Crit)\<rparr>"
  have "smp_step 4 smp_init s1"
    using smp_step.ldaxr [of 2 4 smp_init] by (simp add: s1_def smp_init_def spinlock_init_def)
  moreover have "smp_step 4 s1 s2"
    using smp_step.stxr_ok [of 2 4 s1 0] by (simp add: s1_def s2_def smp_init_def spinlock_init_def)
  moreover have "smp_step 4 s2 s3"
    using smp_step.poll_eq [of 2 4 s2 0] by (simp add: s1_def s2_def s3_def smp_init_def)
  ultimately have r: "smp_reach 4 s3"
    by (blast intro: smp_reach.intros)
  moreover have c: "pcs s3 2 = Crit" by (simp add: s3_def)
  ultimately show ?thesis
    using spinlock_mutual_exclusion [of 4 s3 2 0 _ 0, OF _ r] by auto
qed

text \<open>
  C9. The ticket lock is first come, first served: every step of the instruction sequences
  leaves the queue of ticket owners as it is, appends the element whose \<open>stxr\<close> succeeded at the
  tail, or removes the head, and the element that may leave the polling loop is the head. The
  counters refine this queue (the abstraction \<open>smp_abs\<close>) from the initial state on.
\<close>

theorem spinlock_refines_fifo:
  assumes "n < 2 ^ 32"
  shows "smp_abs n smp_init [] \<and>
    (\<forall>s q t. smp_abs n s q \<longrightarrow> smp_step n s t \<longrightarrow> (\<exists>q'. smp_abs n t q' \<and> queue_step q q')) \<and>
    (\<forall>s q i. smp_abs n s q \<longrightarrow> pcs s i = Crit \<longrightarrow> q \<noteq> [] \<and> i = hd q) \<and>
    (\<forall>s q i t. smp_abs n s (i # q) \<longrightarrow> pcs s i = Wait t \<longrightarrow>
       smp_step n s (s\<lparr>pcs := (pcs s)(i := Crit)\<rparr>))"
proof (intro conjI allI impI)
  show "smp_abs n smp_init []" by (rule smp_abs_init)
  show "\<exists>q'. smp_abs n t q' \<and> queue_step q q'" if "smp_abs n s q" "smp_step n s t" for s q t
    using that assms smp_abs_step by blast
  show "q \<noteq> []" "i = hd q" if "smp_abs n s q" "pcs s i = Crit" for s q i
    using that smp_abs_inside by blast+
  show "smp_step n s (s\<lparr>pcs := (pcs s)(i := Crit)\<rparr>)"
    if "smp_abs n s (i # q)" "pcs s i = Wait t" for s q i t
    using that smp_head_enters by blast
qed

theorem spinlock_refines_fifo_witness:
  "\<exists>t. smp_step 4 smp_init t \<and> (\<exists>q'. smp_abs 4 t q' \<and> queue_step [] q')"
proof -
  have st: "smp_step 4 smp_init (smp_init\<lparr>pcs := (pcs smp_init)(1 := Load (ticket (lk smp_init))),
      monitor := insert 1 (monitor smp_init)\<rparr>)"
    by (rule smp_step.ldaxr) (simp_all add: smp_init_def)
  moreover have "(4 :: nat) < 2 ^ 32" by simp
  ultimately show ?thesis using spinlock_refines_fifo [of 4] by blast
qed

end
