(* ===== verification/Page_Alloc.thy ===== *)
theory Page_Alloc
  imports Machine Spinlock
begin

text \<open>
  The physical page allocator of \<open>src/page_alloc.c\<close>: a bitmap with one bit per page frame, a
  next-fit search for a run of clear bits, and the spinlock around it. The bitmap is the static
  array \<open>g_bitmap\<close> of \<open>src/init.c\<close>, modelled as the list of its 64-bit elements; an access past
  its end is a fault. \<open>page_provider\<close> is the contract the rest of the hypervisor uses.
\<close>

section \<open>Bitmap operations\<close>

definition BIT_PER_LONG :: u64 where "BIT_PER_LONG = 64"
definition BITMAP_ENTRY :: "u64 \<Rightarrow> u64" where "BITMAP_ENTRY nr = nr div BIT_PER_LONG"
definition BITMAP_OFFSET :: "u64 \<Rightarrow> u64" where "BITMAP_OFFSET nr = nr mod BIT_PER_LONG"

definition test_bit :: "u64 list \<Rightarrow> u64 \<Rightarrow> fault + bool" where
  "test_bit addr nr =
     (if unat (BITMAP_ENTRY nr) < length addr
      then Inr (drop_bit (unat (BITMAP_OFFSET nr)) (addr ! unat (BITMAP_ENTRY nr)) AND 1 \<noteq> 0)
      else Inl Out_Of_Bounds)"

definition set_bit_c :: "u64 list \<Rightarrow> u64 \<Rightarrow> fault + u64 list" where
  "set_bit_c addr nr =
     (let k = unat (BITMAP_ENTRY nr) in
      if k < length addr
      then Inr (addr[k := addr ! k OR push_bit (unat (BITMAP_OFFSET nr)) 1])
      else Inl Out_Of_Bounds)"

definition clear_bit :: "u64 list \<Rightarrow> u64 \<Rightarrow> fault + u64 list" where
  "clear_bit addr nr =
     (let k = unat (BITMAP_ENTRY nr) in
      if k < length addr
      then Inr (addr[k := addr ! k AND NOT (push_bit (unat (BITMAP_OFFSET nr)) 1)])
      else Inl Out_Of_Bounds)"

section \<open>The allocator\<close>

record page_allocator =
  pa_lock :: spinlock
  bitmap :: "u64 list"
  total_pages :: u64
  base_pfn :: u64
  last_alloc :: u64

record palloc = machine +
  g_allocator :: page_allocator

definition PAGE_SHIFT :: nat where "PAGE_SHIFT = 12"
definition pfn_to_phy :: "u64 \<Rightarrow> u64" where "pfn_to_phy pfn = push_bit PAGE_SHIFT pfn"
definition phy_to_pfn :: "u64 \<Rightarrow> u64" where "phy_to_pfn phy = drop_bit PAGE_SHIFT phy"

text \<open>
  \<open>memset\<close> of the first \<open>n\<close> bytes of a little-endian array of 64-bit integers to zero; \<open>n\<close> is
  at most the size of the array.
\<close>

definition memset_longs :: "u64 list \<Rightarrow> nat \<Rightarrow> u64 list" where
  "memset_longs xs n =
     map (\<lambda>k. if 8 * k + 8 \<le> n then 0
              else if n \<le> 8 * k then xs ! k
              else xs ! k AND NOT (mask (8 * (n - 8 * k)))) [0..<length xs]"

definition page_allocator_init :: "u64 list option \<Rightarrow> u64 \<Rightarrow> u64 \<Rightarrow> ('a palloc_scheme, int) comp" where
  "page_allocator_init bitmap_buf nr_total phyaddr =
     (if bitmap_buf = None \<or> nr_total = 0 then mret (-1)
      else let n = unat ((nr_total + BIT_PER_LONG - 1) div BIT_PER_LONG) in
           mthen (massert (n \<le> 8 * length (the bitmap_buf)) Out_Of_Bounds)
           (mthen (mmod (g_allocator_update (\<lambda>_.
             \<lparr>pa_lock = spinlock_init, bitmap = memset_longs (the bitmap_buf) n,
              total_pages = nr_total, base_pfn = phy_to_pfn phyaddr, last_alloc = 0\<rparr>)))
           (mret 0)))"

text \<open>
  One of the two search loops of \<open>__find_free_range\<close>: from \<open>i\<close> up to \<open>hi\<close>, with the start and
  the length of the current run of clear bits.
\<close>

function find_run :: "u64 list \<Rightarrow> u64 \<Rightarrow> u64 \<Rightarrow> u64 \<Rightarrow> u64 \<Rightarrow> u64 \<Rightarrow> fault + (u64 option \<times> u64 \<times> u64)"
where
  "find_run bm nr hi i start cnt =
     (if i < hi then
        (case test_bit bm i of
           Inl e \<Rightarrow> Inl e
         | Inr used \<Rightarrow>
             if \<not> used then
               (let start' = (if cnt = 0 then i else start) in
                if cnt + 1 \<ge> nr then Inr (Some start', start', cnt + 1)
                else find_run bm nr hi (i + 1) start' (cnt + 1))
             else find_run bm nr hi (i + 1) start 0)
      else Inr (None, start, cnt))"
  by pat_completeness auto
termination
  by (relation "measure (\<lambda>(bm, nr, hi, i, start, cnt). unat hi - unat i)") (auto simp: word_less_measure)

declare find_run.simps [simp del]

definition find_free_range :: "page_allocator \<Rightarrow> u64 \<Rightarrow> fault + u64" where
  "find_free_range a nr_pages =
     (case find_run (bitmap a) nr_pages (total_pages a) (last_alloc a) 0 0 of
        Inl e \<Rightarrow> Inl e
      | Inr (Some start, _) \<Rightarrow> Inr start
      | Inr (None, start, cnt) \<Rightarrow>
          (case find_run (bitmap a) nr_pages (last_alloc a) 0 start cnt of
             Inl e \<Rightarrow> Inl e
           | Inr (Some start, _) \<Rightarrow> Inr start
           | Inr (None, _) \<Rightarrow> Inr (-1)))"

text \<open>The loops that mark or clear the bits from \<open>i\<close> up to \<open>hi\<close>.\<close>

function bit_range :: "(u64 list \<Rightarrow> u64 \<Rightarrow> fault + u64 list) \<Rightarrow> u64 list \<Rightarrow> u64 \<Rightarrow> u64 \<Rightarrow> fault + u64 list"
where
  "bit_range f bm i hi =
     (if i < hi then (case f bm i of Inl e \<Rightarrow> Inl e | Inr bm' \<Rightarrow> bit_range f bm' (i + 1) hi)
      else Inr bm)"
  by pat_completeness auto
termination
  by (relation "measure (\<lambda>(f, bm, i, hi). unat hi - unat i)") (auto simp: word_less_measure)

declare bit_range.simps [simp del]

abbreviation put_pa_lock :: "(spinlock \<Rightarrow> spinlock) \<Rightarrow> 'a palloc_scheme \<Rightarrow> 'a palloc_scheme" where
  "put_pa_lock f \<equiv> g_allocator_update (pa_lock_update f)"

definition lock_allocator :: "('a palloc_scheme, unit) comp" where
  "lock_allocator = mlock (\<lambda>s. pa_lock (g_allocator s)) put_pa_lock"

definition unlock_allocator :: "('a palloc_scheme, unit) comp" where
  "unlock_allocator = munlock put_pa_lock"

definition alloc_pages :: "u64 \<Rightarrow> ('a palloc_scheme, u64) comp" where
  "alloc_pages nr_pages =
     mbind (mget g_allocator) (\<lambda>a.
     if nr_pages = 0 \<or> nr_pages > total_pages a then mret (-1)
     else
       mthen lock_allocator
       (mbind (mget g_allocator) (\<lambda>a.
        mbind (mlift (find_free_range a nr_pages)) (\<lambda>start_page.
        if start_page = -1 then mthen unlock_allocator (mret (-1))
        else
          mbind (mlift (bit_range set_bit_c (bitmap a) start_page (start_page + nr_pages))) (\<lambda>bm.
          mthen (mmod (g_allocator_update (bitmap_update (\<lambda>_. bm))))
          (mthen (mmod (g_allocator_update (last_alloc_update (\<lambda>_. start_page + nr_pages))))
          (mthen unlock_allocator
          (mret (pfn_to_phy (base_pfn a + start_page))))))))))"

definition free_pages :: "u64 \<Rightarrow> u64 \<Rightarrow> ('a palloc_scheme, int) comp" where
  "free_pages phyaddr nr_pages =
     (let pfn = phy_to_pfn phyaddr in
      mbind (mget g_allocator) (\<lambda>a.
      if pfn < base_pfn a \<or> nr_pages = 0 then mret (-1)
      else let start = pfn - base_pfn a in
        if start + nr_pages > total_pages a then mret (-1)
        else
          mthen lock_allocator
          (mbind (mget g_allocator) (\<lambda>a.
           mbind (mlift (bit_range clear_bit (bitmap a) start (start + nr_pages))) (\<lambda>bm.
           mthen (mmod (g_allocator_update (bitmap_update (\<lambda>_. bm))))
           (mthen (if start < last_alloc a
                   then mmod (g_allocator_update (last_alloc_update (\<lambda>_. start))) else mret ())
           (mthen unlock_allocator (mret 0))))))))"

definition alloc_page :: "('a palloc_scheme, u64) comp" where
  "alloc_page = alloc_pages 1"

definition free_page :: "u64 \<Rightarrow> ('a palloc_scheme, int) comp" where
  "free_page phyaddr = free_pages phyaddr 1"

section \<open>Bits of the bitmap\<close>

definition bm_bit :: "u64 list \<Rightarrow> nat \<Rightarrow> bool" where
  "bm_bit bm k = bit (bm ! (k div 64)) (k mod 64)"

lemma bitmap_index: "unat (BITMAP_ENTRY nr) = unat nr div 64" "unat (BITMAP_OFFSET nr) = unat nr mod 64"
  by (simp_all add: BITMAP_ENTRY_def BITMAP_OFFSET_def BIT_PER_LONG_def unat_div_distrib unat_mod_distrib)

lemma in_bitmap_iff: "k div 64 < length bm \<longleftrightarrow> k < 64 * length bm"
  by auto

lemma test_bit_run: "unat nr < 64 * length bm \<Longrightarrow> test_bit bm nr = Inr (bm_bit bm (unat nr))"
  by (simp add: test_bit_def bitmap_index in_bitmap_iff bm_bit_def bit_iff_odd_drop_bit
      odd_iff_mod_2_eq_one and_one_eq)

lemma div_mod_64_inj: "k div 64 = j div 64 \<Longrightarrow> k mod 64 = j mod 64 \<Longrightarrow> k = (j :: nat)"
  by (metis div_mult_mod_eq)

text \<open>
  The contract of a function that writes one bit of a bitmap; the marking loop of
  \<open>alloc_pages\<close> and the clearing loop of \<open>free_pages\<close> use one such function each.
\<close>

locale bit_writer =
  fixes f :: "u64 list \<Rightarrow> u64 \<Rightarrow> fault + u64 list" and v :: bool
  assumes writes: "unat nr < 64 * length bm \<Longrightarrow>
    \<exists>bm'. f bm nr = Inr bm' \<and> length bm' = length bm \<and>
      (\<forall>k < 64 * length bm. bm_bit bm' k \<longleftrightarrow> (if k = unat nr then v else bm_bit bm k))"
begin

lemma range_run:
  "unat hi \<le> 64 * length bm \<Longrightarrow>
   \<exists>bm'. bit_range f bm i hi = Inr bm' \<and> length bm' = length bm \<and>
     (\<forall>k < 64 * length bm. bm_bit bm' k \<longleftrightarrow>
        (if unat i \<le> k \<and> k < unat hi then v else bm_bit bm k))"
proof (induction "unat hi - unat i" arbitrary: bm i rule: less_induct)
  case less
  show ?case
  proof (cases "i < hi")
    case True
    then have i: "unat i < unat hi" "unat (i + 1) = Suc (unat i)"
      by (simp_all add: word_less_nat_alt unat_inc [OF True])
    obtain b1 where b1: "f bm i = Inr b1" "length b1 = length bm"
      "\<And>k. k < 64 * length bm \<Longrightarrow> bm_bit b1 k \<longleftrightarrow> (if k = unat i then v else bm_bit bm k)"
      using writes [of i bm] less.prems i by auto
    obtain b2 where b2: "bit_range f b1 (i + 1) hi = Inr b2" "length b2 = length bm"
      "\<And>k. k < 64 * length bm \<Longrightarrow> bm_bit b2 k \<longleftrightarrow>
         (if Suc (unat i) \<le> k \<and> k < unat hi then v else bm_bit b1 k)"
      using less.hyps [OF word_less_measure [OF True], of b1] less.prems b1(2) i(2) by auto
    have "bit_range f bm i hi = Inr b2"
      using True b1(1) b2(1) by (simp add: bit_range.simps [of f bm i hi])
    with b1 b2 i show ?thesis by auto
  next
    case False
    then show ?thesis by (auto simp: bit_range.simps [of f bm i hi] word_less_nat_alt)
  qed
qed

end

interpretation marks: bit_writer set_bit_c True
proof
  fix nr :: u64 and bm :: "u64 list"
  assume nr: "unat nr < 64 * length bm"
  have "bit (bm[unat nr div 64 := bm ! (unat nr div 64) OR push_bit (unat nr mod 64) 1] ! (k div 64))
      (k mod 64) \<longleftrightarrow> (if k = unat nr then True else bit (bm ! (k div 64)) (k mod 64))"
    if "k < 64 * length bm" for k
    using that nr div_mod_64_inj [of k "unat nr"]
    by (cases "k div 64 = unat nr div 64") (auto simp: in_bitmap_iff bit_simps)
  then show "\<exists>bm'. set_bit_c bm nr = Inr bm' \<and> length bm' = length bm \<and>
      (\<forall>k < 64 * length bm. bm_bit bm' k \<longleftrightarrow> (if k = unat nr then True else bm_bit bm k))"
    using nr by (simp add: set_bit_c_def bitmap_index in_bitmap_iff bm_bit_def Let_def)
qed

interpretation clears: bit_writer clear_bit False
proof
  fix nr :: u64 and bm :: "u64 list"
  assume nr: "unat nr < 64 * length bm"
  have "bit (bm[unat nr div 64 := bm ! (unat nr div 64) AND NOT (push_bit (unat nr mod 64) 1)] ! (k div 64))
      (k mod 64) \<longleftrightarrow> (if k = unat nr then False else bit (bm ! (k div 64)) (k mod 64))"
    if "k < 64 * length bm" for k
    using that nr div_mod_64_inj [of k "unat nr"]
    by (cases "k div 64 = unat nr div 64") (auto simp: in_bitmap_iff bit_simps)
  then show "\<exists>bm'. clear_bit bm nr = Inr bm' \<and> length bm' = length bm \<and>
      (\<forall>k < 64 * length bm. bm_bit bm' k \<longleftrightarrow> (if k = unat nr then False else bm_bit bm k))"
    using nr by (simp add: clear_bit_def bitmap_index in_bitmap_iff bm_bit_def Let_def)
qed

section \<open>The search\<close>

text \<open>
  The state of the search at position \<open>i\<close>: the current run is the \<open>cnt\<close> clear bits before \<open>i\<close>.
\<close>

definition run_at :: "u64 list \<Rightarrow> u64 \<Rightarrow> u64 \<Rightarrow> u64 \<Rightarrow> bool" where
  "run_at bm i start cnt \<longleftrightarrow> cnt \<noteq> 0 \<longrightarrow>
     unat start + unat cnt = unat i \<and> (\<forall>k. unat start \<le> k \<and> k < unat i \<longrightarrow> \<not> bm_bit bm k)"

lemma find_run_found:
  assumes "unat hi \<le> 64 * length bm" and "run_at bm i start cnt" and "cnt < nr"
    and "find_run bm nr hi i start cnt = Inr (Some p, q)"
  shows "unat p + unat nr \<le> unat hi \<and> (\<forall>k. unat p \<le> k \<and> k < unat p + unat nr \<longrightarrow> \<not> bm_bit bm k)"
  using assms
proof (induction bm nr hi i start cnt rule: find_run.induct)
  case (1 bm nr hi i start cnt)
  let ?start = "if cnt = 0 then i else start"
  have lt: "i < hi" using 1(6) by (auto simp: find_run.simps [of bm nr hi i] split: if_splits)
  then have i: "unat i < unat hi" "unat (i + 1) = Suc (unat i)"
    by (simp_all add: word_less_nat_alt unat_inc [OF lt])
  have c: "unat (cnt + 1) = Suc (unat cnt)" using 1(5) by (rule unat_inc)
  have t: "test_bit bm i = Inr (bm_bit bm (unat i))" using i 1(3) by (simp add: test_bit_run)
  show ?case
  proof (cases "bm_bit bm (unat i)")
    case True
    have "run_at bm (i + 1) start 0" by (simp add: run_at_def)
    moreover have "0 < nr" using 1(5) by (auto simp: word_gt_0)
    ultimately show ?thesis
      using 1(2) [OF lt t] 1(3,6) lt t True by (simp add: find_run.simps [of bm nr hi i])
  next
    case free: False
    have ra: "run_at bm (i + 1) ?start (cnt + 1)"
      using 1(4) free i c by (auto simp: run_at_def less_Suc_eq)
    show ?thesis
    proof (cases "cnt + 1 \<ge> nr")
      case True
      have "unat nr = Suc (unat cnt)"
        using True 1(5) c by (simp add: word_le_nat_alt word_less_nat_alt)
      moreover have "p = ?start"
        using 1(6) lt t free True by (simp add: find_run.simps [of bm nr hi i] Let_def)
      moreover have "cnt + 1 \<noteq> 0" using c by (metis unat_0 nat.distinct(1))
      ultimately show ?thesis using ra i c by (auto simp: run_at_def)
    next
      case False
      then have "find_run bm nr hi i start cnt = find_run bm nr hi (i + 1) ?start (cnt + 1)"
        using lt t free by (subst find_run.simps) (simp add: Let_def del: not_le)
      with False show ?thesis
        using 1(1) [OF lt t] free ra 1(3,6) by simp
    qed
  qed
qed

lemma find_run_not_found:
  assumes "unat hi \<le> 64 * length bm" and "unat i \<le> unat hi"
    and "run_at bm i start cnt" and "cnt < nr"
  shows "(\<exists>p q. find_run bm nr hi i start cnt = Inr (Some p, q)) \<or>
    (\<exists>p c. find_run bm nr hi i start cnt = Inr (None, p, c) \<and> run_at bm hi p c \<and> c < nr \<and>
       (\<forall>r. unat i \<le> r + unat cnt \<and> r + unat nr \<le> unat hi \<longrightarrow>
          (\<exists>k. r \<le> k \<and> k < r + unat nr \<and> bm_bit bm k)))"
  using assms
proof (induction bm nr hi i start cnt rule: find_run.induct)
  case (1 bm nr hi i start cnt)
  let ?start = "if cnt = 0 then i else start"
  show ?case
  proof (cases "i < hi")
    case False
    with 1 have "i = hi" by (simp add: word_less_nat_alt unsigned_word_eqI)
    moreover have "find_run bm nr hi i start cnt = Inr (None, start, cnt)"
      using False by (simp add: find_run.simps [of bm nr hi i])
    moreover have "\<not> (unat i \<le> r + unat cnt \<and> r + unat nr \<le> unat hi)" for r
      using 1(6) \<open>i = hi\<close> by (simp add: word_less_nat_alt)
    ultimately show ?thesis using 1(5,6) by blast
  next
    case lt: True
    have i: "unat i < unat hi" "unat (i + 1) = Suc (unat i)"
      using lt by (simp_all add: word_less_nat_alt unat_inc [OF lt])
    have c: "unat (cnt + 1) = Suc (unat cnt)" using 1(6) by (rule unat_inc)
    have t: "test_bit bm i = Inr (bm_bit bm (unat i))" using i 1(3) by (simp add: test_bit_run)
    show ?thesis
    proof (cases "bm_bit bm (unat i)")
      case True
      have eq: "find_run bm nr hi i start cnt = find_run bm nr hi (i + 1) start 0"
        using lt t True by (simp add: find_run.simps [of bm nr hi i])
      have gap: "\<exists>k. r \<le> k \<and> k < r + unat nr \<and> bm_bit bm k"
        if "unat i \<le> r + unat cnt" "r \<le> unat i" for r
        using True that 1(6) by (auto simp: word_less_nat_alt intro!: exI [of _ "unat i"])
      have ra: "run_at bm (i + 1) start 0" and pos: "0 < nr"
        using 1(6) by (auto simp: run_at_def word_gt_0)
      have le: "unat (i + 1) \<le> unat hi" and used: "\<not> \<not> bm_bit bm (unat i)" using i True by simp_all
      from 1(2) [OF lt t used 1(3) le ra pos] show ?thesis
      proof (elim disjE exE conjE)
        fix p c
        assume res: "find_run bm nr hi (i + 1) start 0 = Inr (None, p, c)" "run_at bm hi p c" "c < nr"
          and none: "\<forall>r. unat (i + 1) \<le> r + unat (0 :: u64) \<and> r + unat nr \<le> unat hi \<longrightarrow>
            (\<exists>k\<ge>r. k < r + unat nr \<and> bm_bit bm k)"
        have "\<exists>k\<ge>r. k < r + unat nr \<and> bm_bit bm k"
          if "unat i \<le> r + unat cnt" "r + unat nr \<le> unat hi" for r
          using gap [OF that(1)] none [rule_format, of r] that(2) i(2) by (cases "r \<le> unat i") simp_all
        with res eq show ?thesis by auto
      qed (use eq in auto)
    next
      case free: False
      have ra: "run_at bm (i + 1) ?start (cnt + 1)"
        using 1(5) free i c by (auto simp: run_at_def less_Suc_eq)
      show ?thesis
      proof (cases "cnt + 1 \<ge> nr")
        case True
        then show ?thesis using lt t free by (simp add: find_run.simps [of bm nr hi i] Let_def)
      next
        case False
        then have "find_run bm nr hi i start cnt = find_run bm nr hi (i + 1) ?start (cnt + 1)"
          using lt t free by (subst find_run.simps) (simp add: Let_def del: not_le)
        with False show ?thesis
          using 1(1) [OF lt t] free ra 1(3) i c by simp
      qed
    qed
  qed
qed

lemma ex_just: "(\<exists>k\<ge>r. k < Suc r \<and> P k) \<longleftrightarrow> P r" for r :: nat
  by (auto simp: less_Suc_eq_le dest: le_antisym)

lemma find_run_one:
  assumes "unat hi \<le> 64 * length bm" and "unat i \<le> unat hi"
  shows "(\<exists>p q. find_run bm 1 hi i start 0 = Inr (Some p, q) \<and> unat p < unat hi \<and> \<not> bm_bit bm (unat p)) \<or>
    (\<exists>p. find_run bm 1 hi i start 0 = Inr (None, p, 0) \<and>
       (\<forall>r. unat i \<le> r \<and> r < unat hi \<longrightarrow> bm_bit bm r))"
proof -
  have ra: "run_at bm i start 0" and lt: "(0 :: u64) < 1" by (simp_all add: run_at_def)
  from find_run_not_found [OF assms ra lt] show ?thesis
  proof (elim disjE exE conjE)
    fix p q
    assume found: "find_run bm 1 hi i start 0 = Inr (Some p, q)"
    from find_run_found [OF assms(1) ra lt found] found show ?thesis by (auto simp: Suc_le_eq)
  next
    fix p c
    assume "find_run bm 1 hi i start 0 = Inr (None, p, c)" "c < 1"
      "\<forall>r. unat i \<le> r + unat (0 :: u64) \<and> r + unat (1 :: u64) \<le> unat hi \<longrightarrow>
          (\<exists>k\<ge>r. k < r + unat (1 :: u64) \<and> bm_bit bm k)"
    then show ?thesis by (simp add: ex_just Suc_le_eq)
  qed
qed

text \<open>
  The current run is as long as it can be: it starts where the search started or after a used page.
\<close>

definition tight :: "u64 list \<Rightarrow> nat \<Rightarrow> u64 \<Rightarrow> u64 \<Rightarrow> bool" where
  "tight bm lo i cnt \<longleftrightarrow> lo + unat cnt \<le> unat i \<and>
     (lo + unat cnt = unat i \<or> bm_bit bm (unat i - unat cnt - 1))"

lemma find_run_tight:
  assumes "unat hi \<le> 64 * length bm" and "i \<le> hi" and "tight bm lo i cnt" and "cnt < nr"
    and "find_run bm nr hi i start cnt = Inr (None, p, c)"
  shows "tight bm lo hi c"
  using assms
proof (induction bm nr hi i start cnt rule: find_run.induct)
  case (1 bm nr hi i start cnt)
  show ?case
  proof (cases "i < hi")
    case False
    with 1(4) have "i = hi" by simp
    with False 1(5,7) show ?thesis by (simp add: find_run.simps [of bm nr hi hi])
  next
    case lt: True
    have i: "unat i < unat hi" "unat (i + 1) = Suc (unat i)" "i + 1 \<le> hi"
      using lt by (simp_all add: word_less_nat_alt word_le_nat_alt unat_inc [OF lt])
    have c: "unat (cnt + 1) = Suc (unat cnt)" using 1(6) by (rule unat_inc)
    have t: "test_bit bm i = Inr (bm_bit bm (unat i))" using i 1(3) by (simp add: test_bit_run)
    show ?thesis
    proof (cases "bm_bit bm (unat i)")
      case True
      have "find_run bm nr hi (i + 1) start 0 = Inr (None, p, c)"
        using 1(7) lt t True by (simp add: find_run.simps [of bm nr hi i])
      moreover have "tight bm lo (i + 1) 0" "0 < nr"
        using True 1(5,6) i by (auto simp: tight_def word_gt_0)
      ultimately show ?thesis using 1(2) [OF lt t _ 1(3) i(3)] True by simp
    next
      case False
      moreover from this have "\<not> cnt + 1 \<ge> nr" "find_run bm nr hi (i + 1) (if cnt = 0 then i else start)
          (cnt + 1) = Inr (None, p, c)"
        using 1(7) lt t by (auto simp: find_run.simps [of bm nr hi i] Let_def split: if_splits)
      moreover have "tight bm lo (i + 1) (cnt + 1)" using 1(5) i c by (simp add: tight_def)
      ultimately show ?thesis using 1(1) [OF lt t _ _ _ 1(3) i(3)] by simp
    qed
  qed
qed

lemma find_run_lower:
  assumes "unat lo \<le> unat i" and "cnt \<noteq> 0 \<longrightarrow> unat lo \<le> unat start"
    and "find_run bm nr hi i start cnt = Inr (Some p, q)"
  shows "unat lo \<le> unat p"
  using assms
proof (induction bm nr hi i start cnt rule: find_run.induct)
  case (1 bm nr hi i start cnt)
  have lt: "i < hi" using 1(5) by (auto simp: find_run.simps [of bm nr hi i] split: if_splits)
  then have i: "unat lo \<le> unat (i + 1)" using 1(3) by (simp add: unat_inc [OF lt])
  obtain b where t: "test_bit bm i = Inr b"
    using 1(5) lt by (cases "test_bit bm i") (auto simp: find_run.simps [of bm nr hi i])
  show ?case
  proof (cases b)
    case True
    then show ?thesis
      using 1(2) [OF lt t _ i] 1(5) lt t by (simp add: find_run.simps [of bm nr hi i])
  next
    case False
    then show ?thesis
      using 1(1) [OF lt t _ refl _ i] 1(3,4,5) lt t
      by (auto simp: find_run.simps [of bm nr hi i] Let_def split: if_splits)
  qed
qed

lemma find_run_prefix:
  assumes "unat hi \<le> 64 * length bm" and "cnt < nr" and "unat i + (unat nr - unat cnt) \<le> unat hi"
    and "\<forall>k. unat i \<le> k \<and> k < unat i + (unat nr - unat cnt) \<longrightarrow> \<not> bm_bit bm k"
  shows "\<exists>q. find_run bm nr hi i start cnt = Inr (Some (if cnt = 0 then i else start), q)"
  using assms
proof (induction bm nr hi i start cnt rule: find_run.induct)
  case (1 bm nr hi i start cnt)
  let ?start = "if cnt = 0 then i else start"
  have d: "unat cnt < unat nr" using 1(4) by (simp add: word_less_nat_alt)
  have lt: "i < hi" using 1(5) d by (simp add: word_less_nat_alt)
  have i: "unat i < unat hi" "unat (i + 1) = Suc (unat i)"
    using lt by (simp_all add: word_less_nat_alt unat_inc [OF lt])
  have c: "unat (cnt + 1) = Suc (unat cnt)" using 1(4) by (rule unat_inc)
  have free: "\<not> bm_bit bm (unat i)" using 1(6) d by simp
  have t: "test_bit bm i = Inr (bm_bit bm (unat i))" using i 1(3) by (simp add: test_bit_run)
  show ?case
  proof (cases "cnt + 1 \<ge> nr")
    case True
    then show ?thesis using lt t free by (simp add: find_run.simps [of bm nr hi i] Let_def)
  next
    case False
    then have eq: "find_run bm nr hi i start cnt = find_run bm nr hi (i + 1) ?start (cnt + 1)"
      using lt t free by (subst find_run.simps) (simp add: Let_def del: not_le)
    have "cnt + 1 \<noteq> 0" using c by (metis unat_0 nat.distinct(1))
    moreover have "\<exists>q. find_run bm nr hi (i + 1) ?start (cnt + 1) =
        Inr (Some (if cnt + 1 = 0 then i + 1 else ?start), q)"
      by (rule 1(1) [OF lt t _ refl False 1(3)])
        (use False free 1(5,6) i c in \<open>auto simp: not_le\<close>)
    ultimately show ?thesis using eq by simp
  qed
qed

section \<open>Correctness of the allocator\<close>

text \<open>
  The allocator invariant: the bitmap covers every page, the hint is in range, the frame
  numbers fit in 52 bits so that physical addresses do not overflow, and the lock is free.
\<close>

definition pa_inv :: "page_allocator \<Rightarrow> bool" where
  "pa_inv a \<longleftrightarrow> 0 < total_pages a \<and> unat (total_pages a) \<le> 64 * length (bitmap a) \<and>
     last_alloc a \<le> total_pages a \<and> 0 < base_pfn a \<and>
     unat (base_pfn a) + unat (total_pages a) < 2 ^ 52 \<and> spin_free (pa_lock a)"

text \<open>The abstraction: the set of the page numbers that are free.\<close>

definition free_set :: "page_allocator \<Rightarrow> nat set" where
  "free_set a = {k. k < unat (total_pages a) \<and> \<not> bm_bit (bitmap a) k}"

lemma free_set_code [code]:
  "free_set a = set (filter (\<lambda>k. \<not> bm_bit (bitmap a) k) [0..<unat (total_pages a)])"
  by (auto simp: free_set_def)

lemma finite_free_set [simp]: "finite (free_set a)"
  by (simp add: free_set_def)

lemma find_free_range_one:
  assumes "pa_inv a"
  shows "\<exists>r. find_free_range a 1 = Inr r \<and>
    (if free_set a = {} then r = -1 else unat r \<in> free_set a)"
proof -
  have b: "unat (total_pages a) \<le> 64 * length (bitmap a)" "unat (last_alloc a) \<le> unat (total_pages a)"
    using assms by (simp_all add: pa_inv_def word_le_nat_alt)
  from find_run_one [OF b, of 0] show ?thesis
  proof (elim disjE exE conjE)
    fix p q
    assume "find_run (bitmap a) 1 (total_pages a) (last_alloc a) 0 0 = Inr (Some p, q)"
      "unat p < unat (total_pages a)" "\<not> bm_bit (bitmap a) (unat p)"
    then show ?thesis by (auto simp: find_free_range_def free_set_def)
  next
    fix p
    assume first: "find_run (bitmap a) 1 (total_pages a) (last_alloc a) 0 0 = Inr (None, p, 0)"
      and high: "\<forall>r. unat (last_alloc a) \<le> r \<and> r < unat (total_pages a) \<longrightarrow> bm_bit (bitmap a) r"
    have l: "unat (last_alloc a) \<le> 64 * length (bitmap a)" "unat (0 :: u64) \<le> unat (last_alloc a)"
      using b by simp_all
    from find_run_one [OF l, of p] show ?thesis
    proof (elim disjE exE conjE)
      fix r q
      assume "find_run (bitmap a) 1 (last_alloc a) 0 p 0 = Inr (Some r, q)"
        "unat r < unat (last_alloc a)" "\<not> bm_bit (bitmap a) (unat r)"
      with first b show ?thesis by (auto simp: find_free_range_def free_set_def)
    next
      fix r
      assume second: "find_run (bitmap a) 1 (last_alloc a) 0 p 0 = Inr (None, r, 0)"
        and low: "\<forall>r. unat (0 :: u64) \<le> r \<and> r < unat (last_alloc a) \<longrightarrow> bm_bit (bitmap a) r"
      have "free_set a = {}"
        using high low by (auto simp: free_set_def) (meson not_le)
      with first second show ?thesis by (simp add: find_free_range_def)
    qed
  qed
qed

text \<open>The physical address of page \<open>k\<close>.\<close>

definition page_addr :: "page_allocator \<Rightarrow> nat \<Rightarrow> u64" where
  "page_addr a k = pfn_to_phy (base_pfn a + of_nat k)"

lemma unat_push_bit_12: "unat p < 2 ^ 52 \<Longrightarrow> unat (push_bit 12 p) = unat p * 4096" for p :: u64
  by (simp add: push_bit_eq_mult unat_word_ariths)

lemma unat_page_addr:
  assumes "pa_inv a" and "k < unat (total_pages a)"
  shows "unat (page_addr a k) = (unat (base_pfn a) + k) * 4096"
proof -
  have b: "unat (base_pfn a) + k < 2 ^ 52" using assms by (simp add: pa_inv_def)
  then have "unat (of_nat k :: u64) = k" by (simp add: unat_of_nat)
  with b have "unat (base_pfn a + of_nat k) = unat (base_pfn a) + k"
    by (simp add: unat_word_ariths)
  with b show ?thesis
    using unat_push_bit_12 [of "base_pfn a + of_nat k"]
    by (simp add: page_addr_def pfn_to_phy_def PAGE_SHIFT_def)
qed

lemma page_addr_inj:
  assumes "pa_inv a" and "j < unat (total_pages a)" and "k < unat (total_pages a)"
    and "page_addr a j = page_addr a k"
  shows "j = k"
proof -
  have "unat (page_addr a j) = unat (page_addr a k)" using assms(4) by simp
  with assms(1-3) show ?thesis by (simp add: unat_page_addr)
qed

lemma phy_to_pfn_page_addr:
  assumes "pa_inv a" and "k < unat (total_pages a)"
  shows "phy_to_pfn (page_addr a k) = base_pfn a + of_nat k"
proof -
  have "unat (phy_to_pfn (page_addr a k)) = unat (base_pfn a) + k"
    using unat_page_addr [OF assms]
    by (simp add: phy_to_pfn_def PAGE_SHIFT_def drop_bit_eq_div unat_div_distrib)
  moreover have "unat (base_pfn a + of_nat k) = unat (base_pfn a) + k"
    using assms by (simp add: pa_inv_def unat_word_ariths unat_of_nat)
  ultimately show ?thesis by (metis unsigned_word_eqI)
qed

text \<open>What \<open>alloc_page\<close> promises, on the set of free pages.\<close>

definition alloc_spec :: "page_allocator \<Rightarrow> u64 \<Rightarrow> page_allocator \<Rightarrow> bool" where
  "alloc_spec a r a' \<longleftrightarrow> pa_inv a' \<and> base_pfn a' = base_pfn a \<and> total_pages a' = total_pages a \<and>
     (if free_set a = {} then r = -1 \<and> free_set a' = {}
      else \<exists>k \<in> free_set a. r = page_addr a k \<and> free_set a' = free_set a - {k})"

lemma pa_inv_lock_cycle [simp]: "pa_inv (a\<lparr>pa_lock := lock_cycle (pa_lock a)\<rparr>) = pa_inv a"
  by (simp add: pa_inv_def)

lemma free_set_update [simp]:
  "free_set (a\<lparr>pa_lock := l\<rparr>) = free_set a" "free_set (a\<lparr>last_alloc := i\<rparr>) = free_set a"
  by (simp_all add: free_set_def)

lemma page_addr_update [simp]:
  "page_addr (a\<lparr>pa_lock := l\<rparr>) = page_addr a" "page_addr (a\<lparr>last_alloc := i\<rparr>) = page_addr a"
  "page_addr (a\<lparr>bitmap := b\<rparr>) = page_addr a"
  by (simp_all add: page_addr_def fun_eq_iff)

lemma find_free_range_lock [simp]: "find_free_range (a\<lparr>pa_lock := l\<rparr>) = find_free_range a"
  by (simp add: find_free_range_def fun_eq_iff split: sum.split option.split prod.split)

text \<open>
  Once the search has returned a start, as many bits as pages are marked from there on and its
  address is returned, whether or not the range lies within the managed pages.
\<close>

lemma alloc_pages_mark:
  assumes "pa_inv (g_allocator s)" and "0 < n" and "n \<le> total_pages (g_allocator s)"
    and "find_free_range (g_allocator s) n = Inr r" and "r < total_pages (g_allocator s)"
    and "unat r + unat n \<le> 64 * length (bitmap (g_allocator s))"
  obtains a' where "alloc_pages n s = Inr (page_addr (g_allocator s) (unat r), s\<lparr>g_allocator := a'\<rparr>)"
    and "base_pfn a' = base_pfn (g_allocator s)" and "total_pages a' = total_pages (g_allocator s)"
    and "length (bitmap a') = length (bitmap (g_allocator s))" and "spin_free (pa_lock a')"
    and "unat (last_alloc a') = unat r + unat n"
    and "free_set a' = free_set (g_allocator s) - {unat r..<unat r + unat n}"
proof -
  let ?a = "g_allocator s"
  let ?l = "lock_cycle (pa_lock ?a)"
  have inv: "spin_free (pa_lock ?a)" "unat (total_pages ?a) < 2 ^ 52"
    "unat (total_pages ?a) \<le> 64 * length (bitmap ?a)"
    using assms(1) by (auto simp: pa_inv_def)
  have n: "0 < unat n" "\<not> total_pages ?a < n" "unat n < 2 ^ 52" "unat r < 2 ^ 52"
    using assms(2,3,5) inv(2) by (simp_all add: word_less_nat_alt word_le_nat_alt)
  have r: "unat (r + n) = unat r + unat n" "r \<noteq> -1"
    using n by (auto simp: unat_word_ariths unsigned_minus_1_eq_mask mask_eq_exp_minus_1)
  obtain bm where bm: "bit_range set_bit_c (bitmap ?a) r (r + n) = Inr bm" "length bm = length (bitmap ?a)"
    "\<And>j. j < 64 * length (bitmap ?a) \<Longrightarrow>
       bm_bit bm j \<longleftrightarrow> (if unat r \<le> j \<and> j < unat (r + n) then True else bm_bit (bitmap ?a) j)"
    using marks.range_run [of "r + n" "bitmap ?a" r] assms(6) r(1) by auto
  let ?a' = "?a\<lparr>pa_lock := ?l, bitmap := bm, last_alloc := r + n\<rparr>"
  have "alloc_pages n s = Inr (page_addr ?a (unat r), s\<lparr>g_allocator := ?a'\<rparr>)"
    using assms(2,4) inv(1) n(2) r(2) bm(1)
    by (auto simp: alloc_pages_def lock_allocator_def unlock_allocator_def run lock_unlock_eq page_addr_def)
  moreover have "free_set ?a' = free_set ?a - {unat r..<unat r + unat n}"
    using bm(3) inv(3) r(1) by (auto simp: free_set_def split: if_splits)
  ultimately show ?thesis using that [of ?a'] bm(2) r(1) inv(1) by simp
qed

lemma alloc_pages_commit:
  assumes "pa_inv (g_allocator s)" and "0 < n" and "find_free_range (g_allocator s) n = Inr r"
    and "unat r + unat n \<le> unat (total_pages (g_allocator s))"
  shows "\<exists>a'. alloc_pages n s = Inr (page_addr (g_allocator s) (unat r), s\<lparr>g_allocator := a'\<rparr>) \<and>
    pa_inv a' \<and> base_pfn a' = base_pfn (g_allocator s) \<and> total_pages a' = total_pages (g_allocator s) \<and>
    free_set a' = free_set (g_allocator s) - {unat r..<unat r + unat n}"
proof -
  have b: "n \<le> total_pages (g_allocator s)" "r < total_pages (g_allocator s)"
    "unat r + unat n \<le> 64 * length (bitmap (g_allocator s))"
    using assms(1,2,4) by (auto simp: pa_inv_def word_le_nat_alt word_less_nat_alt)
  show ?thesis
    by (rule alloc_pages_mark [OF assms(1,2) b(1) assms(3) b(2,3)])
      (use assms(1,4) in \<open>auto simp: pa_inv_def word_le_nat_alt\<close>)
qed

lemma alloc_pages_none:
  assumes "pa_inv (g_allocator s)" and "0 < n" and "n \<le> total_pages (g_allocator s)"
    and "find_free_range (g_allocator s) n = Inr (-1)"
  shows "alloc_pages n s = Inr (-1, s\<lparr>g_allocator := (g_allocator s)
    \<lparr>pa_lock := lock_cycle (pa_lock (g_allocator s))\<rparr>\<rparr>)"
  using assms by (auto simp: alloc_pages_def lock_allocator_def unlock_allocator_def run lock_unlock_eq
      pa_inv_def)

lemma alloc_page_run:
  assumes "pa_inv (g_allocator s)"
  shows "\<exists>r a'. alloc_page s = Inr (r, s\<lparr>g_allocator := a'\<rparr>) \<and> alloc_spec (g_allocator s) r a'"
proof -
  let ?a = "g_allocator s"
  obtain r where r: "find_free_range ?a 1 = Inr r" "if free_set ?a = {} then r = -1 else unat r \<in> free_set ?a"
    using find_free_range_one [OF assms] by blast
  show ?thesis
  proof (cases "free_set ?a = {}")
    case True
    have "1 \<le> total_pages ?a" using assms by (simp add: pa_inv_def word_less_nat_alt word_le_nat_alt)
    with True r assms alloc_pages_none [OF assms, of 1] show ?thesis
      by (auto simp: alloc_page_def alloc_spec_def)
  next
    case False
    with r(2) have k: "unat r \<in> free_set ?a" by simp
    then have "unat r + unat (1 :: u64) \<le> unat (total_pages ?a)" by (simp add: free_set_def)
    moreover have "{unat r..<unat r + unat (1 :: u64)} = {unat r}" by auto
    ultimately show ?thesis
      using alloc_pages_commit [OF assms _ r(1)] False k by (auto simp: alloc_page_def alloc_spec_def)
  qed
qed

text \<open>Releasing pages: the errors of \<open>free_pages\<close> and its effect on the set of free pages.\<close>

definition free_spec :: "page_allocator \<Rightarrow> nat \<Rightarrow> nat \<Rightarrow> page_allocator \<Rightarrow> bool" where
  "free_spec a k n a' \<longleftrightarrow> pa_inv a' \<and> base_pfn a' = base_pfn a \<and> total_pages a' = total_pages a \<and>
     free_set a' = free_set a \<union> {k..<k + n}"

text \<open>
  The position of an address, and the sum that \<open>free_pages\<close> compares with the number of pages: it is
  computed with 64 bits, so that a huge count wraps around.
\<close>

definition page_pos :: "page_allocator \<Rightarrow> u64 \<Rightarrow> nat" where
  "page_pos a p = unat (phy_to_pfn p) - unat (base_pfn a)"

lemma page_end:
  assumes "\<not> phy_to_pfn p < base_pfn a"
  shows "unat (phy_to_pfn p - base_pfn a) = page_pos a p"
    and "unat (phy_to_pfn p - base_pfn a + n) = (page_pos a p + unat n) mod 2 ^ 64"
    and "page_pos a p < 2 ^ 52"
proof -
  show u: "unat (phy_to_pfn p - base_pfn a) = page_pos a p"
    using assms by (simp add: page_pos_def unat_sub not_less)
  then show "unat (phy_to_pfn p - base_pfn a + n) = (page_pos a p + unat n) mod 2 ^ 64"
    by (simp add: unat_word_ariths)
  have "unat (phy_to_pfn p) < 2 ^ 52"
    using unsigned_less [of p, where 'a = nat]
    by (simp add: phy_to_pfn_def PAGE_SHIFT_def drop_bit_eq_div unat_div_distrib less_mult_imp_div_less)
  then show "page_pos a p < 2 ^ 52" by (simp add: page_pos_def)
qed

lemma free_pages_error:
  assumes "phy_to_pfn p < base_pfn (g_allocator s) \<or> n = 0 \<or>
    unat (total_pages (g_allocator s)) < (page_pos (g_allocator s) p + unat n) mod 2 ^ 64"
  shows "free_pages p n s = Inr (-1, s)"
  using assms page_end(2) [of p "g_allocator s" n]
  by (cases "phy_to_pfn p < base_pfn (g_allocator s)") (auto simp: free_pages_def Let_def run word_less_nat_alt)

lemma free_pages_accepts:
  assumes "pa_inv (g_allocator s)" and "\<not> phy_to_pfn p < base_pfn (g_allocator s)" and "n \<noteq> 0"
    and "(page_pos (g_allocator s) p + unat n) mod 2 ^ 64 \<le> unat (total_pages (g_allocator s))"
  obtains a' where "free_pages p n s = Inr (0, s\<lparr>g_allocator := a'\<rparr>)" and "pa_inv a'"
    and "base_pfn a' = base_pfn (g_allocator s)" and "total_pages a' = total_pages (g_allocator s)"
    and "free_set a' = free_set (g_allocator s) \<union>
      {page_pos (g_allocator s) p..<(page_pos (g_allocator s) p + unat n) mod 2 ^ 64}"
proof -
  let ?a = "g_allocator s"
  let ?k = "phy_to_pfn p - base_pfn ?a"
  let ?l = "lock_cycle (pa_lock ?a)"
  note e = page_end [OF assms(2)]
  have inv: "unat (total_pages ?a) \<le> 64 * length (bitmap ?a)" "spin_free (pa_lock ?a)"
    using assms(1) by (auto simp: pa_inv_def)
  have le: "\<not> total_pages ?a < ?k + n"
    using e(2) [of n] assms(4) by (simp add: word_less_nat_alt)
  obtain bm where bm: "bit_range clear_bit (bitmap ?a) ?k (?k + n) = Inr bm" "length bm = length (bitmap ?a)"
    "\<And>j. j < 64 * length (bitmap ?a) \<Longrightarrow>
       bm_bit bm j \<longleftrightarrow> (if unat ?k \<le> j \<and> j < unat (?k + n) then False else bm_bit (bitmap ?a) j)"
    using clears.range_run [of "?k + n" "bitmap ?a" ?k] e(2) [of n] assms(4) inv(1) by auto
  let ?a' = "?a\<lparr>pa_lock := ?l, bitmap := bm,
    last_alloc := if ?k < last_alloc ?a then ?k else last_alloc ?a\<rparr>"
  have "free_pages p n s = Inr (0, s\<lparr>g_allocator := ?a'\<rparr>)"
    using assms(2,3) le bm(1) inv(2)
    by (auto simp: free_pages_def Let_def lock_allocator_def unlock_allocator_def run lock_unlock_eq)
  moreover have "free_set ?a' = free_set ?a \<union> {page_pos ?a p..<(page_pos ?a p + unat n) mod 2 ^ 64}"
    using bm(3) inv(1) e(1) e(2) [of n] assms(4) by (auto simp: free_set_def split: if_splits)
  moreover have "pa_inv ?a'"
    using assms(1) bm(2) by (auto simp: pa_inv_def)
  ultimately show ?thesis by (intro that [of ?a']) simp_all
qed

text \<open>A count for which the sum wraps around frees nothing: the loop ends before it starts.\<close>

lemma wrapped_range:
  fixes n :: u64
  assumes pos: "\<not> phy_to_pfn p < base_pfn a"
  shows "{page_pos a p..<(page_pos a p + unat n) mod 2 ^ 64} =
   (if page_pos a p + unat n < 2 ^ 64 then {page_pos a p..<page_pos a p + unat n} else {})"
proof -
  have "(page_pos a p + unat n) mod 2 ^ 64 \<le> page_pos a p" if "\<not> page_pos a p + unat n < 2 ^ 64"
  proof -
    have "page_pos a p + unat n < 2 * 2 ^ 64"
      using page_end(3) [OF pos] unsigned_less [of n, where 'a = nat] by simp
    then have "(page_pos a p + unat n) mod 2 ^ 64 = page_pos a p + unat n - 2 ^ 64"
      using that by (simp add: le_mod_geq)
    then show ?thesis using unsigned_less [of n, where 'a = nat] by simp
  qed
  then show ?thesis by auto
qed

lemma free_pages_run:
  assumes "pa_inv (g_allocator s)" and "0 < n" and "k + unat n \<le> unat (total_pages (g_allocator s))"
  shows "\<exists>a'. free_pages (page_addr (g_allocator s) k) n s = Inr (0, s\<lparr>g_allocator := a'\<rparr>) \<and>
    free_spec (g_allocator s) k (unat n) a'"
proof -
  let ?a = "g_allocator s"
  have n: "n \<noteq> 0" "0 < unat n" using assms(2) by (auto simp: word_less_nat_alt)
  have inv: "unat (base_pfn ?a) + unat (total_pages ?a) < 2 ^ 52" using assms(1) by (simp add: pa_inv_def)
  have "unat (base_pfn ?a + of_nat k) = unat (base_pfn ?a) + k"
    using assms(3) n(2) inv by (simp add: unat_word_ariths unat_of_nat)
  then have pos: "page_pos ?a (page_addr ?a k) = k" "\<not> phy_to_pfn (page_addr ?a k) < base_pfn ?a"
    using phy_to_pfn_page_addr [OF assms(1), of k] assms(3) n(2)
    by (simp_all add: page_pos_def word_less_nat_alt)
  have "(k + unat n) mod 2 ^ 64 = k + unat n" using assms(3) inv by simp
  with pos show ?thesis
    using free_pages_accepts [OF assms(1) pos(2) n(1)] assms(3) unfolding free_spec_def by metis
qed

text \<open>
  Initialisation. The size that is given to \<open>memset\<close> is a number of 64-bit integers where it should
  be a number of bytes, so that an eighth of the bitmap is cleared.
\<close>

lemma memset_longs_bit:
  assumes "k < 64 * length xs"
  shows "bm_bit (memset_longs xs n) k \<longleftrightarrow> 8 * n \<le> k \<and> bm_bit xs k"
proof -
  let ?q = "k div 64" and ?r = "k mod 64"
  have q: "?q < length xs" and k: "k = 64 * ?q + ?r" "?r < 64" using assms by (simp_all add: in_bitmap_iff)
  consider "8 * ?q + 8 \<le> n" | "n \<le> 8 * ?q" | "8 * ?q < n" "n < 8 * ?q + 8" by linarith
  then show ?thesis
  proof cases
    case 1
    then have "\<not> 8 * n \<le> k" using k by linarith
    with 1 q show ?thesis by (simp add: bm_bit_def memset_longs_def)
  next
    case 2
    then have "8 * n \<le> k" using k(1) by linarith
    with 2 q show ?thesis by (simp add: bm_bit_def memset_longs_def)
  next
    case 3
    then have "?r < 8 * (n - 8 * ?q) \<longleftrightarrow> \<not> 8 * n \<le> k" using k by linarith
    with 3 q k(2) show ?thesis by (auto simp: bm_bit_def memset_longs_def bit_simps)
  qed
qed

definition cleared :: "u64 \<Rightarrow> nat" where
  "cleared n = 8 * ((unat n + 63) div 64)"

lemma page_allocator_init_run:
  assumes "0 < n" and "unat n \<le> 64 * length bm"
    and "0 < phy_to_pfn p" and "unat (phy_to_pfn p) + unat n < 2 ^ 52"
  shows "\<exists>a'. page_allocator_init (Some bm) n p s = Inr (0, s\<lparr>g_allocator := a'\<rparr>) \<and>
    pa_inv a' \<and> total_pages a' = n \<and> base_pfn a' = phy_to_pfn p \<and>
    free_set a' = {k. k < unat n \<and> (k < cleared n \<or> \<not> bm_bit bm k)}"
proof -
  have "unat (n + BIT_PER_LONG - 1) = unat n + 63"
    using assms(4) by (simp add: BIT_PER_LONG_def unat_word_ariths)
  then have k: "unat ((n + BIT_PER_LONG - 1) div BIT_PER_LONG) = (unat n + 63) div 64"
    by (simp add: unat_div_distrib) (simp add: BIT_PER_LONG_def)
  let ?k = "(unat n + 63) div 64"
  let ?a = "\<lparr>pa_lock = spinlock_init, bitmap = memset_longs bm ?k, total_pages = n, base_pfn = phy_to_pfn p,
    last_alloc = 0\<rparr>"
  have l: "length (memset_longs bm ?k) = length bm" by (simp add: memset_longs_def)
  have "?k \<le> 8 * length bm" using assms(2) by linarith
  then have "page_allocator_init (Some bm) n p s = Inr (0, s\<lparr>g_allocator := ?a\<rparr>)"
    using assms(1) k by (simp add: page_allocator_init_def run Let_def word_gt_0)
  moreover have "pa_inv ?a"
    using assms l by (simp add: pa_inv_def spin_free_def spinlock_init_def)
  moreover have "free_set ?a = {k. k < unat n \<and> (k < cleared n \<or> \<not> bm_bit bm k)}"
    using assms(2) memset_longs_bit [of _ bm ?k] by (auto simp: free_set_def cleared_def)
  ultimately show ?thesis by (intro exI [of _ ?a]) simp
qed

text \<open>
  The search for several pages. When the last page is in use the first loop ends with an empty
  run, so that the second one starts afresh; \<open>has_run\<close> is what the two loops look for.
\<close>

definition has_run :: "page_allocator \<Rightarrow> nat \<Rightarrow> nat \<Rightarrow> nat \<Rightarrow> bool" where
  "has_run a n lo hi \<longleftrightarrow> (\<exists>r. lo \<le> r \<and> r + n \<le> hi \<and> {r..<r + n} \<subseteq> free_set a)"

lemma find_run_range:
  assumes "pa_inv a" and "0 < n" and "hi \<le> total_pages a" and "i \<le> hi"
  shows "(\<exists>p q. find_run (bitmap a) n hi i start 0 = Inr (Some p, q) \<and>
       unat p + unat n \<le> unat hi \<and> {unat p..<unat p + unat n} \<subseteq> free_set a) \<or>
    (\<exists>p c. find_run (bitmap a) n hi i start 0 = Inr (None, p, c) \<and> run_at (bitmap a) hi p c \<and>
       \<not> has_run a (unat n) (unat i) (unat hi))"
proof -
  have b: "unat hi \<le> 64 * length (bitmap a)" "unat i \<le> unat hi" "unat hi \<le> unat (total_pages a)"
    using assms by (auto simp: pa_inv_def word_le_nat_alt)
  have ra: "run_at (bitmap a) i start 0" by (simp add: run_at_def)
  from find_run_not_found [OF b(1,2) ra assms(2)] show ?thesis
  proof (elim disjE exE conjE)
    fix p q
    assume found: "find_run (bitmap a) n hi i start 0 = Inr (Some p, q)"
    from find_run_found [OF b(1) ra assms(2) found] found b(3) show ?thesis
      by (auto simp: free_set_def)
  next
    fix p c
    assume "find_run (bitmap a) n hi i start 0 = Inr (None, p, c)" "run_at (bitmap a) hi p c"
      and none: "\<forall>r. unat i \<le> r + unat (0 :: u64) \<and> r + unat n \<le> unat hi \<longrightarrow>
        (\<exists>k\<ge>r. k < r + unat n \<and> bm_bit (bitmap a) k)"
    moreover have "\<not> has_run a (unat n) (unat i) (unat hi)"
      using none by (fastforce simp: has_run_def free_set_def)
    ultimately show ?thesis by blast
  qed
qed

lemma find_free_range_run:
  assumes "pa_inv a" and "0 < n" and last: "unat (total_pages a) - 1 \<notin> free_set a"
  shows "\<exists>r. find_free_range a n = Inr r \<and>
    (r = -1 \<and> \<not> has_run a (unat n) (unat (last_alloc a)) (unat (total_pages a)) \<and>
       \<not> has_run a (unat n) 0 (unat (last_alloc a)) \<or>
     unat r + unat n \<le> unat (total_pages a) \<and> {unat r..<unat r + unat n} \<subseteq> free_set a)"
proof -
  have l: "last_alloc a \<le> total_pages a" "0 < unat (total_pages a)"
    using assms(1) by (auto simp: pa_inv_def word_less_nat_alt)
  from find_run_range [OF assms(1,2) order_refl l(1), of 0] show ?thesis
  proof (elim disjE exE conjE)
    fix p q
    assume "find_run (bitmap a) n (total_pages a) (last_alloc a) 0 0 = Inr (Some p, q)"
      "unat p + unat n \<le> unat (total_pages a)" "{unat p..<unat p + unat n} \<subseteq> free_set a"
    then show ?thesis by (auto simp: find_free_range_def)
  next
    fix p c
    assume first: "find_run (bitmap a) n (total_pages a) (last_alloc a) 0 0 = Inr (None, p, c)"
      and ra: "run_at (bitmap a) (total_pages a) p c"
      and high: "\<not> has_run a (unat n) (unat (last_alloc a)) (unat (total_pages a))"
    have "c = 0"
    proof (rule ccontr)
      assume "c \<noteq> 0"
      then have "0 < unat c" by (simp add: unat_gt_0)
      with ra \<open>c \<noteq> 0\<close> have "\<not> bm_bit (bitmap a) (unat (total_pages a) - 1)"
        by (auto simp: run_at_def)
      with last l(2) show False by (simp add: free_set_def)
    qed
    from find_run_range [OF assms(1,2) l(1) word_zero_le, of p] show ?thesis
    proof (elim disjE exE conjE)
      fix r q
      assume "find_run (bitmap a) n (last_alloc a) 0 p 0 = Inr (Some r, q)"
        "unat r + unat n \<le> unat (last_alloc a)" "{unat r..<unat r + unat n} \<subseteq> free_set a"
      with first \<open>c = 0\<close> l(1) show ?thesis by (auto simp: find_free_range_def word_le_nat_alt)
    next
      fix r d
      assume "find_run (bitmap a) n (last_alloc a) 0 p 0 = Inr (None, r, d)"
        "\<not> has_run a (unat n) (unat (0 :: u64)) (unat (last_alloc a))"
      with first high \<open>c = 0\<close> show ?thesis by (simp add: find_free_range_def)
    qed
  qed
qed

text \<open>
  When the first loop ends in a run of free pages that is too short, the second loop goes on with it
  at page 0 and completes it there.
\<close>

lemma find_free_range_wraps:
  assumes "pa_inv a" and "unat (last_alloc a) \<le> r" and "r < unat (total_pages a)"
    and tail: "{r..<unat (total_pages a)} \<subseteq> free_set a" "r = unat (last_alloc a) \<or> r - 1 \<notin> free_set a"
    and none: "\<not> has_run a (unat n) (unat (last_alloc a)) (unat (total_pages a))" and "0 < n"
    and head: "unat n - (unat (total_pages a) - r) \<le> unat (last_alloc a)"
      "{..<unat n - (unat (total_pages a) - r)} \<subseteq> free_set a"
  shows "find_free_range a n = Inr (of_nat r)"
proof -
  let ?N = "unat (total_pages a)" and ?h = "unat (last_alloc a)"
  have b: "?N \<le> 64 * length (bitmap a)" "last_alloc a \<le> total_pages a" "?h \<le> ?N" "?N < 2 ^ 52"
    using assms(1) by (auto simp: pa_inv_def word_le_nat_alt)
  have ti: "tight (bitmap a) ?h (last_alloc a) 0" by (simp add: tight_def)
  have "?h \<le> unat p" if "find_run (bitmap a) n (total_pages a) (last_alloc a) 0 0 = Inr (Some p, q)" for p q
    using find_run_lower [OF order_refl _ that] by simp
  with find_run_range [OF assms(1,7) order_refl b(2), of 0] none obtain p c where
    first: "find_run (bitmap a) n (total_pages a) (last_alloc a) 0 0 = Inr (None, p, c)"
      and run: "run_at (bitmap a) (total_pages a) p c"
    unfolding has_run_def by meson
  have tgt: "tight (bitmap a) ?h (total_pages a) c"
    using find_run_tight [OF b(1,2) ti assms(7) first] .
  have used: "bm_bit (bitmap a) k \<longleftrightarrow> k \<notin> free_set a" if "k < ?N" for k
    using that by (simp add: free_set_def)
  have c: "unat c = ?N - r"
  proof (rule ccontr)
    assume "unat c \<noteq> ?N - r"
    then consider "unat c < ?N - r" | "?N - r < unat c" by linarith
    then show False
    proof cases
      case 1
      then have "?N - unat c - 1 \<in> {r..<?N}" using assms(3) by simp
      with tail(1) have "?N - unat c - 1 \<in> free_set a" by blast
      with 1 tgt assms(2) used [of "?N - unat c - 1"] show False by (auto simp: tight_def)
    next
      case 2
      then have "c \<noteq> 0" by auto
      with run have p: "unat p + unat c = ?N" "\<And>k. unat p \<le> k \<Longrightarrow> k < ?N \<Longrightarrow> \<not> bm_bit (bitmap a) k"
        by (auto simp: run_at_def)
      with 2 tgt assms(3) tail(2) used [of "r - 1"] show False by (auto simp: tight_def)
    qed
  qed
  with assms(3) have "c \<noteq> 0" by auto
  with run c assms(3) have "unat p = r" by (auto simp: run_at_def)
  then have p: "p = of_nat r" by auto
  have "unat c < unat n"
  proof (rule ccontr)
    assume "\<not> unat c < unat n"
    then have "r + unat n \<le> ?N" using assms(3) c by linarith
    then have "has_run a (unat n) ?h ?N"
      using tail(1) assms(2) unfolding has_run_def by (intro exI [of _ r]) auto
    with none show False ..
  qed
  then have cn: "c < n" by (simp add: word_less_nat_alt)
  have "\<exists>q. find_run (bitmap a) n (last_alloc a) 0 p c = Inr (Some (if c = 0 then 0 else p), q)"
    by (rule find_run_prefix [OF _ cn]) (use b head c used in auto)
  with first \<open>c \<noteq> 0\<close> p show ?thesis by (auto simp: find_free_range_def)
qed

section \<open>The page provider\<close>

text \<open>Calls that are made a number of times, with their results.\<close>

primrec mtimes :: "nat \<Rightarrow> ('s, 'a) comp \<Rightarrow> ('s, 'a list) comp" where
  "mtimes 0 m = mret []"
| "mtimes (Suc n) m = mbind m (\<lambda>x. mbind (mtimes n m) (\<lambda>xs. mret (x # xs)))"

text \<open>
  What the rest of the hypervisor may rely on: the pages that are available, those that are
  managed, and the effect of \<open>alloc\<close> and \<open>release\<close> on them.
\<close>

locale page_provider =
  fixes alloc :: "('s, u64) comp" and release :: "u64 \<Rightarrow> ('s, int) comp"
    and inv :: "'s \<Rightarrow> bool" and avail :: "'s \<Rightarrow> u64 set" and managed :: "'s \<Rightarrow> u64 set"
  assumes avail_finite: "finite (avail s)"
    and alloc_some: "inv s \<Longrightarrow> avail s \<noteq> {} \<Longrightarrow> wp alloc (\<lambda>r s'. inv s' \<and> r \<in> avail s \<and>
          avail s' = avail s - {r} \<and> managed s' = managed s) s"
    and alloc_none: "inv s \<Longrightarrow> avail s = {} \<Longrightarrow>
          wp alloc (\<lambda>r s'. inv s' \<and> r = -1 \<and> avail s' = {} \<and> managed s' = managed s) s"
    and release_managed: "inv s \<Longrightarrow> r \<in> managed s \<Longrightarrow> wp (release r) (\<lambda>x s'. inv s' \<and> x = 0 \<and>
          avail s' = insert r (avail s) \<and> managed s' = managed s) s"
    and avail_managed: "inv s \<Longrightarrow> avail s \<subseteq> managed s"
begin

lemma allocs_distinct:
  "inv s \<Longrightarrow> n \<le> card (avail s) \<Longrightarrow>
   wp (mtimes n alloc) (\<lambda>rs s'. length rs = n \<and> distinct rs \<and> set rs \<subseteq> avail s \<and>
     avail s' = avail s - set rs \<and> inv s' \<and> managed s' = managed s) s"
proof (induction n arbitrary: s)
  case 0
  then show ?case by (simp add: wps)
next
  case (Suc n)
  have "avail s \<noteq> {}" using Suc.prems(2) by auto
  from alloc_some [OF Suc.prems(1) this] show ?case
    unfolding mtimes.simps wps
  proof (rule wp_mono)
    fix r t
    assume r: "inv t \<and> r \<in> avail s \<and> avail t = avail s - {r} \<and> managed t = managed s"
    then have "n \<le> card (avail t)" using Suc.prems(2) avail_finite [of s] by simp
    with r show "wp (mtimes n alloc) (\<lambda>xs s'. length (r # xs) = Suc n \<and> distinct (r # xs) \<and>
        set (r # xs) \<subseteq> avail s \<and> avail s' = avail s - set (r # xs) \<and> inv s' \<and>
        managed s' = managed s) t"
      by (intro wp_mono [OF Suc.IH [of t]]) auto
  qed
qed

lemma alloc_release:
  assumes "inv s" and "avail s \<noteq> {}"
  shows "wp (mbind alloc release) (\<lambda>x s'. x = 0 \<and> inv s' \<and> avail s' = avail s \<and> managed s' = managed s) s"
  unfolding wps
proof (rule wp_mono [OF alloc_some [OF assms]])
  fix r t
  assume r: "inv t \<and> r \<in> avail s \<and> avail t = avail s - {r} \<and> managed t = managed s"
  then have "r \<in> managed t" using avail_managed [OF assms(1)] by auto
  with r show "wp (release r) (\<lambda>x s'. x = 0 \<and> inv s' \<and> avail s' = avail s \<and> managed s' = managed s) t"
    by (intro wp_mono [OF release_managed]) auto
qed

end

definition free_addrs :: "'a palloc_scheme \<Rightarrow> u64 set" where
  "free_addrs s = page_addr (g_allocator s) ` free_set (g_allocator s)"

definition page_addrs :: "'a palloc_scheme \<Rightarrow> u64 set" where
  "page_addrs s = page_addr (g_allocator s) ` {..<unat (total_pages (g_allocator s))}"

lemma page_addr_cong: "base_pfn a = base_pfn b \<Longrightarrow> page_addr a = page_addr b"
  by (rule ext) (simp add: page_addr_def)

lemma free_addrs_remove:
  assumes "pa_inv a" and "k \<in> free_set a"
  shows "page_addr a ` (free_set a - {k}) = page_addr a ` free_set a - {page_addr a k}"
  using assms page_addr_inj [OF assms(1)] by (auto simp: free_set_def)

lemma alloc_page_addrs:
  assumes "pa_inv (g_allocator s)"
  obtains r a' where "alloc_page s = Inr (r, s\<lparr>g_allocator := a'\<rparr>)" and "pa_inv a'"
    and "page_addrs (s\<lparr>g_allocator := a'\<rparr>) = page_addrs s"
    and "base_pfn a' = base_pfn (g_allocator s)" and "total_pages a' = total_pages (g_allocator s)"
    and "free_addrs s = {} \<Longrightarrow> r = -1 \<and> free_addrs (s\<lparr>g_allocator := a'\<rparr>) = {}"
    and "free_addrs s \<noteq> {} \<Longrightarrow> r \<in> free_addrs s \<and> free_addrs (s\<lparr>g_allocator := a'\<rparr>) = free_addrs s - {r}"
proof -
  obtain r a' where a: "alloc_page s = Inr (r, s\<lparr>g_allocator := a'\<rparr>)" "alloc_spec (g_allocator s) r a'"
    using alloc_page_run [OF assms] by blast
  have eq: "page_addr a' = page_addr (g_allocator s)"
    using a(2) by (intro page_addr_cong) (simp add: alloc_spec_def)
  have "r \<in> free_addrs s \<and> free_addrs (s\<lparr>g_allocator := a'\<rparr>) = free_addrs s - {r}" if "free_addrs s \<noteq> {}"
  proof -
    have "free_set (g_allocator s) \<noteq> {}" using that by (simp add: free_addrs_def)
    then obtain k where k: "k \<in> free_set (g_allocator s)" "r = page_addr (g_allocator s) k"
      "free_set a' = free_set (g_allocator s) - {k}"
      using a(2) by (auto simp: alloc_spec_def)
    then show ?thesis using eq by (simp add: free_addrs_def free_addrs_remove [OF assms])
  qed
  moreover have "r = -1 \<and> free_addrs (s\<lparr>g_allocator := a'\<rparr>) = {}" if "free_addrs s = {}"
    using that a(2) by (simp add: alloc_spec_def free_addrs_def)
  moreover have "pa_inv a'" "page_addrs (s\<lparr>g_allocator := a'\<rparr>) = page_addrs s"
    "base_pfn a' = base_pfn (g_allocator s)" "total_pages a' = total_pages (g_allocator s)"
    using a(2) eq by (simp_all add: alloc_spec_def page_addrs_def)
  ultimately show ?thesis using that a(1) by blast
qed

lemma free_page_addrs:
  assumes "pa_inv (g_allocator s)" and "r \<in> page_addrs s"
  obtains a' where "free_page r s = Inr (0, s\<lparr>g_allocator := a'\<rparr>)" and "pa_inv a'"
    and "page_addrs (s\<lparr>g_allocator := a'\<rparr>) = page_addrs s"
    and "base_pfn a' = base_pfn (g_allocator s)" and "total_pages a' = total_pages (g_allocator s)"
    and "free_addrs (s\<lparr>g_allocator := a'\<rparr>) = insert r (free_addrs s)"
proof -
  obtain k where k: "r = page_addr (g_allocator s) k" "k < unat (total_pages (g_allocator s))"
    using assms(2) by (auto simp: page_addrs_def)
  obtain b where b: "free_page r s = Inr (0, s\<lparr>g_allocator := b\<rparr>)" "free_spec (g_allocator s) k 1 b"
    using free_pages_run [OF assms(1), of 1 k] k by (auto simp: free_page_def)
  have eq: "page_addr b = page_addr (g_allocator s)"
    using b(2) by (intro page_addr_cong) (simp add: free_spec_def)
  have "free_addrs (s\<lparr>g_allocator := b\<rparr>) = insert r (free_addrs s)"
    using b(2) k eq by (simp add: free_spec_def free_addrs_def)
  moreover have "pa_inv b" "page_addrs (s\<lparr>g_allocator := b\<rparr>) = page_addrs s"
    "base_pfn b = base_pfn (g_allocator s)" "total_pages b = total_pages (g_allocator s)"
    using b(2) eq by (simp_all add: free_spec_def page_addrs_def)
  ultimately show ?thesis using that b(1) by blast
qed

interpretation pages: page_provider "alloc_page :: ('a palloc_scheme, u64) comp" free_page
  "\<lambda>s. pa_inv (g_allocator s)" free_addrs page_addrs
proof
  fix s :: "'a palloc_scheme" and r :: u64
  show "finite (free_addrs s)" by (simp add: free_addrs_def)
  assume inv: "pa_inv (g_allocator s)"
  show "free_addrs s \<subseteq> page_addrs s" by (auto simp: free_addrs_def page_addrs_def free_set_def)
  show "wp alloc_page (\<lambda>r s'. pa_inv (g_allocator s') \<and> r \<in> free_addrs s \<and>
      free_addrs s' = free_addrs s - {r} \<and> page_addrs s' = page_addrs s) s" if "free_addrs s \<noteq> {}"
    by (rule alloc_page_addrs [OF inv]) (use that in \<open>simp add: wp_def\<close>)
  show "wp alloc_page (\<lambda>r s'. pa_inv (g_allocator s') \<and> r = -1 \<and>
      free_addrs s' = {} \<and> page_addrs s' = page_addrs s) s" if "free_addrs s = {}"
    by (rule alloc_page_addrs [OF inv]) (use that in \<open>simp add: wp_def\<close>)
  show "wp (free_page r) (\<lambda>x s'. pa_inv (g_allocator s') \<and> x = 0 \<and>
      free_addrs s' = insert r (free_addrs s) \<and> page_addrs s' = page_addrs s) s" if "r \<in> page_addrs s"
    by (rule free_page_addrs [OF inv that]) (simp add: wp_def)
qed

interpretation allocator_lock: lock_part "\<lambda>s :: 'a palloc_scheme. pa_lock (g_allocator s)" put_pa_lock
  by unfold_locales (simp_all add: palloc.equality page_allocator.equality)

section \<open>Properties\<close>

text \<open>An allocator on which the witnesses run.\<close>

definition palloc0 :: "u64 list \<Rightarrow> u64 \<Rightarrow> u64 \<Rightarrow> palloc" where
  "palloc0 bm n hint = machine.extend machine0
     \<lparr>g_allocator = \<lparr>pa_lock = spinlock_init, bitmap = bm, total_pages = n, base_pfn = 0x40000,
        last_alloc = hint\<rparr>\<rparr>"

lemma pa_inv_palloc0:
  "0 < n \<Longrightarrow> unat n \<le> 64 * length bm \<Longrightarrow> hint \<le> n \<Longrightarrow> unat n < 2 ^ 51 \<Longrightarrow>
   pa_inv (g_allocator (palloc0 bm n hint))"
  by (simp add: pa_inv_def palloc0_def machine.defs spinlock_init_def spin_free_def)

text \<open>
  C2. \<open>alloc_pages\<close>, called with a valid number of pages while the last page is in use: it
  returns; either it returns -1, changes no page, and there is no run of that many free pages on
  either side of the search hint; or it returns the address of a run of pages that were all free,
  and exactly these become used. The allocator invariant is kept and no other state changes.
\<close>

theorem alloc_pages_correct:
  assumes "pa_inv (g_allocator s)" and "0 < n" and "n \<le> total_pages (g_allocator s)"
    and "unat (total_pages (g_allocator s)) - 1 \<notin> free_set (g_allocator s)"
  shows "\<exists>r a'. alloc_pages n s = Inr (r, s\<lparr>g_allocator := a'\<rparr>) \<and> pa_inv a' \<and>
    base_pfn a' = base_pfn (g_allocator s) \<and> total_pages a' = total_pages (g_allocator s) \<and>
    (r = -1 \<and> free_set a' = free_set (g_allocator s) \<and>
       \<not> has_run (g_allocator s) (unat n) (unat (last_alloc (g_allocator s)))
          (unat (total_pages (g_allocator s))) \<and>
       \<not> has_run (g_allocator s) (unat n) 0 (unat (last_alloc (g_allocator s))) \<or>
     (\<exists>k. {k..<k + unat n} \<subseteq> free_set (g_allocator s) \<and> r = page_addr (g_allocator s) k \<and>
       free_set a' = free_set (g_allocator s) - {k..<k + unat n}))"
proof -
  obtain r where r: "find_free_range (g_allocator s) n = Inr r"
    and "r = -1 \<and> \<not> has_run (g_allocator s) (unat n) (unat (last_alloc (g_allocator s)))
          (unat (total_pages (g_allocator s))) \<and>
        \<not> has_run (g_allocator s) (unat n) 0 (unat (last_alloc (g_allocator s))) \<or>
      unat r + unat n \<le> unat (total_pages (g_allocator s)) \<and>
        {unat r..<unat r + unat n} \<subseteq> free_set (g_allocator s)"
    using find_free_range_run [OF assms(1,2,4)] by blast
  then consider "r = -1" "\<not> has_run (g_allocator s) (unat n) (unat (last_alloc (g_allocator s)))
          (unat (total_pages (g_allocator s)))"
        "\<not> has_run (g_allocator s) (unat n) 0 (unat (last_alloc (g_allocator s)))"
    | "unat r + unat n \<le> unat (total_pages (g_allocator s))"
        "{unat r..<unat r + unat n} \<subseteq> free_set (g_allocator s)"
    by blast
  then show ?thesis
  proof cases
    case 1
    then show ?thesis using alloc_pages_none [OF assms(1-3)] r assms(1) by auto
  next
    case 2
    then show ?thesis using alloc_pages_commit [OF assms(1,2) r] by blast
  qed
qed

theorem alloc_pages_correct_witness:
  "\<exists>r a'. alloc_pages 2 (palloc0 [0x1a] 5 3) = Inr (r, (palloc0 [0x1a] 5 3)\<lparr>g_allocator := a'\<rparr>) \<and> pa_inv a'"
proof -
  have "pa_inv (g_allocator (palloc0 [0x1a] 5 3))" by (rule pa_inv_palloc0) simp_all
  moreover have "(0 :: u64) < 2" "2 \<le> total_pages (g_allocator (palloc0 [0x1a] 5 3))" by code_simp+
  moreover have "unat (total_pages (g_allocator (palloc0 [0x1a] 5 3))) - 1 \<notin>
      free_set (g_allocator (palloc0 [0x1a] 5 3))"
    by code_simp
  ultimately show ?thesis using alloc_pages_correct [of "palloc0 [0x1a] 5 3" 2] by blast
qed


text \<open>
  The calls that lead there from six free pages: three pages are taken, the first is given back, and
  two are taken, which puts the hint at the last page.
\<close>

definition wrap_calls :: "('a palloc_scheme, u64) comp" where
  "wrap_calls = mthen (mtimes 3 alloc_page) (mthen (free_page 0x40000000) (alloc_pages 2))"


text \<open>
  C10. Repeated calls of \<open>alloc_page\<close>: as long as pages are free, each call returns one, no page
  is returned twice, every page returned was free and is no longer, and no other page is lost.
  A call made when no page is free returns -1 and changes no page.
\<close>

theorem alloc_page_repeated:
  assumes "pa_inv (g_allocator s)" and "n \<le> card (free_addrs s)"
  shows "wp (mtimes n alloc_page) (\<lambda>rs s'. length rs = n \<and> distinct rs \<and> set rs \<subseteq> free_addrs s \<and>
     free_addrs s' = free_addrs s - set rs \<and> pa_inv (g_allocator s') \<and>
     (free_addrs s' = {} \<longrightarrow> wp alloc_page (\<lambda>r s''. r = -1 \<and> free_addrs s'' = {}) s')) s"
  using assms(2)
  by (intro wp_mono [OF pages.allocs_distinct [OF assms]])
    (auto intro: wp_mono [OF pages.alloc_none])

theorem alloc_page_repeated_witness:
  "wp (mtimes 3 alloc_page) (\<lambda>rs s'. length rs = 3 \<and> distinct rs \<and>
     free_addrs s' = free_addrs (palloc0 [0x12] 6 2) - set rs) (palloc0 [0x12] 6 2)"
proof -
  have inv: "pa_inv (g_allocator (palloc0 [0x12] 6 2))" by (rule pa_inv_palloc0) simp_all
  have "3 \<le> card (free_addrs (palloc0 [0x12] 6 2))" by code_simp
  from wp_mono [OF alloc_page_repeated [OF inv this]] show ?thesis by simp
qed

text \<open>
  C11. \<open>free_pages\<close> on every branch. Let \<open>k\<close> be the distance of the page from the first managed page.
  An address below the managed range, a count of zero, or a range whose end, computed with 64 bits,
  lies past the last page is refused with -1 and changes nothing. Otherwise the call returns 0,
  keeps the invariant and the managed range, and the pages of the range become free, no other page
  changing; a count so large that the end wraps around is accepted and frees nothing. Hence a
  page that \<open>alloc_page\<close> returns and \<open>free_page\<close> takes back restores the set of free pages.
\<close>

theorem free_pages_correct:
  assumes "pa_inv (g_allocator s)"
  shows "(let a = g_allocator s; k = unat (phy_to_pfn p) - unat (base_pfn a) in
      if phy_to_pfn p < base_pfn a \<or> n = 0 \<or> unat (total_pages a) < (k + unat n) mod 2 ^ 64
      then free_pages p n s = Inr (-1, s)
      else \<exists>a'. free_pages p n s = Inr (0, s\<lparr>g_allocator := a'\<rparr>) \<and> pa_inv a' \<and>
        base_pfn a' = base_pfn a \<and> total_pages a' = total_pages a \<and>
        free_set a' = free_set a \<union> (if k + unat n < 2 ^ 64 then {k..<k + unat n} else {})) \<and>
    (free_addrs s \<noteq> {} \<longrightarrow>
      wp (mbind alloc_page free_page) (\<lambda>r s'. r = 0 \<and> free_addrs s' = free_addrs s) s)"
proof -
  let ?a = "g_allocator s"
  have 1: "free_addrs s \<noteq> {} \<longrightarrow>
      wp (mbind alloc_page free_page) (\<lambda>r s'. r = 0 \<and> free_addrs s' = free_addrs s) s"
    by (auto intro: wp_mono [OF pages.alloc_release [OF assms]])
  show ?thesis
  proof (cases "phy_to_pfn p < base_pfn ?a \<or> n = 0 \<or>
      unat (total_pages ?a) < (page_pos ?a p + unat n) mod 2 ^ 64")
    case True
    then show ?thesis using free_pages_error [OF True] 1 by (simp add: Let_def page_pos_def)
  next
    case False
    then have c: "\<not> phy_to_pfn p < base_pfn ?a" "n \<noteq> 0"
      "(page_pos ?a p + unat n) mod 2 ^ 64 \<le> unat (total_pages ?a)"
      by (simp_all add: not_less)
    show ?thesis
      by (rule free_pages_accepts [OF assms c], unfold wrapped_range [OF c(1)])
        (use c 1 in \<open>auto simp: Let_def page_pos_def not_less\<close>)
  qed
qed

theorem free_pages_correct_witness:
  "free_pages 0x3ffff000 1 (palloc0 [7] 5 0) = Inr (-1, palloc0 [7] 5 0) \<and>
   (\<exists>a'. free_pages 0x40001000 2 (palloc0 [7] 5 0) =
      Inr (0, (palloc0 [7] 5 0)\<lparr>g_allocator := a'\<rparr>) \<and> free_set a' = {1, 2, 3, 4}) \<and>
   (\<exists>a'. free_pages 0x40001000 (-1) (palloc0 [7] 5 0) =
      Inr (0, (palloc0 [7] 5 0)\<lparr>g_allocator := a'\<rparr>) \<and> free_set a' = {3, 4}) \<and>
   wp (mbind alloc_page free_page) (\<lambda>r s'. r = 0) (palloc0 [7] 5 0)"
proof -
  let ?s = "palloc0 [7] 5 0"
  have inv: "pa_inv (g_allocator ?s)" by (rule pa_inv_palloc0) simp_all
  have f: "free_set (g_allocator ?s) = {3, 4}" by code_simp
  have b: "base_pfn (g_allocator ?s) = 0x40000" "total_pages (g_allocator ?s) = 5" by code_simp+
  have pfn: "phy_to_pfn 0x3ffff000 = 0x3ffff" "phy_to_pfn 0x40001000 = 0x40001" by code_simp+
  have avail: "free_addrs ?s \<noteq> {}" by code_simp
  have range: "insert 3 (insert 4 {Suc 0..<Suc (Suc (Suc 0))}) = {1, 2, 3, 4}" by code_simp
  have m: "unat (-1 :: u64) = 2 ^ 64 - 1" by (simp add: unsigned_minus_1_eq_mask mask_eq_exp_minus_1)
  have 1: "free_pages 0x3ffff000 1 ?s = Inr (-1, ?s)"
    using free_pages_correct [OF inv, where p = "0x3ffff000" and n = 1] by (simp add: Let_def pfn b)
  have 2: "\<exists>a'. free_pages 0x40001000 2 ?s = Inr (0, ?s\<lparr>g_allocator := a'\<rparr>) \<and> free_set a' = {1, 2, 3, 4}"
    using free_pages_correct [OF inv, where p = "0x40001000" and n = 2] range
    by (simp add: Let_def pfn b f avail) metis
  have 3: "\<exists>a'. free_pages 0x40001000 (-1) ?s = Inr (0, ?s\<lparr>g_allocator := a'\<rparr>) \<and> free_set a' = {3, 4}"
    using free_pages_correct [OF inv, where p = "0x40001000" and n = "-1"]
    unfolding Let_def pfn b f m by simp blast
  have "wp (mbind alloc_page free_page) (\<lambda>r s'. r = 0 \<and> free_addrs s' = free_addrs ?s) ?s"
    using free_pages_correct [OF inv] avail by blast
  from wp_mono [OF this] have "wp (mbind alloc_page free_page) (\<lambda>r s'. r = 0) ?s" by simp
  with 1 2 3 show ?thesis by blast
qed

text \<open>
  C36. \<open>page_allocator_init\<close> refuses a missing bitmap or a page count of zero; given a bitmap of
  zeros that is large enough, as the static array \<open>g_bitmap\<close> is at boot, it establishes the
  invariant with every page free.
\<close>

theorem page_allocator_init_correct:
  assumes "\<forall>x \<in> set bm. x = 0" and "unat n \<le> 64 * length bm"
    and "0 < phy_to_pfn p" and "unat (phy_to_pfn p) + unat n < 2 ^ 52"
  shows "(if n = 0 then page_allocator_init (Some bm) n p s = Inr (-1, s)
      else \<exists>a'. page_allocator_init (Some bm) n p s = Inr (0, s\<lparr>g_allocator := a'\<rparr>) \<and> pa_inv a' \<and>
        total_pages a' = n \<and> base_pfn a' = phy_to_pfn p \<and> free_set a' = {..<unat n}) \<and>
    page_allocator_init None n p s = Inr (-1, s)"
proof -
  have "\<not> bm_bit bm k" if "k < unat n" for k
    using that assms(1,2) by (simp add: bm_bit_def all_set_conv_all_nth in_bitmap_iff)
  then have "{k. k < unat n \<and> (k < cleared n \<or> \<not> bm_bit bm k)} = {..<unat n}" by auto
  with page_allocator_init_run [OF _ assms(2-4), of s] show ?thesis
    by (cases "n = 0") (simp_all add: page_allocator_init_def run word_gt_0)
qed

theorem page_allocator_init_correct_witness:
  "\<exists>a'. page_allocator_init (Some [0, 0]) 100 0x40000000 (palloc0 [] 0 0) =
      Inr (0, (palloc0 [] 0 0)\<lparr>g_allocator := a'\<rparr>) \<and> pa_inv a' \<and> free_set a' = {..<100}"
proof -
  have "\<forall>x \<in> set [0, 0 :: u64]. x = 0" "unat (100 :: u64) \<le> 64 * length [0, 0 :: u64]"
    "0 < phy_to_pfn 0x40000000" "unat (phy_to_pfn 0x40000000) + unat (100 :: u64) < 2 ^ 52"
    by (simp_all add: phy_to_pfn_def PAGE_SHIFT_def drop_bit_eq_div)
  from page_allocator_init_correct [OF this, of "palloc0 [] 0 0"] show ?thesis by auto
qed

text \<open>
  C40. \<open>page_allocator_init\<close> clears one byte of the bitmap for every 64 pages and not one 64-bit
  element. Whatever the bitmap held, it starts with the pages free whose number is below an eighth of
  the page count, rounded up to bytes, and those whose bit was clear already; every other page
  counts as used although nobody has allocated it.
\<close>

theorem page_allocator_init_clears_too_little:
  assumes "0 < n" and "unat n \<le> 64 * length bm"
    and "0 < phy_to_pfn p" and "unat (phy_to_pfn p) + unat n < 2 ^ 52"
  shows "\<exists>a'. page_allocator_init (Some bm) n p s = Inr (0, s\<lparr>g_allocator := a'\<rparr>) \<and> total_pages a' = n \<and>
    (\<forall>k < unat n. k \<in> free_set a' \<longleftrightarrow> k < 8 * ((unat n + 63) div 64) \<or> \<not> bm_bit bm k)"
  using page_allocator_init_run [OF assms, of s] unfolding cleared_def by (elim exE conjE) auto

theorem page_allocator_init_clears_too_little_witness:
  "\<exists>a'. page_allocator_init (Some [-1, -1]) 128 0x40000000 (palloc0 [] 0 0) =
      Inr (0, (palloc0 [] 0 0)\<lparr>g_allocator := a'\<rparr>) \<and> 15 \<in> free_set a' \<and> 16 \<notin> free_set a'"
proof -
  have a: "(0 :: u64) < 128" "unat (128 :: u64) \<le> 64 * length [-1, -1 :: u64]"
    "0 < phy_to_pfn 0x40000000" "unat (phy_to_pfn 0x40000000) + unat (128 :: u64) < 2 ^ 52"
    by (simp_all add: phy_to_pfn_def PAGE_SHIFT_def drop_bit_eq_div)
  have "bm_bit [-1, -1] 16" by (simp add: bm_bit_def)
  then show ?thesis
    using page_allocator_init_clears_too_little [OF a, of "palloc0 [] 0 0"] by auto
qed

end
