(* ===== verification/Mmu.thy ===== *)
theory Mmu
  imports Page_Alloc
begin

text \<open>
  Stage-2 translation tables: \<open>src/mmu.c\<close> and \<open>include/mmu.h\<close>. The tables live in the
  machine's memory and their pages come from the page allocator. \<open>tbl\<close> and \<open>leaf\<close> read a
  four-level table tree the way the walk does; \<open>pt_inv\<close> says that the trees of a set of roots
  share no table and use no free page, and under it \<open>pagemap\<close> is the update of one entry of the
  map from guest pages to descriptors.
\<close>

section \<open>Descriptors and attributes (\<open>include/mmu.h\<close>)\<close>

definition PIDX :: "nat \<Rightarrow> u64 \<Rightarrow> u64" where
  "PIDX level va = drop_bit (39 - level * 9) va AND 0x1ff"

definition PTE_PA :: "u64 \<Rightarrow> u64" where
  "PTE_PA pte = pte AND 0xfffffffff000"

definition PTE_VALID :: u64 where "PTE_VALID = 1"
definition PTE_TABLE :: u64 where "PTE_TABLE = 2"
definition PTE_V :: u64 where "PTE_V = 3"
definition PTE_AF :: u64 where "PTE_AF = 0x400"
definition S2PTE_AF :: u64 where "S2PTE_AF = 0x400"

definition S2PTE_S2AP :: "u64 \<Rightarrow> u64" where "S2PTE_S2AP ap = push_bit 6 (ap AND 3)"
definition S2PTE_RO :: u64 where "S2PTE_RO = S2PTE_S2AP 1"
definition S2PTE_WO :: u64 where "S2PTE_WO = S2PTE_S2AP 2"
definition S2PTE_RW :: u64 where "S2PTE_RW = S2PTE_S2AP 3"

definition AI_DEVICE_nGnRnE_IDX :: nat where "AI_DEVICE_nGnRnE_IDX = 0"
definition AI_NORMAL_NC_IDX :: nat where "AI_NORMAL_NC_IDX = 1"
definition AI_DEVICE_nGnRnE :: u64 where "AI_DEVICE_nGnRnE = 0"
definition AI_NORMAL_NC :: u64 where "AI_NORMAL_NC = 0x44"

definition S2PTE_ATTR :: "nat \<Rightarrow> u64" where "S2PTE_ATTR attr = push_bit 2 (of_nat attr AND 7)"
definition S2PTE_NORMAL :: u64 where "S2PTE_NORMAL = S2PTE_ATTR AI_NORMAL_NC_IDX"
definition S2PTE_DEVICE :: u64 where "S2PTE_DEVICE = S2PTE_ATTR AI_DEVICE_nGnRnE_IDX"

definition PAGE_SIZE :: u64 where "PAGE_SIZE = 4096"

definition VTCR_T0SZ :: "u64 \<Rightarrow> u64" where "VTCR_T0SZ n = n AND 0x3f"
definition VTCR_SL0 :: "u64 \<Rightarrow> u64" where "VTCR_SL0 n = push_bit 6 (n AND 3)"
definition VTCR_SH0 :: "u64 \<Rightarrow> u64" where "VTCR_SH0 n = push_bit 12 (n AND 3)"
definition VTCR_TG0 :: "u64 \<Rightarrow> u64" where "VTCR_TG0 n = push_bit 14 (n AND 3)"
definition VTCR_PS :: "u64 \<Rightarrow> u64" where "VTCR_PS n = push_bit 16 (n AND 7)"
definition VTCR_NSW :: u64 where "VTCR_NSW = push_bit 29 1"
definition VTCR_NSA :: u64 where "VTCR_NSA = push_bit 30 1"

section \<open>Operations (\<open>src/mmu.c\<close>)\<close>

definition pte_addr :: "u64 \<Rightarrow> nat \<Rightarrow> u64 \<Rightarrow> u64" where
  "pte_addr pgt level va = pgt + 8 * PIDX level va"

definition is_table :: "u64 \<Rightarrow> bool" where
  "is_table pte \<longleftrightarrow> pte AND PTE_VALID \<noteq> 0 \<and> pte AND PTE_TABLE \<noteq> 0"

text \<open>The loop of \<open>pagewalk\<close> over the given levels; None is its early return of NULL.\<close>

primrec walk_levels :: "nat list \<Rightarrow> u64 \<Rightarrow> u64 \<Rightarrow> bool \<Rightarrow> ('a palloc_scheme, u64 option) comp" where
  "walk_levels [] pgt va need_alloc = mret (Some pgt)"
| "walk_levels (level # levels) pgt va need_alloc =
     mbind (ld64 (pte_addr pgt level va)) (\<lambda>pte.
     if is_table pte then walk_levels levels (PTE_PA pte) va need_alloc
     else if need_alloc then
       mbind alloc_page (\<lambda>new.
       if new = 0 then mfail (Panic ''nomem'')
       else mthen (st64 (pte_addr pgt level va) (PTE_PA new OR PTE_TABLE OR PTE_VALID))
              (walk_levels levels new va need_alloc))
     else mret None)"

definition pagewalk :: "u64 \<Rightarrow> u64 \<Rightarrow> bool \<Rightarrow> ('a palloc_scheme, u64) comp" where
  "pagewalk pgt va need_alloc =
     mbind (walk_levels [0, 1, 2] pgt va need_alloc) (\<lambda>t.
     mret (case t of None \<Rightarrow> 0 | Some pgt \<Rightarrow> pte_addr pgt 3 va))"

definition pagemap1 :: "u64 \<Rightarrow> u64 \<Rightarrow> u64 \<Rightarrow> u64 \<Rightarrow> ('a palloc_scheme, unit) comp" where
  "pagemap1 pgt va pa attr =
     mbind (pagewalk pgt va True) (\<lambda>pte.
     mbind (ld64 pte) (\<lambda>v.
     if v AND PTE_AF \<noteq> 0 then mfail (Panic ''[pagemap]: this entry has been used'')
     else st64 pte (PTE_PA pa OR S2PTE_AF OR attr OR PTE_V)))"

text \<open>
  The loops run once for every page of \<open>sz\<close>, which is a multiple of the page size when they
  are reached, so that their counter does not wrap around.
\<close>

definition pagemap :: "u64 \<Rightarrow> u64 \<Rightarrow> u64 \<Rightarrow> u64 \<Rightarrow> u64 \<Rightarrow> ('a palloc_scheme, unit) comp" where
  "pagemap pgt va pa sz attr =
     (if va mod PAGE_SIZE \<noteq> 0 \<or> pa mod PAGE_SIZE \<noteq> 0 \<or> sz mod PAGE_SIZE \<noteq> 0
      then mfail (Panic ''invalid pagemap'')
      else mfor [0..<unat sz div 4096]
             (\<lambda>k. pagemap1 pgt (va + of_nat k * PAGE_SIZE) (pa + of_nat k * PAGE_SIZE) attr))"

definition pageunmap1 :: "u64 \<Rightarrow> u64 \<Rightarrow> ('a palloc_scheme, unit) comp" where
  "pageunmap1 pgt va =
     mbind (pagewalk pgt va False) (\<lambda>pte.
     mbind (ld64 pte) (\<lambda>v.
     if v = 0 then mfail (Panic ''unmapped'')
     else mthen (free_page (PTE_PA v)) (st64 pte 0)))"

definition pageunmap :: "u64 \<Rightarrow> u64 \<Rightarrow> u64 \<Rightarrow> ('a palloc_scheme, unit) comp" where
  "pageunmap pgt va sz =
     (if va mod PAGE_SIZE \<noteq> 0 \<or> sz mod PAGE_SIZE \<noteq> 0 then mfail (Panic ''invalid pageunmap'')
      else mfor [0..<unat sz div 4096] (\<lambda>k. pageunmap1 pgt (va + of_nat k * PAGE_SIZE)))"

definition ipa2pa :: "u64 \<Rightarrow> u64 \<Rightarrow> ('a palloc_scheme, u64) comp" where
  "ipa2pa pgt ipa =
     (if pgt = 0 then mret 0
      else mbind (pagewalk pgt ipa False) (\<lambda>pte.
        if pte = 0 then mret 0
        else mbind (ld64 pte) (\<lambda>v.
          mret (PTE_PA v + ucast (ucast (ipa AND (PAGE_SIZE - 1)) :: u32)))))"

definition stage2_mmu_init :: "('a machine_scheme, unit) comp" where
  "stage2_mmu_init =
     mbind (read_sysreg ''id_aa64mmfr0_el1'') (\<lambda>mmf.
     mthen (write_sysreg ''vtcr_el2''
              (VTCR_T0SZ 20 OR VTCR_SH0 0 OR VTCR_SL0 2 OR VTCR_TG0 0 OR VTCR_NSW OR VTCR_NSA OR VTCR_PS 4))
     (mthen (write_sysreg ''mair_el2''
              (push_bit (8 * AI_DEVICE_nGnRnE_IDX) AI_DEVICE_nGnRnE OR
               push_bit (8 * AI_NORMAL_NC_IDX) AI_NORMAL_NC))
      isb))"

section \<open>The table tree\<close>

primrec tbl :: "memory \<Rightarrow> u64 \<Rightarrow> u64 \<Rightarrow> nat \<Rightarrow> u64 option" where
  "tbl m pgt va 0 = Some pgt"
| "tbl m pgt va (Suc l) =
     (case tbl m pgt va l of
        None \<Rightarrow> None
      | Some t \<Rightarrow> let e = rd64 m (pte_addr t l va) in if is_table e then Some (PTE_PA e) else None)"

definition leaf :: "memory \<Rightarrow> u64 \<Rightarrow> u64 \<Rightarrow> u64" where
  "leaf m pgt va = (case tbl m pgt va 3 of None \<Rightarrow> 0 | Some t \<Rightarrow> rd64 m (pte_addr t 3 va))"

text \<open>The physical address of an address of the guest, 0 when a table is missing (\<open>ipa2pa\<close>).\<close>

definition gpa :: "memory \<Rightarrow> u64 \<Rightarrow> u64 \<Rightarrow> u64" where
  "gpa m root ipa = (if tbl m root ipa 3 = None then 0 else PTE_PA (leaf m root ipa) + (ipa AND 0xfff))"

lemma leaf_tbl: "leaf m pgt va \<noteq> 0 \<Longrightarrow> tbl m pgt va 3 \<noteq> None"
  by (auto simp: leaf_def split: option.splits)

text \<open>Two addresses whose walks use the same indices down to (and not including) a level.\<close>

definition same_pfx :: "nat \<Rightarrow> u64 \<Rightarrow> u64 \<Rightarrow> bool" where
  "same_pfx l va va' \<longleftrightarrow> (\<forall>j < l. PIDX j va = PIDX j va')"

definition tables :: "memory \<Rightarrow> u64 set \<Rightarrow> u64 set" where
  "tables m R = {t. \<exists>pgt \<in> R. \<exists>va l. l \<le> 3 \<and> tbl m pgt va l = Some t}"

definition page_ok :: "u64 \<Rightarrow> bool" where
  "page_ok t \<longleftrightarrow> t \<noteq> 0 \<and> PTE_PA t = t"

definition zero_page :: "memory \<Rightarrow> u64 \<Rightarrow> bool" where
  "zero_page m p \<longleftrightarrow> (\<forall>b \<in> span p 4096. m b = 0)"

definition no_sharing :: "memory \<Rightarrow> u64 set \<Rightarrow> bool" where
  "no_sharing m R \<longleftrightarrow>
     (\<forall>pgt \<in> R. \<forall>pgt' \<in> R. \<forall>va va' l l' t. l \<le> 3 \<longrightarrow> l' \<le> 3 \<longrightarrow>
        tbl m pgt va l = Some t \<longrightarrow> tbl m pgt' va' l' = Some t \<longrightarrow>
        pgt = pgt' \<and> l = l' \<and> same_pfx l va va')"

text \<open>
  The invariant of the page tables of the roots \<open>R\<close> (one root per guest): free pages are backed
  by memory, page frames have at most 48 address bits, the tables are backed pages that are not
  free, and no table is reached on two ways. \<open>clean\<close> says that free pages hold zeros.
\<close>

definition clean :: "'a palloc_scheme \<Rightarrow> bool" where
  "clean s \<longleftrightarrow> (\<forall>p \<in> free_addrs s. zero_page (mem s) p)"

definition pt_inv :: "u64 set \<Rightarrow> 'a palloc_scheme \<Rightarrow> bool" where
  "pt_inv R s \<longleftrightarrow> pa_inv (g_allocator s) \<and>
     unat (base_pfn (g_allocator s)) + unat (total_pages (g_allocator s)) < 2 ^ 36 \<and>
     (\<forall>p \<in> page_addrs s. all_backed s p 4096) \<and>
     (\<forall>t \<in> tables (mem s) R. t \<in> page_addrs s - free_addrs s) \<and>
     no_sharing (mem s) R"

section \<open>Addresses of entries\<close>

lemma span_nat: "unat a + n \<le> 2 ^ 64 \<Longrightarrow> b \<in> span a n \<longleftrightarrow> unat a \<le> unat b \<and> unat b < unat a + n"
  using unsigned_less [of b, where 'a = nat] by (auto simp: unat_sub_if')

lemma PIDX_less: "unat (PIDX l va) < 512"
proof -
  have "unat (PIDX l va) \<le> unat (0x1ff :: u64)"
    unfolding PIDX_def by (rule word_le_nat_alt [THEN iffD1]) (rule word_and_le1)
  then show ?thesis by simp
qed

lemma PTE_PA_mask: "PTE_PA p = p AND push_bit 12 (mask 36)"
  by (simp add: PTE_PA_def mask_eq_exp_minus_1 push_bit_eq_mult)

lemma PTE_PA_idem [simp]: "PTE_PA (PTE_PA p) = PTE_PA p"
  by (simp add: PTE_PA_def and.assoc)

lemma bit_PTE_PA: "bit (PTE_PA p) n \<longleftrightarrow> bit p n \<and> 12 \<le> n \<and> n < 48"
  by (auto simp: PTE_PA_mask bit_simps)

lemma PTE_PA_attr: "attr AND 0xfffffffff000 = 0 \<Longrightarrow> PTE_PA (PTE_PA p OR attr) = PTE_PA p"
  by (simp add: PTE_PA_def word_bw_assocs word_ao_dist)

lemma unat_page_ok:
  assumes "page_ok t"
  shows "unat t mod 4096 = 0" and "unat t + 4096 \<le> 2 ^ 48" and "0 < unat t"
proof -
  have t: "t = PTE_PA t" and nz: "t \<noteq> 0" using assms by (simp_all add: page_ok_def)
  have "t mod 4096 = take_bit 12 t" by (simp add: take_bit_eq_mod)
  also have "\<dots> = 0"
    by (rule bit_word_eqI) (subst t, auto simp: bit_take_bit_iff bit_PTE_PA)
  finally have "t mod 4096 = 0" .
  then have "unat (t mod 4096) = unat (0 :: u64)" by (rule arg_cong)
  then show m: "unat t mod 4096 = 0" by (simp add: unat_mod_distrib)
  have "t = t AND 0xfffffffff000" using t by (simp add: PTE_PA_def)
  then have "t \<le> 0xfffffffff000" by (metis word_and_le1)
  then have "unat t \<le> unat (0xfffffffff000 :: u64)" by (rule word_le_nat_alt [THEN iffD1])
  then show "unat t + 4096 \<le> 2 ^ 48" by simp
  show "0 < unat t" using nz by (simp add: unat_gt_0)
qed

lemma page_okI: "unat t mod 4096 = 0 \<Longrightarrow> unat t < 2 ^ 48 \<Longrightarrow> t \<noteq> 0 \<Longrightarrow> page_ok t"
proof -
  assume m: "unat t mod 4096 = 0" and l: "unat t < 2 ^ 48" and nz: "t \<noteq> 0"
  have "unat (take_bit 48 t) = unat t" using l by (simp add: unsigned_take_bit_eq take_bit_nat_eq_self)
  then have 48: "take_bit 48 t = t" by (rule unsigned_word_eqI)
  have "unat (take_bit 12 t) = 0" using m by (simp add: take_bit_eq_mod unat_mod_distrib)
  then have 12: "take_bit 12 t = 0" by (simp add: unat_eq_0)
  have "bit t n \<Longrightarrow> 12 \<le> n \<and> n < 48" for n
    using arg_cong [where f = "\<lambda>x. bit x n", OF 48] arg_cong [where f = "\<lambda>x. bit x n", OF 12]
    by (auto simp: bit_take_bit_iff)
  then have "PTE_PA t = t" by (intro bit_word_eqI) (auto simp: bit_PTE_PA)
  with nz show ?thesis by (simp add: page_ok_def)
qed

lemma page_span: "page_ok t \<Longrightarrow> b \<in> span t 4096 \<longleftrightarrow> unat t \<le> unat b \<and> unat b < unat t + 4096"
  using unat_page_ok by (intro span_nat) fastforce

lemma page_spans_disjoint:
  assumes "page_ok t" and "page_ok u" and "t \<noteq> u"
  shows "span t 4096 \<inter> span u 4096 = {}"
proof -
  have "unat t div 4096 = unat u div 4096" if "b \<in> span t 4096" "b \<in> span u 4096" for b
  proof -
    have "unat b div 4096 = unat t div 4096" "unat b div 4096 = unat u div 4096"
      using that page_span [OF assms(1)] page_span [OF assms(2)] unat_page_ok(1) [OF assms(1)]
        unat_page_ok(1) [OF assms(2)] by (auto elim!: dvdE simp: mod_eq_0_iff_dvd)
    then show ?thesis by simp
  qed
  moreover have "unat t div 4096 \<noteq> unat u div 4096"
    using assms unat_page_ok(1) [of t] unat_page_ok(1) [of u]
    by (metis mult_div_mod_eq add.right_neutral unsigned_word_eqI)
  ultimately show ?thesis by blast
qed

lemma unat_pte_addr:
  assumes "page_ok t"
  shows "unat (pte_addr t l va) = unat t + 8 * unat (PIDX l va)"
proof -
  have "unat (8 * PIDX l va) = 8 * unat (PIDX l va)"
    using PIDX_less [of l va] by (simp add: unat_word_ariths)
  then show ?thesis
    using PIDX_less [of l va] unat_page_ok(2) [OF assms] by (simp add: pte_addr_def unat_word_ariths)
qed

lemma pte_span: "page_ok t \<Longrightarrow>
  b \<in> span (pte_addr t l va) 8 \<longleftrightarrow>
    unat t + 8 * unat (PIDX l va) \<le> unat b \<and> unat b < unat t + 8 * unat (PIDX l va) + 8"
  using PIDX_less [of l va] unat_page_ok(2) [of t]
  by (subst span_nat) (simp_all add: unat_pte_addr)

lemma pte_in_page: "page_ok t \<Longrightarrow> span (pte_addr t l va) 8 \<subseteq> span t 4096"
  using PIDX_less [of l va] by (auto simp: page_span pte_span simp del: mem_span)

lemma pte_disjoint:
  assumes "page_ok t" and "page_ok u" and "t \<noteq> u \<or> PIDX l va \<noteq> PIDX j vb"
  shows "span (pte_addr t l va) 8 \<inter> span (pte_addr u j vb) 8 = {}"
proof (cases "t = u")
  case True
  then have "unat (PIDX l va) \<noteq> unat (PIDX j vb)"
    using assms(3) by (auto dest: unsigned_word_eqI)
  then show ?thesis using assms True by (auto simp: pte_span simp del: mem_span)
next
  case False
  then show ?thesis
    using page_spans_disjoint [OF assms(1,2)] pte_in_page [OF assms(1)] pte_in_page [OF assms(2)] by blast
qed

lemma rd_wr_pte:
  assumes "page_ok t" and "page_ok u"
  shows "rd64 (wr64 m (pte_addr t l va) e) (pte_addr u j vb) =
    (if u = t \<and> PIDX j vb = PIDX l va then e else rd64 m (pte_addr u j vb))"
proof (cases "u = t \<and> PIDX j vb = PIDX l va")
  case True
  then have "pte_addr u j vb = pte_addr t l va" by (simp add: pte_addr_def)
  with True show ?thesis by (simp add: rd_wr_le_same)
next
  case False
  then have "span (pte_addr u j vb) 8 \<inter> span (pte_addr t l va) 8 = {}"
    using assms by (intro pte_disjoint) auto
  then have "rd64 (wr64 m (pte_addr t l va) e) (pte_addr u j vb) = rd64 m (pte_addr u j vb)"
    by (rule rd_wr_le_other) simp_all
  with False show ?thesis by (simp only: if_False)
qed

lemma rd_zero_page:
  assumes "page_ok p" and "zero_page m p"
  shows "rd64 m (pte_addr p l va) = 0"
proof -
  have "m b = 0" if "b \<in> span (pte_addr p l va) 8" for b
    using that assms pte_in_page unfolding zero_page_def by blast
  then have "rd64 m (pte_addr p l va) = rd64 (\<lambda>_. 0) (pte_addr p l va)"
    by (intro rd_le_cong) (simp add: unat_of_nat)
  also have "\<dots> = 0" by (rule bit_word_eqI) (simp add: bit_rd_le)
  finally show ?thesis .
qed

section \<open>The tree under writes of single entries\<close>

lemma same_pfx_refl [simp]: "same_pfx l va va"
  by (simp add: same_pfx_def)

lemma same_pfx_sym: "same_pfx l va vb \<Longrightarrow> same_pfx l vb va"
  by (simp add: same_pfx_def)

lemma same_pfx_Suc: "same_pfx (Suc l) va vb \<longleftrightarrow> same_pfx l va vb \<and> PIDX l va = PIDX l vb"
  by (auto simp: same_pfx_def less_Suc_eq)

lemma same_pfx_mono: "same_pfx l va vb \<Longrightarrow> j \<le> l \<Longrightarrow> same_pfx j va vb"
  by (simp add: same_pfx_def)

lemma tbl_same_pfx: "same_pfx l va vb \<Longrightarrow> tbl m pgt va l = tbl m pgt vb l"
  by (induction l) (auto simp: same_pfx_Suc pte_addr_def split: option.split)

lemma tbl_up: "tbl m pgt va l = Some t \<Longrightarrow> j \<le> l \<Longrightarrow> \<exists>u. tbl m pgt va j = Some u"
proof (induction l arbitrary: t)
  case (Suc l)
  then show ?case
    by (cases "j = Suc l") (auto split: option.splits)
qed simp

lemma tbl_down_None: "tbl m pgt va l = None \<Longrightarrow> l \<le> j \<Longrightarrow> tbl m pgt va j = None"
  using tbl_up [of m pgt va j _ l] by (cases "tbl m pgt va j") auto

lemma tbl_cong:
  assumes "\<And>j t. j < l \<Longrightarrow> tbl m pgt va j = Some t \<Longrightarrow> rd64 m' (pte_addr t j va) = rd64 m (pte_addr t j va)"
  shows "tbl m' pgt va l = tbl m pgt va l"
  using assms
proof (induction l)
  case (Suc l)
  have "tbl m' pgt va l = tbl m pgt va l" by (rule Suc.IH) (use Suc.prems in auto)
  with Suc.prems [of l] show ?case by (auto split: option.split)
qed simp

lemma trees_cong:
  assumes "\<And>pgt j vb. pgt \<in> R \<Longrightarrow> j \<le> 3 \<Longrightarrow> tbl m' pgt vb j = tbl m pgt vb j"
  shows "tables m' R = tables m R" and "no_sharing m' R = no_sharing m R"
  unfolding tables_def no_sharing_def using assms
  by (simp_all cong: conj_cong bex_cong_simp ball_cong)

text \<open>
  Linking the zero page \<open>p\<close> into the entry that the walk for \<open>va\<close> stops at, at level \<open>l\<close>: the
  walks that share the entry get one level further, all others and all leaves stay as they are.
\<close>

definition links :: "memory \<Rightarrow> memory \<Rightarrow> u64 set \<Rightarrow> u64 \<Rightarrow> u64 \<Rightarrow> nat \<Rightarrow> u64 \<Rightarrow> u64 \<Rightarrow> bool" where
  "links m m' R root va l t p \<longleftrightarrow> root \<in> R \<and> l < 3 \<and> (\<forall>u \<in> tables m R. page_ok u \<and> u \<noteq> p) \<and>
     no_sharing m R \<and> tbl m root va l = Some t \<and> \<not> is_table (rd64 m (pte_addr t l va)) \<and>
     page_ok p \<and> zero_page m p \<and>
     m' = wr64 m (pte_addr t l va) (PTE_PA p OR PTE_TABLE OR PTE_VALID)"

lemma table_entry: "page_ok p \<Longrightarrow> is_table (PTE_PA p OR PTE_TABLE OR PTE_VALID)"
  "page_ok p \<Longrightarrow> PTE_PA (PTE_PA p OR PTE_TABLE OR PTE_VALID) = p"
  using PTE_PA_attr [of 3 p]
  by (simp_all add: is_table_def PTE_TABLE_def PTE_VALID_def page_ok_def word_ao_dist word_bw_assocs)

lemma links_table:
  assumes "links m m' R root va l t p" and "pgt \<in> R" and "tbl m pgt vb j = Some u" and "j \<le> 3"
  shows "page_ok u \<and> u \<noteq> p"
  using assms by (auto simp: links_def tables_def)

lemma links_rd:
  assumes "links m m' R root va l t p" and "page_ok u"
  shows "rd64 m' (pte_addr u j vb) = (if u = t \<and> PIDX j vb = PIDX l va
     then PTE_PA p OR PTE_TABLE OR PTE_VALID else rd64 m (pte_addr u j vb))"
proof -
  have "page_ok t" using assms(1) links_table [OF assms(1), of root va l t] by (simp add: links_def)
  from rd_wr_pte [OF this assms(2)] assms(1) show ?thesis by (simp add: links_def)
qed

text \<open>An entry on the way of another walk is the written one only where the ways agree.\<close>

lemma links_rd_other:
  assumes L: "links m m' R root va l t p"
    and "pgt \<in> R" and "tbl m pgt vb j = Some u" and "j \<le> 3"
    and "\<not> (pgt = root \<and> j = l \<and> same_pfx (Suc l) va vb)"
  shows "rd64 m' (pte_addr u j vb) = rd64 m (pte_addr u j vb)"
proof -
  have "\<not> (u = t \<and> PIDX j vb = PIDX l va)"
  proof
    assume eq: "u = t \<and> PIDX j vb = PIDX l va"
    have "l \<le> 3" "no_sharing m R" "root \<in> R" "tbl m root va l = Some t" using L by (simp_all add: links_def)
    with eq assms(2-4) have "root = pgt \<and> l = j \<and> same_pfx l va vb"
      unfolding no_sharing_def by blast
    with eq assms(5) show False by (auto simp: same_pfx_Suc)
  qed
  then show ?thesis using links_rd [OF L, of u j vb] links_table [OF assms(1-4)] by auto
qed

lemma links_rd_fresh: "links m m' R root va l t p \<Longrightarrow> rd64 m' (pte_addr p j vb) = 0"
  using links_rd [of m m' R root va l t p p j vb] links_table [of m m' R root va l t p root va l t]
    rd_zero_page [of p m j vb]
  by (auto simp: links_def)

lemma links_stopped:
  assumes L: "links m m' R root va l t p" and s: "same_pfx (Suc l) va vb" and "l < j"
  shows "tbl m root vb j = None"
proof -
  have "tbl m root vb (Suc l) = tbl m root va (Suc l)" using tbl_same_pfx [OF s] by simp
  also have "\<dots> = None" using L by (simp add: links_def)
  finally show ?thesis by (rule tbl_down_None) (use assms(3) in simp)
qed

lemma links_tbl_same:
  assumes L: "links m m' R root va l t p" and "pgt \<in> R" and "j \<le> 3"
    and "pgt \<noteq> root \<or> j \<le> l \<or> \<not> same_pfx (Suc l) va vb"
  shows "tbl m' pgt vb j = tbl m pgt vb j"
  by (rule tbl_cong, rule links_rd_other [OF L assms(2)]) (use assms in auto)

lemma links_tbl_next:
  assumes L: "links m m' R root va l t p" and s: "same_pfx (Suc l) va vb"
  shows "tbl m' root vb (Suc l) = Some p"
proof -
  have "tbl m root vb l = Some t" "root \<in> R" "l \<le> 3" "page_ok p" "page_ok t"
    using L s tbl_same_pfx [of l va vb m root] links_table [OF L, of root va l t]
    by (auto simp: links_def same_pfx_Suc)
  moreover from this have "tbl m' root vb l = Some t" using links_tbl_same [OF L, of root l vb] by simp
  ultimately show ?thesis
    using links_rd [OF L, of t l vb] s table_entry by (simp add: same_pfx_Suc)
qed

lemma links_tbl:
  assumes L: "links m m' R root va l t p" and "pgt \<in> R" and "j \<le> 3"
  shows "tbl m' pgt vb j = (if pgt = root \<and> l < j \<and> same_pfx (Suc l) va vb
     then (if j = Suc l then Some p else None) else tbl m pgt vb j)"
proof (cases "pgt = root \<and> l < j \<and> same_pfx (Suc l) va vb")
  case True
  have "tbl m' root vb (Suc (Suc l)) = None"
    using True links_tbl_next [OF L] links_rd_fresh [OF L] by (simp add: is_table_def)
  then have "Suc l < j \<Longrightarrow> tbl m' root vb j = None" by (rule tbl_down_None) simp
  with True links_tbl_next [OF L, of vb] show ?thesis by auto
next
  case False
  then show ?thesis using links_tbl_same [OF assms, of vb] by (simp only: if_False) auto
qed

lemma links_leaf:
  assumes L: "links m m' R root va l t p" and "pgt \<in> R"
  shows "leaf m' pgt vb = leaf m pgt vb"
proof (cases "pgt = root \<and> same_pfx (Suc l) va vb")
  case True
  have "l < 3" using L by (simp add: links_def)
  with True have "tbl m root vb 3 = None" "tbl m' root vb 3 = (if 3 = Suc l then Some p else None)"
    using links_stopped [OF L, of vb 3] links_tbl [OF assms, of 3 vb] by auto
  with True show ?thesis
    using links_rd_fresh [OF L, of 3 vb] by (simp add: leaf_def split: if_splits del: Suc_eq_numeral)
next
  case False
  then have "tbl m' pgt vb 3 = tbl m pgt vb 3" using links_tbl_same [OF assms, of 3 vb] by auto
  then show ?thesis
    using links_rd_other [OF assms, of vb 3] L by (auto simp: leaf_def links_def split: option.split)
qed

lemma tablesI: "pgt \<in> R \<Longrightarrow> l \<le> 3 \<Longrightarrow> tbl m pgt va l = Some t \<Longrightarrow> t \<in> tables m R"
  by (auto simp: tables_def)

lemma links_tables:
  assumes L: "links m m' R root va l t p"
  shows "tables m' R = insert p (tables m R)"
proof
  show "tables m' R \<subseteq> insert p (tables m R)"
  proof
    fix u
    assume "u \<in> tables m' R"
    then obtain pgt vb j where "pgt \<in> R" "j \<le> 3" "tbl m' pgt vb j = Some u"
      by (auto simp: tables_def)
    then show "u \<in> insert p (tables m R)"
      using links_tbl [OF L, of pgt j vb] tablesI by (auto split: if_splits)
  qed
  have "root \<in> R" "Suc l \<le> 3" using L by (auto simp: links_def)
  then have "p \<in> tables m' R" using links_tbl_next [OF L same_pfx_refl] by (rule tablesI)
  moreover have "u \<in> tables m' R" if u: "u \<in> tables m R" for u
  proof -
    obtain pgt vb j where x: "pgt \<in> R" "j \<le> 3" "tbl m pgt vb j = Some u"
      using u by (auto simp: tables_def)
    then have "tbl m' pgt vb j = Some u"
      using links_stopped [OF L, of vb j] links_tbl [OF L x(1,2), of vb] by auto
    with x show ?thesis by (intro tablesI)
  qed
  ultimately show "insert p (tables m R) \<subseteq> tables m' R" by auto
qed

lemma links_unshared:
  assumes L: "links m m' R root va l t p"
  shows "no_sharing m' R"
  unfolding no_sharing_def
proof (intro ballI allI impI)
  fix pgt pgt' vb vb' j j' u
  assume R: "pgt \<in> R" "pgt' \<in> R" and j: "j \<le> 3" "j' \<le> 3"
    and tb: "tbl m' pgt vb j = Some u" "tbl m' pgt' vb' j' = Some u"
  have new: "x = root \<and> i = Suc l \<and> same_pfx (Suc l) va v"
    if "x \<in> R" "i \<le> 3" "tbl m' x v i = Some p" for x v i
    using that links_tbl [OF L that(1,2), of v] links_table [OF L that(1), of v i p] by (auto split: if_splits)
  have old: "tbl m x v i = Some u" if "x \<in> R" "i \<le> 3" "tbl m' x v i = Some u" "u \<noteq> p" for x v i
    using that links_tbl [OF L that(1,2), of v] by (auto split: if_splits)
  show "pgt = pgt' \<and> j = j' \<and> same_pfx j vb vb'"
  proof (cases "u = p")
    case True
    have "pgt = root \<and> j = Suc l \<and> same_pfx (Suc l) va vb"
      by (rule new [OF R(1) j(1)]) (use tb True in simp)
    moreover have "pgt' = root \<and> j' = Suc l \<and> same_pfx (Suc l) va vb'"
      by (rule new [OF R(2) j(2)]) (use tb True in simp)
    ultimately show ?thesis by (simp add: same_pfx_def)
  next
    case False
    have "tbl m pgt vb j = Some u" "tbl m pgt' vb' j' = Some u"
      using old [OF R(1) j(1) tb(1) False] old [OF R(2) j(2) tb(2) False] .
    moreover have "no_sharing m R" using L by (simp add: links_def)
    ultimately show ?thesis using R j unfolding no_sharing_def by blast
  qed
qed

section \<open>The walk\<close>

lemma page_addrs_ok: "pt_inv R s \<Longrightarrow> p \<in> page_addrs s \<Longrightarrow> page_ok p"
proof -
  assume inv: "pt_inv R s" and "p \<in> page_addrs s"
  then obtain k where k: "p = page_addr (g_allocator s) k" "k < unat (total_pages (g_allocator s))"
    by (auto simp: page_addrs_def)
  have i: "pa_inv (g_allocator s)"
    "unat (base_pfn (g_allocator s)) + unat (total_pages (g_allocator s)) < 2 ^ 36"
    using inv by (simp_all add: pt_inv_def)
  have u: "unat p = (unat (base_pfn (g_allocator s)) + k) * 4096"
    using unat_page_addr [OF i(1) k(2)] k(1) by simp
  have "0 < unat (base_pfn (g_allocator s))"
    using i(1) by (simp add: pa_inv_def word_less_nat_alt)
  with u have "p \<noteq> 0" by (metis unat_0 add_is_0 less_irrefl mult_is_0 zero_neq_numeral)
  then show ?thesis using u i(2) k(2) by (intro page_okI) simp_all
qed

lemma free_page_addrs_sub: "free_addrs s \<subseteq> page_addrs s"
  by (auto simp: free_addrs_def page_addrs_def free_set_def)

lemma pt_inv_table:
  assumes "pt_inv R s" and "root \<in> R" and "tbl (mem s) root va l = Some t" and "l \<le> 3"
  shows "page_ok t" and "all_backed s t 4096" and "t \<in> page_addrs s" and "t \<notin> free_addrs s"
proof -
  show t: "t \<in> page_addrs s" "t \<notin> free_addrs s"
    using assms tablesI [OF assms(2,4,3)] by (auto simp: pt_inv_def)
  show "page_ok t" using page_addrs_ok [OF assms(1) t(1)] .
  show "all_backed s t 4096" using assms(1) t(1) by (auto simp: pt_inv_def)
qed

lemma all_backed_pte: "all_backed s t 4096 \<Longrightarrow> all_backed s (pte_addr t l va) 8"
proof -
  assume b: "all_backed s t 4096"
  have "pte_addr t l va + of_nat i = t + of_nat (8 * unat (PIDX l va) + i)" for i
    by (simp add: pte_addr_def algebra_simps)
  moreover have "8 * unat (PIDX l va) + i < 4096" if "i < 8" for i
    using that PIDX_less [of l va] by simp
  ultimately show ?thesis using b unfolding all_backed_def by metis
qed

text \<open>The tables that the walks for the addresses \<open>V\<close> lack, by level and index path.\<close>

definition idx :: "nat \<Rightarrow> u64 \<Rightarrow> u64 list" where
  "idx l va = map (\<lambda>j. PIDX j va) [0..<l]"

definition missing :: "memory \<Rightarrow> u64 \<Rightarrow> u64 set \<Rightarrow> (nat \<times> u64 list) set" where
  "missing m root V = {(l, idx l va) | l va. va \<in> V \<and> 1 \<le> l \<and> l \<le> 3 \<and> tbl m root va l = None}"

lemma idx_eq_iff: "idx l va = idx l vb \<longleftrightarrow> same_pfx l va vb"
  by (auto simp: idx_def same_pfx_def)

lemma missingI: "va \<in> V \<Longrightarrow> 1 \<le> l \<Longrightarrow> l \<le> 3 \<Longrightarrow> tbl m root va l = None \<Longrightarrow> (l, idx l va) \<in> missing m root V"
  by (auto simp: missing_def)

lemma missing_finite [simp]: "finite V \<Longrightarrow> finite (missing m root V)"
proof -
  assume "finite V"
  moreover have "missing m root V \<subseteq> (\<lambda>(l, va). (l, idx l va)) ` ({1..3} \<times> V)"
    by (auto simp: missing_def image_iff)
  ultimately show ?thesis by (meson finite_SigmaI finite_atLeastAtMost finite_imageI finite_subset)
qed

lemma links_missing:
  assumes L: "links m m' R root va l t p"
  shows "missing m' root V = missing m root V - {(Suc l, idx (Suc l) va)}"
proof -
  have "root \<in> R" "Suc l \<le> 3" using L by (auto simp: links_def)
  have "tbl m' root vb j = None \<longleftrightarrow> tbl m root vb j = None \<and> \<not> (j = Suc l \<and> idx j vb = idx (Suc l) va)"
    if "j \<le> 3" for vb j
    using links_tbl [OF L \<open>root \<in> R\<close> that, of vb] links_stopped [OF L, of vb j] idx_eq_iff [of "Suc l" va vb]
    by auto
  then show ?thesis by (auto simp: missing_def)
qed

text \<open>
  What a change of the trees that only adds tables leaves alone: the state besides memory and
  allocator, the memory outside the tables; the new tables are pages that were free.
\<close>

definition grown :: "u64 set \<Rightarrow> 'a palloc_scheme \<Rightarrow> 'a palloc_scheme \<Rightarrow> bool" where
  "grown R s s' \<longleftrightarrow> s' = s\<lparr>mem := mem s', g_allocator := g_allocator s'\<rparr> \<and>
     page_addrs s' = page_addrs s \<and> free_addrs s' \<subseteq> free_addrs s \<and>
     tables (mem s') R = tables (mem s) R \<union> (free_addrs s - free_addrs s') \<and>
     (\<forall>b. (\<forall>t \<in> tables (mem s') R. b \<notin> span t 4096) \<longrightarrow> mem s' b = mem s b)"

lemma grown_refl [simp]: "grown R s s"
  by (simp add: grown_def)

lemma grown_trans: "grown R s t \<Longrightarrow> grown R t u \<Longrightarrow> grown R s u"
proof -
  assume st: "grown R s t" and tu: "grown R t u"
  have "u = s\<lparr>mem := mem u, g_allocator := g_allocator u\<rparr>"
    using st tu unfolding grown_def by (metis (no_types, lifting) palloc.fold_congs(1) machine.fold_congs(1)
        palloc.update_convs(1) machine.update_convs(1) machine.surjective palloc.surjective)
  with st tu show ?thesis unfolding grown_def by (auto 4 4)
qed

lemma addrs_mem_update [simp]:
  "free_addrs (s\<lparr>mem := m\<rparr>) = free_addrs s" "page_addrs (s\<lparr>mem := m\<rparr>) = page_addrs s"
  by (simp_all add: free_addrs_def page_addrs_def)

lemma all_backed_alloc_update [simp]: "all_backed (s\<lparr>g_allocator := a\<rparr>) = all_backed s"
  by (rule all_backed_cong) simp

definition same_leaves :: "u64 set \<Rightarrow> memory \<Rightarrow> memory \<Rightarrow> bool" where
  "same_leaves R m m' \<longleftrightarrow> (\<forall>pgt \<in> R. \<forall>vb. leaf m' pgt vb = leaf m pgt vb)"

lemma wr_pte_outside:
  assumes "page_ok t" and "b \<notin> span t 4096"
  shows "wr64 m (pte_addr t l va) e b = m b"
  using assms pte_in_page [OF assms(1), of l va] by (subst wr_le_apply) (auto simp del: mem_span simp: mem_span [symmetric])

lemma zero_page_wr:
  assumes "page_ok t" and "page_ok p" and "t \<noteq> p" and "zero_page m p"
  shows "zero_page (wr64 m (pte_addr t l va) e) p"
  unfolding zero_page_def
proof
  fix b
  assume b: "b \<in> span p 4096"
  then have "b \<notin> span t 4096" using page_spans_disjoint [OF assms(1-3)] by blast
  then show "wr64 m (pte_addr t l va) e b = 0"
    using assms(4) b wr_pte_outside [OF assms(1), of b m l va e] by (simp add: zero_page_def)
qed

lemma link_step:
  assumes inv: "pt_inv R s" "clean s" and root: "root \<in> R" and l: "l < 3"
    and stop: "tbl (mem s) root va l = Some t" "\<not> is_table (rd64 (mem s) (pte_addr t l va))"
    and alloc: "p \<in> free_addrs s" "pa_inv a'" "page_addrs (s\<lparr>g_allocator := a'\<rparr>) = page_addrs s"
      "free_addrs (s\<lparr>g_allocator := a'\<rparr>) = free_addrs s - {p}" "base_pfn a' = base_pfn (g_allocator s)"
      "total_pages a' = total_pages (g_allocator s)"
    and s': "s' = s\<lparr>g_allocator := a', mem := wr64 (mem s) (pte_addr t l va) (PTE_PA p OR PTE_TABLE OR PTE_VALID)\<rparr>"
  shows "links (mem s) (mem s') R root va l t p" and "pt_inv R s'" and "clean s'" and "grown R s s'"
    and "same_leaves R (mem s) (mem s')"
proof -
  have p: "p \<in> page_addrs s" using alloc(1) free_page_addrs_sub by blast
  have pok: "page_ok p" using page_addrs_ok [OF inv(1) p] .
  have t: "page_ok t" "t \<in> page_addrs s" "t \<notin> free_addrs s" "t \<in> tables (mem s) R"
    using pt_inv_table [OF inv(1) root stop(1)] tablesI [OF root _ stop(1)] l by auto
  have tabs: "\<forall>u \<in> tables (mem s) R. u \<in> page_addrs s - free_addrs s" "no_sharing (mem s) R"
    using inv(1) by (auto simp: pt_inv_def)
  have "\<forall>u \<in> tables (mem s) R. page_ok u \<and> u \<noteq> p"
    using tabs(1) alloc(1) page_addrs_ok [OF inv(1)] by blast
  then show L: "links (mem s) (mem s') R root va l t p"
    using root l tabs(2) stop pok inv(2) alloc(1) by (simp add: links_def clean_def s')
  note T = links_tables [OF L]
  have eq: "free_addrs s' = free_addrs s - {p}" "page_addrs s' = page_addrs s" "all_backed s' = all_backed s"
    "g_allocator s' = a'"
    using alloc by (simp_all add: s')
  show "pt_inv R s'"
    using inv(1) alloc p links_unshared [OF L] by (auto simp: pt_inv_def eq T)
  show "clean s'"
    unfolding clean_def eq
  proof
    fix q
    assume q: "q \<in> free_addrs s - {p}"
    then have "page_ok q" using free_page_addrs_sub page_addrs_ok [OF inv(1)] by blast
    moreover have "zero_page (mem s) q" using inv(2) q by (simp add: clean_def)
    ultimately show "zero_page (mem s') q"
      using zero_page_wr [OF t(1), of q] t(3) q by (auto simp: s')
  qed
  have "\<forall>b. b \<notin> span t 4096 \<longrightarrow> mem s' b = mem s b" using wr_pte_outside [OF t(1)] by (simp add: s')
  then show "grown R s s'"
    using alloc(1) t(4) unfolding grown_def eq T by (auto simp: s')
  show "same_leaves R (mem s) (mem s')"
    using links_leaf [OF L] by (simp add: same_leaves_def)
qed

text \<open>The walk that allocates, from a table it has reached.\<close>

definition walked :: "u64 set \<Rightarrow> u64 \<Rightarrow> u64 set \<Rightarrow> u64 \<Rightarrow> 'a palloc_scheme \<Rightarrow> u64 \<Rightarrow> 'a palloc_scheme \<Rightarrow> bool" where
  "walked R root V va s t s' \<longleftrightarrow> tbl (mem s') root va 3 = Some t \<and> pt_inv R s' \<and> clean s' \<and>
     grown R s s' \<and> same_leaves R (mem s) (mem s') \<and>
     missing (mem s') root V \<subseteq> missing (mem s) root V \<and>
     card (missing (mem s) root V) + card (free_addrs s') = card (missing (mem s') root V) + card (free_addrs s)"

lemma walked_step:
  assumes "grown R s u" and "same_leaves R (mem s) (mem u)"
    and "missing (mem u) root V \<subseteq> missing (mem s) root V"
    and "card (missing (mem s) root V) + card (free_addrs u) = card (missing (mem u) root V) + card (free_addrs s)"
    and "walked R root V va u t s'"
  shows "walked R root V va s t s'"
proof -
  have "grown R s s'" using assms(1,5) grown_trans by (auto simp: walked_def)
  with assms show ?thesis by (auto simp: walked_def same_leaves_def)
qed

lemma walk_levels_alloc:
  assumes "pt_inv R s" and "clean s" and "root \<in> R" and "tbl (mem s) root va l = Some t" and "l \<le> 3"
    and "finite V" and "va \<in> V" and "card (missing (mem s) root V) \<le> card (free_addrs s)"
  shows "wp (walk_levels [l..<3] t va True) (\<lambda>r s'. \<exists>t'. r = Some t' \<and> walked R root V va s t' s') s"
  using assms
proof (induction "3 - l" arbitrary: l t s)
  case 0
  then show ?case by (simp add: wps walked_def same_leaves_def)
next
  case (Suc n)
  then have l: "l < 3" by simp
  then have up: "[l..<3] = l # [Suc l..<3]" by (rule upt_conv_Cons)
  have b: "all_backed s (pte_addr t l va) 8"
    using pt_inv_table(2) [OF Suc.prems(1,3,4,5)] by (rule all_backed_pte)
  show ?case
  proof (cases "is_table (rd64 (mem s) (pte_addr t l va))")
    case True
    have "wp (walk_levels [Suc l..<3] (PTE_PA (rd64 (mem s) (pte_addr t l va))) va True)
        (\<lambda>r s'. \<exists>t'. r = Some t' \<and> walked R root V va s t' s') s"
      by (rule Suc.hyps(1)) (use Suc.prems Suc.hyps(2) l True in simp_all)
    then show ?thesis using b True by (simp add: up wps)
  next
    case False
    have x0: "(Suc l, idx (Suc l) va) \<in> missing (mem s) root V"
      by (rule missingI) (use Suc.prems(4,7) l False in simp_all)
    then have nonempty: "free_addrs s \<noteq> {}"
      using Suc.prems(6,8) missing_finite card_gt_0_iff by fastforce
    obtain p a' where a: "alloc_page s = Inr (p, s\<lparr>g_allocator := a'\<rparr>)" "p \<in> free_addrs s" "pa_inv a'"
      "page_addrs (s\<lparr>g_allocator := a'\<rparr>) = page_addrs s" "free_addrs (s\<lparr>g_allocator := a'\<rparr>) = free_addrs s - {p}"
      "base_pfn a' = base_pfn (g_allocator s)" "total_pages a' = total_pages (g_allocator s)"
    proof (rule alloc_page_addrs)
      show "pa_inv (g_allocator s)" using Suc.prems(1) by (simp add: pt_inv_def)
    qed (use nonempty in blast)
    let ?s = "s\<lparr>g_allocator := a', mem := wr64 (mem s) (pte_addr t l va) (PTE_PA p OR PTE_TABLE OR PTE_VALID)\<rparr>"
    note S = link_step [OF Suc.prems(1,2,3) l Suc.prems(4) False a(2-7) refl]
    have "p \<noteq> 0" using S(1) by (simp add: links_def page_ok_def)
    have next_tbl: "tbl (mem ?s) root va (Suc l) = Some p" using links_tbl_next [OF S(1) same_pfx_refl] .
    let ?x = "(Suc l, idx (Suc l) va)"
    have x: "missing (mem ?s) root V = missing (mem s) root V - {?x}"
      using links_missing [OF S(1)] .
    have cards: "card (missing (mem s) root V) = Suc (card (missing (mem ?s) root V))"
      "card (free_addrs s) = Suc (card (free_addrs ?s))"
      using x x0 Suc.prems(6) a(2,5) pages.avail_finite [of s] card.remove [of "free_addrs s" p]
        card.remove [of "missing (mem s) root V" ?x] by simp_all
    then have "wp (walk_levels [Suc l..<3] p va True) (\<lambda>r s'. \<exists>t'. r = Some t' \<and> walked R root V va ?s t' s') ?s"
      by (intro Suc.hyps(1) S(2,3) next_tbl) (use Suc.prems(3,6,7,8) Suc.hyps(2) l in auto)
    then have "wp (walk_levels [Suc l..<3] p va True) (\<lambda>r s'. \<exists>t'. r = Some t' \<and> walked R root V va s t' s') ?s"
      by (rule wp_mono) (use walked_step [OF S(4,5)] x cards in auto)
    then show ?thesis using b False \<open>p \<noteq> 0\<close> by (simp add: up wps wp_of_run [where m = alloc_page, OF a(1)])
  qed
qed

lemma pagewalk_alloc:
  assumes "pt_inv R s" and "clean s" and "root \<in> R"
    and "finite V" and "va \<in> V" and "card (missing (mem s) root V) \<le> card (free_addrs s)"
  shows "wp (pagewalk root va True) (\<lambda>pte s'. \<exists>t. pte = pte_addr t 3 va \<and> walked R root V va s t s') s"
proof -
  have up: "[0, 1, 2] = [0..<3 :: nat]" by (simp add: upt_rec)
  show ?thesis
    unfolding pagewalk_def up wps
    by (rule wp_mono [OF walk_levels_alloc [OF assms(1-3) _ _ assms(4-6)]]) auto
qed

lemma walk_levels_read:
  assumes "pt_inv R s" and "root \<in> R" and "tbl (mem s) root va l = Some t" and "l \<le> 3"
  shows "walk_levels [l..<3] t va False s = Inr (tbl (mem s) root va 3, s)"
  using assms
proof (induction "3 - l" arbitrary: l t)
  case 0
  then show ?case by (simp add: run)
next
  case (Suc n)
  then have l: "l < 3" by simp
  then have up: "[l..<3] = l # [Suc l..<3]" by (rule upt_conv_Cons)
  have b: "all_backed s (pte_addr t l va) 8"
    using pt_inv_table(2) [OF Suc.prems] by (rule all_backed_pte)
  show ?case
  proof (cases "is_table (rd64 (mem s) (pte_addr t l va))")
    case True
    then have "walk_levels [Suc l..<3] (PTE_PA (rd64 (mem s) (pte_addr t l va))) va False s
        = Inr (tbl (mem s) root va 3, s)"
      using Suc l by simp
    then show ?thesis using b True by (simp add: up run)
  next
    case False
    then have "tbl (mem s) root va (Suc l) = None" using Suc.prems(3) by simp
    then have "tbl (mem s) root va 3 = None" by (rule tbl_down_None) (use l in simp)
    then show ?thesis using b False by (simp add: up run)
  qed
qed

lemma pagewalk_read:
  assumes "pt_inv R s" and "root \<in> R"
  shows "pagewalk root va False s =
    Inr (case tbl (mem s) root va 3 of None \<Rightarrow> 0 | Some t \<Rightarrow> pte_addr t 3 va, s)"
proof -
  have up: "[0, 1, 2] = [0..<3 :: nat]" by (simp add: upt_rec)
  show ?thesis
    unfolding pagewalk_def up using walk_levels_read [OF assms, of va 0 root] by (simp add: run)
qed

lemma pte_addr_nonzero: "page_ok t \<Longrightarrow> pte_addr t l va \<noteq> 0"
  using unat_pte_addr [of t l va] unat_page_ok(3) [of t] by auto

lemma ipa2pa_run:
  assumes "pt_inv R s" and "root \<in> R"
  shows "ipa2pa root ipa s = Inr (if tbl (mem s) root ipa 3 = None then 0
     else PTE_PA (leaf (mem s) root ipa) + (ipa AND 0xfff), s)"
proof -
  have "root \<noteq> 0" using pt_inv_table(1) [OF assms, of _ 0 root] by (simp add: page_ok_def)
  have off: "ucast (ucast (ipa AND (PAGE_SIZE - 1)) :: u32) = ipa AND 0xfff"
  proof -
    have m: "PAGE_SIZE - 1 = mask 12" "(0xfff :: u64) = mask 12"
      by (simp_all add: PAGE_SIZE_def mask_eq_exp_minus_1)
    show ?thesis unfolding m by (rule bit_word_eqI) (auto simp: bit_simps)
  qed
  show ?thesis
  proof (cases "tbl (mem s) root ipa 3")
    case None
    then show ?thesis using \<open>root \<noteq> 0\<close> pagewalk_read [OF assms, of ipa] by (simp add: ipa2pa_def run)
  next
    case (Some t)
    have "page_ok t" "all_backed s (pte_addr t 3 ipa) 8"
      using pt_inv_table(1,2) [OF assms Some] all_backed_pte by auto
    then show ?thesis
      using Some \<open>root \<noteq> 0\<close> pagewalk_read [OF assms, of ipa] pte_addr_nonzero [of t 3 ipa] off
      by (simp add: ipa2pa_def run leaf_def)
  qed
qed

section \<open>Writing leaves\<close>

text \<open>Two addresses of the same guest page: they agree on bits 12 to 47.\<close>

definition same_page :: "u64 \<Rightarrow> u64 \<Rightarrow> bool" where
  "same_page va vb \<longleftrightarrow> PTE_PA va = PTE_PA vb"

lemma bit_PIDX: "l \<le> 3 \<Longrightarrow> bit (PIDX l va) n \<longleftrightarrow> n < 9 \<and> bit va (n + (39 - 9 * l))"
proof -
  have m: "(0x1ff :: u64) = mask 9" by (simp add: mask_eq_exp_minus_1)
  assume "l \<le> 3"
  then show ?thesis unfolding PIDX_def m by (auto simp: bit_simps algebra_simps)
qed

lemma same_page_iff: "same_page va vb \<longleftrightarrow> same_pfx 4 va vb"
proof
  assume "same_page va vb"
  then have b: "bit va n \<longleftrightarrow> bit vb n" if "12 \<le> n" "n < 48" for n
    using that unfolding same_page_def by (metis bit_PTE_PA)
  show "same_pfx 4 va vb"
    unfolding same_pfx_def
  proof (intro allI impI bit_word_eqI)
    fix j n :: nat
    assume "j < 4"
    then show "bit (PIDX j va) n \<longleftrightarrow> bit (PIDX j vb) n"
      using b [of "n + (39 - 9 * j)"] by (auto simp: bit_PIDX)
  qed
next
  assume s: "same_pfx 4 va vb"
  have "bit va n \<longleftrightarrow> bit vb n" if n: "12 \<le> n" "n < 48" for n
  proof -
    define j where "j = (47 - n) div 9"
    have j: "j \<le> 3" "39 - 9 * j \<le> n" "n - (39 - 9 * j) < 9" using n by (auto simp: j_def)
    then have "PIDX j va = PIDX j vb" using s by (simp add: same_pfx_def)
    from arg_cong [where f = "\<lambda>w. bit w (n - (39 - 9 * j))", OF this] j show ?thesis
      by (simp add: bit_PIDX)
  qed
  then show "same_page va vb"
    unfolding same_page_def by (intro bit_word_eqI) (auto simp: bit_PTE_PA)
qed

text \<open>Writing a leaf changes no table and no leaf of another page or root.\<close>

lemma leaf_write:
  assumes inv: "pt_inv R s" and root: "root \<in> R" and t: "tbl (mem s) root va 3 = Some t"
    and pgt: "pgt \<in> R" and m'_def: "m' = wr64 (mem s) (pte_addr t 3 va) e"
  shows "j \<le> 3 \<Longrightarrow> tbl m' pgt vb j = tbl (mem s) pgt vb j"
    and "tbl (mem s) pgt vb 3 \<noteq> None \<Longrightarrow>
      leaf m' pgt vb = (if pgt = root \<and> same_page va vb then e else leaf (mem s) pgt vb)"
    and "tbl (mem s) pgt vb 3 = None \<Longrightarrow> leaf m' pgt vb = leaf (mem s) pgt vb"
proof -
  have tok: "page_ok t" using pt_inv_table(1) [OF inv root t] by simp
  have rd: "rd64 m' (pte_addr u i vb) =
      (if pgt = root \<and> i = 3 \<and> same_page va vb then e else rd64 (mem s) (pte_addr u i vb))"
    if u: "tbl (mem s) pgt vb i = Some u" "i \<le> 3" for u i
  proof -
    have "page_ok u" using pt_inv_table(1) [OF inv pgt u] .
    then have r: "rd64 m' (pte_addr u i vb) =
        (if u = t \<and> PIDX i vb = PIDX 3 va then e else rd64 (mem s) (pte_addr u i vb))"
      unfolding m'_def by (rule rd_wr_pte [OF tok])
    have "no_sharing (mem s) R" using inv by (simp add: pt_inv_def)
    then have "u = t \<Longrightarrow> root = pgt \<and> 3 = i \<and> same_pfx 3 va vb"
      using u t root pgt unfolding no_sharing_def by blast
    then have "u = t \<and> PIDX i vb = PIDX 3 va \<longleftrightarrow> pgt = root \<and> i = 3 \<and> same_page va vb"
      using t u same_pfx_Suc [of 3 va vb] tbl_same_pfx [of 3 va vb "mem s" root]
      by (auto simp: same_page_iff eval_nat_numeral)
    with r show ?thesis by simp
  qed
  show tb: "tbl m' pgt vb j = tbl (mem s) pgt vb j" if "j \<le> 3" for j
    by (rule tbl_cong) (use rd that in auto)
  show "leaf m' pgt vb = (if pgt = root \<and> same_page va vb then e else leaf (mem s) pgt vb)"
    if "tbl (mem s) pgt vb 3 \<noteq> None"
    using that tb [of 3] rd [of 3] by (auto simp: leaf_def)
  show "leaf m' pgt vb = leaf (mem s) pgt vb" if "tbl (mem s) pgt vb 3 = None"
    using that tb [of 3] by (simp add: leaf_def)
qed

lemma same_page_tbl: "same_page va vb \<Longrightarrow> tbl m root va 3 = tbl m root vb 3"
  by (rule tbl_same_pfx) (simp add: same_page_iff same_pfx_mono)

lemma leaf_write_leaf:
  assumes inv: "pt_inv R s" and root: "root \<in> R" and t: "tbl (mem s) root va 3 = Some t" and "pgt \<in> R"
  shows "leaf (wr64 (mem s) (pte_addr t 3 va) e) pgt vb =
    (if pgt = root \<and> same_page va vb then e else leaf (mem s) pgt vb)"
  using leaf_write(2,3) [OF assms refl, of vb e] same_page_tbl [of va vb "mem s" root] t
  by (cases "tbl (mem s) pgt vb 3 = None") auto

lemma leaf_write_inv:
  assumes inv: "pt_inv R s" and root: "root \<in> R" and t: "tbl (mem s) root va 3 = Some t"
    and s'_def: "s' = s\<lparr>mem := wr64 (mem s) (pte_addr t 3 va) e\<rparr>"
  shows "pt_inv R s'" and "clean s \<Longrightarrow> clean s'" and "grown R s s'"
    and "\<And>V. missing (mem s') root V = missing (mem s) root V"
proof -
  have tb: "tbl (mem s') pgt vb j = tbl (mem s) pgt vb j" if "pgt \<in> R" "j \<le> 3" for pgt vb j
    using leaf_write(1) [OF inv root t that(1) refl that(2), of e vb] by (simp add: s'_def)
  note T = trees_cong(1) [OF tb] and N = trees_cong(2) [OF tb]
  note tt = pt_inv_table [OF inv root t order_refl]
  show "missing (mem s') root V = missing (mem s) root V" for V
    using tb [OF root] by (auto simp: missing_def)
  show "pt_inv R s'" using inv T N by (simp add: pt_inv_def s'_def)
  have out: "mem s' b = mem s b" if "b \<notin> span t 4096" for b
    using wr_pte_outside [OF tt(1) that] by (simp add: s'_def)
  have "t \<in> tables (mem s) R" using tablesI [OF root _ t] by simp
  then show "grown R s s'" using T out unfolding grown_def by (auto simp: s'_def)
  show "clean s'" if c: "clean s"
    unfolding clean_def
  proof
    fix q
    assume "q \<in> free_addrs s'"
    then have q: "q \<in> free_addrs s" by (simp add: s'_def)
    then have "page_ok q" "zero_page (mem s) q" "t \<noteq> q"
      using free_page_addrs_sub page_addrs_ok [OF inv] c tt(4) by (auto simp: clean_def)
    then show "zero_page (mem s') q" using zero_page_wr [OF tt(1), of q] by (simp add: s'_def)
  qed
qed

section \<open>Mapping a range\<close>

lemma unat_PTE_PA: "unat (PTE_PA x) = unat x mod 2 ^ 48 div 4096 * 4096"
proof -
  have "PTE_PA x = push_bit 12 (drop_bit 12 (take_bit 48 x))"
    by (rule bit_word_eqI) (auto simp: bit_PTE_PA bit_simps)
  moreover have d: "unat (drop_bit 12 (take_bit 48 x)) = unat x mod 2 ^ 48 div 4096"
    by (simp add: drop_bit_eq_div take_bit_eq_mod unat_div_distrib unat_mod_distrib)
  have "unat (push_bit 12 (drop_bit 12 (take_bit 48 x))) = unat (drop_bit 12 (take_bit 48 x)) * 4096"
    by (rule unat_push_bit_12) (unfold d, simp)
  ultimately show ?thesis using d by simp
qed

lemma same_page_unat: "same_page x y \<longleftrightarrow> unat x mod 2 ^ 48 div 4096 = unat y mod 2 ^ 48 div 4096"
  unfolding same_page_def word_unat_eq_iff unat_PTE_PA by simp

lemma same_page_within:
  assumes "unat x mod 4096 = 0" and "unat x + 4096 \<le> 2 ^ 48" and "unat y = unat x + k" and "k < 4096"
  shows "same_page x y"
  using assms by (auto simp: same_page_unat mod_eq_0_iff_dvd elim!: dvdE)

lemma PTE_PA_aligned: "unat x mod 4096 = 0 \<Longrightarrow> unat x < 2 ^ 48 \<Longrightarrow> PTE_PA x = x"
  unfolding word_unat_eq_iff unat_PTE_PA by (auto simp: mod_eq_0_iff_dvd elim!: dvdE)

lemma unat_page_off: "unat (x AND 0xfff :: u64) = unat x mod 4096"
proof -
  have "x AND 0xfff = take_bit 12 x" by (simp add: take_bit_eq_mask mask_eq_exp_minus_1)
  then show ?thesis by (simp add: take_bit_eq_mod unat_mod_distrib)
qed

definition s2_entry :: "u64 \<Rightarrow> u64 \<Rightarrow> u64" where
  "s2_entry pa attr = PTE_PA pa OR S2PTE_AF OR attr OR PTE_V"

lemma s2_entry_nonzero: "s2_entry pa attr \<noteq> 0"
proof -
  have "bit (s2_entry pa attr) 0" by (simp add: s2_entry_def PTE_V_def bit_simps)
  then show ?thesis by auto
qed

lemma PTE_PA_s2_entry: "attr AND 0xfffffffff000 = 0 \<Longrightarrow> PTE_PA (s2_entry pa attr) = PTE_PA pa"
  unfolding s2_entry_def or.assoc
  by (rule PTE_PA_attr) (simp add: S2PTE_AF_def PTE_V_def word_ao_dist)

text \<open>The leaves of one root after a change that the function \<open>f\<close> describes; other roots keep theirs.\<close>

definition new_leaves :: "u64 set \<Rightarrow> u64 \<Rightarrow> (u64 \<Rightarrow> u64 option) \<Rightarrow> memory \<Rightarrow> memory \<Rightarrow> bool" where
  "new_leaves R root f m m' \<longleftrightarrow> (\<forall>pgt \<in> R. \<forall>vb. leaf m' pgt vb =
     (if pgt = root then (case f vb of None \<Rightarrow> leaf m root vb | Some e \<Rightarrow> e) else leaf m pgt vb))"

definition page_to :: "u64 \<Rightarrow> u64 \<Rightarrow> u64 \<Rightarrow> u64 option" where
  "page_to va e = (\<lambda>vb. if same_page va vb then Some e else None)"

text \<open>The state after an operation that maps pages, and the memory it may still need.\<close>

definition mapped :: "u64 set \<Rightarrow> u64 \<Rightarrow> u64 set \<Rightarrow> (u64 \<Rightarrow> u64 option) \<Rightarrow>
    'a palloc_scheme \<Rightarrow> 'a palloc_scheme \<Rightarrow> bool" where
  "mapped R root V f s s' \<longleftrightarrow> pt_inv R s' \<and> clean s' \<and> grown R s s' \<and>
     new_leaves R root f (mem s) (mem s') \<and> missing (mem s') root V \<subseteq> missing (mem s) root V \<and>
     card (missing (mem s) root V) + card (free_addrs s') = card (missing (mem s') root V) + card (free_addrs s)"

lemma pagemap1_run:
  assumes inv: "pt_inv R s" "clean s" and root: "root \<in> R" and V: "finite V" "va \<in> V"
    and mem: "card (missing (mem s) root V) \<le> card (free_addrs s)"
    and unused: "leaf (mem s) root va AND PTE_AF = 0"
  shows "wp (pagemap1 root va pa attr) (\<lambda>_ s'. mapped R root V (page_to va (s2_entry pa attr)) s s') s"
  unfolding pagemap1_def wp_prims(5)
proof (rule wp_mono [OF pagewalk_alloc [OF inv root V mem]])
  fix pte u
  assume "\<exists>t. pte = pte_addr t 3 va \<and> walked R root V va s t u"
  then obtain t where pte: "pte = pte_addr t 3 va" and w: "walked R root V va s t u" by blast
  have t: "tbl (mem u) root va 3 = Some t" "pt_inv R u" "clean u" using w by (auto simp: walked_def)
  have b: "all_backed u pte 8"
    unfolding pte using pt_inv_table(2) [OF t(2) root t(1)] by (intro all_backed_pte) simp
  have "rd64 (mem u) pte = leaf (mem u) root va" using t(1) by (simp add: leaf_def pte)
  also have "\<dots> = leaf (mem s) root va" using w root by (simp add: walked_def same_leaves_def)
  finally have v: "rd64 (mem u) pte AND PTE_AF = 0" using unused by simp
  let ?u = "u\<lparr>mem := wr64 (mem u) pte (s2_entry pa attr)\<rparr>"
  note W = leaf_write_inv [OF t(2) root t(1), of ?u "s2_entry pa attr"]
  have "new_leaves R root (page_to va (s2_entry pa attr)) (mem s) (mem ?u)"
    using leaf_write_leaf [OF t(2) root t(1), of _ "s2_entry pa attr"] w
    by (auto simp: new_leaves_def page_to_def walked_def same_leaves_def pte)
  then have "mapped R root V (page_to va (s2_entry pa attr)) s ?u"
    using W w t(3) grown_trans [of R s u ?u] by (simp add: mapped_def walked_def pte)
  with b v show "wp (ld64 pte) (\<lambda>v. wp (if v AND PTE_AF \<noteq> 0
        then mfail (Panic ''[pagemap]: this entry has been used'')
        else st64 pte (PTE_PA pa OR S2PTE_AF OR attr OR PTE_V))
      (\<lambda>_. mapped R root V (page_to va (s2_entry pa attr)) s)) u"
    by (simp add: wps s2_entry_def)
qed

primrec range_to :: "u64 \<Rightarrow> u64 \<Rightarrow> u64 \<Rightarrow> nat \<Rightarrow> u64 \<Rightarrow> u64 option" where
  "range_to va pa attr 0 = (\<lambda>_. None)"
| "range_to va pa attr (Suc k) = (\<lambda>vb. if same_page (va + of_nat k * PAGE_SIZE) vb
     then Some (s2_entry (pa + of_nat k * PAGE_SIZE) attr) else range_to va pa attr k vb)"

lemma mapped_refl: "pt_inv R s \<Longrightarrow> clean s \<Longrightarrow> mapped R root V (\<lambda>_. None) s s"
  by (simp add: mapped_def new_leaves_def)

lemma mapped_trans:
  assumes "mapped R root V f s t" and "mapped R root V g t u"
  shows "mapped R root V (\<lambda>vb. case g vb of None \<Rightarrow> f vb | Some e \<Rightarrow> Some e) s u"
proof -
  have "grown R s u" using assms grown_trans by (auto simp: mapped_def)
  moreover have "new_leaves R root (\<lambda>vb. case g vb of None \<Rightarrow> f vb | Some e \<Rightarrow> Some e) (mem s) (mem u)"
    using assms unfolding mapped_def new_leaves_def by (auto split: option.splits)
  ultimately show ?thesis using assms by (auto simp: mapped_def)
qed

lemma range_to_step:
  "(\<lambda>vb. case page_to (va + of_nat k * PAGE_SIZE) (s2_entry (pa + of_nat k * PAGE_SIZE) attr) vb of
      None \<Rightarrow> range_to va pa attr k vb | Some e \<Rightarrow> Some e) = range_to va pa attr (Suc k)"
  by (simp add: page_to_def fun_eq_iff)

lemma range_to_None: "range_to va pa attr n vb = None \<longleftrightarrow> (\<forall>k < n. \<not> same_page (va + of_nat k * PAGE_SIZE) vb)"
  by (induction n) (auto simp: less_Suc_eq)

lemma unat_page_offset:
  assumes "unat va + n * 4096 \<le> 2 ^ 48" and "k < n"
  shows "unat (va + of_nat k * PAGE_SIZE) = unat va + k * 4096"
proof -
  have "unat (of_nat k * PAGE_SIZE) = k * 4096"
    using assms by (simp add: PAGE_SIZE_def unat_word_ariths unat_of_nat)
  then show ?thesis using assms by (simp add: unat_word_ariths)
qed

lemma range_pages_distinct:
  assumes "unat va mod 4096 = 0" and "unat va + n * 4096 \<le> 2 ^ 48" and "j < n" and "k < n" and "j \<noteq> k"
  shows "\<not> same_page (va + of_nat j * PAGE_SIZE) (va + of_nat k * PAGE_SIZE)"
  using assms unat_page_offset [OF assms(2,3)] unat_page_offset [OF assms(2,4)]
  by (auto simp: same_page_unat)

lemma range_to_Some:
  assumes "unat va mod 4096 = 0" and "unat va + n * 4096 \<le> 2 ^ 48" and "k < n"
    and "same_page (va + of_nat k * PAGE_SIZE) vb"
  shows "range_to va pa attr n vb = Some (s2_entry (pa + of_nat k * PAGE_SIZE) attr)"
  using assms
proof (induction n)
  case (Suc n)
  show ?case
  proof (cases "k = n")
    case False
    then have "\<not> same_page (va + of_nat n * PAGE_SIZE) vb"
      using range_pages_distinct [OF Suc.prems(1,2), of n k] Suc.prems(3,4)
      by (auto simp: same_page_def)
    with False Suc show ?thesis by simp
  qed (use Suc.prems(4) in simp)
qed simp

definition range_pages :: "u64 \<Rightarrow> nat \<Rightarrow> u64 set" where
  "range_pages va n = (\<lambda>k. va + of_nat k * PAGE_SIZE) ` {..<n}"

text \<open>The loop of \<open>pagemap\<close>.\<close>

lemma pagemap_run:
  assumes inv: "pt_inv R s" "clean s" and root: "root \<in> R"
    and al: "unat va mod 4096 = 0" "unat pa mod 4096 = 0" "unat sz = n * 4096"
    and low: "unat va + n * 4096 \<le> 2 ^ 48"
    and V: "finite V" "range_pages va n \<subseteq> V"
    and mem: "card (missing (mem s) root V) \<le> card (free_addrs s)"
    and unused: "\<forall>k < n. leaf (mem s) root (va + of_nat k * PAGE_SIZE) AND PTE_AF = 0"
  shows "wp (pagemap root va pa sz attr) (\<lambda>_ s'. mapped R root V (range_to va pa attr n) s s') s"
proof -
  have al': "va mod PAGE_SIZE = 0" "pa mod PAGE_SIZE = 0" "sz mod PAGE_SIZE = 0"
    using al by (simp_all add: word_unat_eq_iff unat_mod_distrib PAGE_SIZE_def)
  have "wp (mfor [0..<n] (\<lambda>k. pagemap1 root (va + of_nat k * PAGE_SIZE) (pa + of_nat k * PAGE_SIZE) attr))
      (\<lambda>_. mapped R root V (range_to va pa attr (length [0..<n])) s) s"
  proof (rule wp_mfor)
    show "mapped R root V (range_to va pa attr 0) s s" using mapped_refl [OF inv] by simp
    fix k u
    assume "k < length [0..<n]" and m: "mapped R root V (range_to va pa attr k) s u"
    then have k: "k < n" by simp
    let ?va = "va + of_nat k * PAGE_SIZE" and ?pa = "pa + of_nat k * PAGE_SIZE"
    have "range_to va pa attr k ?va = None"
      using range_pages_distinct [OF al(1) low _ k] k by (auto simp: range_to_None)
    then have "leaf (mem u) root ?va = leaf (mem s) root ?va"
      using m root by (simp add: mapped_def new_leaves_def)
    with unused k have af: "leaf (mem u) root ?va AND PTE_AF = 0" by simp
    have "?va \<in> V" using V(2) k by (auto simp: range_pages_def)
    moreover have "pt_inv R u" "clean u" "card (missing (mem u) root V) \<le> card (free_addrs u)"
      using m mem by (auto simp: mapped_def)
    ultimately have "wp (pagemap1 root ?va ?pa attr)
        (\<lambda>_ s'. mapped R root V (page_to ?va (s2_entry ?pa attr)) u s') u"
      using root V(1) af by (intro pagemap1_run)
    then show "wp (pagemap1 root (va + of_nat ([0..<n] ! k) * PAGE_SIZE) (pa + of_nat ([0..<n] ! k) * PAGE_SIZE) attr)
        (\<lambda>_. mapped R root V (range_to va pa attr (Suc k)) s) u"
      using k mapped_trans [OF m, of "page_to ?va (s2_entry ?pa attr)"]
      unfolding range_to_step by (auto elim!: wp_mono simp del: range_to.simps)
  qed
  then show ?thesis using al al' by (simp add: pagemap_def)
qed

section \<open>New roots and the number of tables\<close>

text \<open>A zero page that is in use, and not as a table, can become the root of another tree.\<close>

lemma tbl_zero_root:
  assumes "page_ok p" and "zero_page m p" and "tbl m p va l = Some t"
  shows "l = 0 \<and> t = p"
proof (cases l)
  case (Suc j)
  have "tbl m p va 1 = None" using rd_zero_page [OF assms(1,2), of 0 va] by (simp add: is_table_def)
  then have "tbl m p va l = None" by (rule tbl_down_None) (simp add: Suc)
  with assms(3) show ?thesis by simp
qed (use assms(3) in simp)

lemma new_root:
  assumes inv: "pt_inv R s" and p: "p \<in> page_addrs s - free_addrs s" "p \<notin> tables (mem s) R"
    and z: "zero_page (mem s) p"
  shows "pt_inv (insert p R) s" and "tables (mem s) (insert p R) = insert p (tables (mem s) R)"
    and "leaf (mem s) p va = 0"
proof -
  have ok: "page_ok p" using page_addrs_ok [OF inv] p(1) by blast
  note tz = tbl_zero_root [OF ok z]
  show T: "tables (mem s) (insert p R) = insert p (tables (mem s) R)"
    using tz tablesI [of p "{p}" 0 "mem s" undefined p] by (auto simp: tables_def)
  have "tbl (mem s) p va 3 = None" for va using tz [of va 3] by (cases "tbl (mem s) p va 3") auto
  then show "leaf (mem s) p va = 0" by (simp add: leaf_def)
  have "p \<notin> R" using p(2) tablesI [of p R 0 "mem s" undefined p] by auto
  have "no_sharing (mem s) (insert p R)"
    unfolding no_sharing_def
  proof (intro ballI allI impI)
    fix pgt pgt' va va' l l' t
    assume R: "pgt \<in> insert p R" "pgt' \<in> insert p R" and l: "l \<le> 3" "l' \<le> 3"
      and tb: "tbl (mem s) pgt va l = Some t" "tbl (mem s) pgt' va' l' = Some t"
    have other: "t \<noteq> p" if "x \<in> R" "i \<le> 3" "tbl (mem s) x v i = Some t" for x v i
      using that p(2) tablesI [OF that] by auto
    show "pgt = pgt' \<and> l = l' \<and> same_pfx l va va'"
    proof (cases "pgt \<in> R \<and> pgt' \<in> R")
      case True
      then show ?thesis using inv l tb unfolding pt_inv_def no_sharing_def by blast
    next
      case False
      then show ?thesis
        using R l tb tz [of va l t] tz [of va' l' t] other \<open>p \<notin> R\<close> by (auto simp: same_pfx_def)
    qed
  qed
  then show "pt_inv (insert p R) s" using inv p(1) T by (auto simp: pt_inv_def)
qed

lemma pt_inv_empty: "pt_inv {} s \<longleftrightarrow> pa_inv (g_allocator s) \<and>
     unat (base_pfn (g_allocator s)) + unat (total_pages (g_allocator s)) < 2 ^ 36 \<and>
     (\<forall>p \<in> page_addrs s. all_backed s p 4096)"
  by (simp add: pt_inv_def tables_def no_sharing_def)

text \<open>Every address lacks three tables at most; the pages of a range share most of theirs.\<close>

lemma card_missing_le: "finite V \<Longrightarrow> card (missing m root V) \<le> 3 * card V"
proof -
  assume V: "finite V"
  have "missing m root V \<subseteq> (\<lambda>(l, va). (l, idx l va)) ` ({1..3} \<times> V)"
    by (auto simp: missing_def image_iff)
  then have "card (missing m root V) \<le> card ((\<lambda>(l, va). (l, idx l va)) ` ({1..3 :: nat} \<times> V))"
    by (rule card_mono [rotated]) (use V in simp)
  also have "\<dots> \<le> card ({1..3 :: nat} \<times> V)" by (rule card_image_le) (use V in simp)
  finally show ?thesis by simp
qed

lemma unat_drop_bit_div: "unat (drop_bit k w) = unat w div 2 ^ k" for w :: u64
proof -
  have "unat (drop_bit k w) = drop_bit k (unat w)" 
    using unsigned_less [of w, where 'a = nat] by (simp add: unsigned_drop_bit_eq take_bit_nat_eq_self)
  then show ?thesis by (simp only: drop_bit_eq_div)
qed

lemma same_pfx_of_block:
  assumes "unat va div 2 ^ (48 - 9 * l) = unat vb div 2 ^ (48 - 9 * l)" and "l \<le> 4"
  shows "same_pfx l va vb"
proof -
  have d: "drop_bit (48 - 9 * l) va = drop_bit (48 - 9 * l) vb"
    using assms(1) by (simp only: word_unat_eq_iff unat_drop_bit_div)
  show ?thesis
    unfolding same_pfx_def
  proof (intro allI impI bit_word_eqI)
    fix j n
    assume j: "j < l"
    have "bit va (n + (39 - 9 * j)) = bit vb (n + (39 - 9 * j))"
      using arg_cong [where f = "\<lambda>w. bit w (n + (39 - 9 * j) - (48 - 9 * l))", OF d] j assms(2)
      by (simp add: bit_simps add.commute)
    then show "bit (PIDX j va) n = bit (PIDX j vb) n" using j assms(2) by (simp add: bit_PIDX)
  qed
qed

lemma card_image_factor:
  assumes "finite A" and "\<And>x y. x \<in> A \<Longrightarrow> y \<in> A \<Longrightarrow> g x = g y \<Longrightarrow> f x = f y"
  shows "card (f ` A) \<le> card (g ` A)"
proof -
  have "f x = f (inv_into A g (g x))" if "x \<in> A" for x
    using assms(2) [OF that, of "inv_into A g (g x)"] that by (simp add: f_inv_into_f inv_into_into)
  then have "f ` A \<subseteq> (\<lambda>b. f (inv_into A g b)) ` (g ` A)" by blast
  then have "card (f ` A) \<le> card ((\<lambda>b. f (inv_into A g b)) ` (g ` A))"
    by (rule card_mono [rotated]) (use assms(1) in simp)
  also have "\<dots> \<le> card (g ` A)" by (rule card_image_le) (use assms(1) in simp)
  finally show ?thesis .
qed

lemma div_add_le: "(a + b) div c \<le> a div c + b div c + 1" for a b c :: nat
proof (cases "c = 0")
  case False
  then have "a mod c + b mod c < 2 * c"
    using add_strict_mono [OF mod_less_divisor [of c a] mod_less_divisor [of c b]] by (simp add: mult_2)
  then have "(a mod c + b mod c) div c < 2" by (rule less_mult_imp_div_less)
  then show ?thesis by (simp add: div_add1_eq [of a b c])
qed simp

lemma card_missing_range:
  assumes "unat va + n * 4096 \<le> 2 ^ 48"
  shows "card (missing m root (range_pages va n)) \<le> 3 * (n div 512 + 2)"
proof -
  let ?V = "range_pages va n"
  have V: "finite ?V" by (simp add: range_pages_def)
  have one: "card (idx l ` ?V) \<le> n div 512 + 2" if l: "1 \<le> l" "l \<le> 3" for l
  proof -
    let ?B = "2 ^ (48 - 9 * l) :: nat"
    let ?g = "\<lambda>v :: u64. unat v div ?B"
    have "card (idx l ` ?V) \<le> card (?g ` ?V)"
      using V by (rule card_image_factor) (use l in \<open>simp add: idx_eq_iff same_pfx_of_block\<close>)
    also have "?g ` ?V \<subseteq> {unat va div ?B..(unat va + n * 4096) div ?B}"
      using unat_page_offset [OF assms] by (auto simp: range_pages_def intro!: div_le_mono)
    then have "card (?g ` ?V) \<le> card {unat va div ?B..(unat va + n * 4096) div ?B}"
      by (rule card_mono [rotated]) simp
    also have "\<dots> \<le> n * 4096 div ?B + 2"
      using div_add_le [of "unat va" "n * 4096" ?B] by simp
    also have "n * 4096 div ?B \<le> n * 4096 div 2 ^ 21"
      using l power_increasing [of 21 "48 - 9 * l" "2 :: nat"] by (intro div_le_mono2) simp_all
    also have "n * 4096 div 2 ^ 21 = n div 512" by simp
    finally show ?thesis by simp
  qed
  have "missing m root ?V \<subseteq> (\<Union>l \<in> {1..3}. Pair l ` idx l ` ?V)"
    by (auto simp: missing_def)
  then have "card (missing m root ?V) \<le> card (\<Union>l \<in> {1..3 :: nat}. Pair l ` idx l ` ?V)"
    by (rule card_mono [rotated]) (use V in simp)
  also have "\<dots> \<le> (\<Sum>l \<in> {1..3 :: nat}. card (Pair l ` idx l ` ?V))" by (rule card_UN_le) simp
  also have "\<dots> \<le> (\<Sum>l \<in> {1..3 :: nat}. n div 512 + 2)"
    using one by (intro sum_mono) (simp add: card_image inj_on_def)
  finally show ?thesis by simp
qed

section \<open>Data pages\<close>

text \<open>Memory that is neither a table nor a free page can be written without any effect on the trees.\<close>

lemma data_write:
  assumes inv: "pt_inv R s" and same: "\<And>t b. t \<in> tables (mem s) R \<Longrightarrow> b \<in> span t 4096 \<Longrightarrow> m' b = mem s b"
  shows "pt_inv R (s\<lparr>mem := m'\<rparr>)" and "same_leaves R (mem s) m'" and "tables m' R = tables (mem s) R"
    and "root \<in> R \<Longrightarrow> missing m' root V = missing (mem s) root V"
    and "clean s \<Longrightarrow> (\<And>p b. p \<in> free_addrs s \<Longrightarrow> b \<in> span p 4096 \<Longrightarrow> m' b = mem s b) \<Longrightarrow> clean (s\<lparr>mem := m'\<rparr>)"
proof -
  have rd: "rd64 m' (pte_addr t l va) = rd64 (mem s) (pte_addr t l va)"
    if "pgt \<in> R" "l \<le> 3" "tbl (mem s) pgt va l = Some t" for pgt l va t
  proof -
    have "t \<in> tables (mem s) R" "page_ok t"
      using tablesI [OF that] pt_inv_table(1) [OF inv that(1,3,2)] by simp_all
    then have "m' b = mem s b" if "b \<in> span (pte_addr t l va) 8" for b
      using that same [of t b] pte_in_page [of t l va] by blast
    then show ?thesis by (intro rd_le_cong) (simp add: unat_of_nat)
  qed
  have tb: "tbl m' pgt vb j = tbl (mem s) pgt vb j" if "pgt \<in> R" "j \<le> 3" for pgt vb j
    by (rule tbl_cong) (use rd [OF that(1)] that in simp)
  show T: "tables m' R = tables (mem s) R" using trees_cong(1) [OF tb] .
  show "pt_inv R (s\<lparr>mem := m'\<rparr>)" using inv T trees_cong(2) [OF tb] by (simp add: pt_inv_def)
  show "same_leaves R (mem s) m'"
    using rd [of _ 3] tb [of _ 3] by (auto simp: same_leaves_def leaf_def split: option.split)
  show "missing m' root V = missing (mem s) root V" if "root \<in> R"
    using tb [OF that] by (auto simp: missing_def)
  show "clean (s\<lparr>mem := m'\<rparr>)" if "clean s" "\<And>p b. p \<in> free_addrs s \<Longrightarrow> b \<in> span p 4096 \<Longrightarrow> m' b = mem s b"
    using that by (simp add: clean_def zero_page_def)
qed

text \<open>Taking a free page for data.\<close>

lemma pt_inv_transfer:
  assumes "pt_inv R s" and "g_allocator t = g_allocator s" and "mem t = mem s" and "\<And>a. backed s a \<Longrightarrow> backed t a"
  shows "pt_inv R t"
  using assms by (auto simp: pt_inv_def page_addrs_def free_addrs_def all_backed_def)

lemma alloc_data:
  assumes inv: "pt_inv R s" "clean s" and "free_addrs s \<noteq> {}"
  obtains p a' where "alloc_page s = Inr (p, s\<lparr>g_allocator := a'\<rparr>)" and "p \<in> free_addrs s"
    and "p \<notin> tables (mem s) R" and "page_ok p" and "zero_page (mem s) p" and "all_backed s p 4096"
    and "pt_inv R (s\<lparr>g_allocator := a'\<rparr>)" and "clean (s\<lparr>g_allocator := a'\<rparr>)"
    and "free_addrs (s\<lparr>g_allocator := a'\<rparr>) = free_addrs s - {p}"
    and "page_addrs (s\<lparr>g_allocator := a'\<rparr>) = page_addrs s"
proof -
  have pa: "pa_inv (g_allocator s)" using inv(1) by (simp add: pt_inv_def)
  obtain p a' where a: "alloc_page s = Inr (p, s\<lparr>g_allocator := a'\<rparr>)" "p \<in> free_addrs s" "pa_inv a'"
      "page_addrs (s\<lparr>g_allocator := a'\<rparr>) = page_addrs s" "free_addrs (s\<lparr>g_allocator := a'\<rparr>) = free_addrs s - {p}"
      "base_pfn a' = base_pfn (g_allocator s)" "total_pages a' = total_pages (g_allocator s)"
    by (rule alloc_page_addrs [OF pa]) (use assms(3) in blast)
  have p: "p \<in> page_addrs s" using a(2) free_page_addrs_sub by blast
  show ?thesis
  proof (rule that [OF a(1,2) _ _ _ _ _ _ a(5,4)])
    show "p \<notin> tables (mem s) R" using inv(1) a(2) by (auto simp: pt_inv_def)
    show "page_ok p" using page_addrs_ok [OF inv(1) p] .
    show "zero_page (mem s) p" using inv(2) a(2) by (simp add: clean_def)
    show "all_backed s p 4096" using inv(1) p by (simp add: pt_inv_def)
    show "pt_inv R (s\<lparr>g_allocator := a'\<rparr>)" using inv(1) a by (auto simp: pt_inv_def)
    show "clean (s\<lparr>g_allocator := a'\<rparr>)" using inv(2) a(5) by (simp add: clean_def)
  qed
qed

section \<open>Unmapping\<close>

text \<open>
  The pages that \<open>pageunmap\<close> may give back: managed pages that are not tables. They become free
  with whatever they contain, so that \<open>clean\<close> is lost.
\<close>

definition unmapped :: "u64 set \<Rightarrow> u64 \<Rightarrow> u64 set \<Rightarrow> 'a palloc_scheme \<Rightarrow> 'a palloc_scheme \<Rightarrow> bool" where
  "unmapped R root V s s' \<longleftrightarrow> pt_inv R s' \<and> page_addrs s' = page_addrs s \<and>
     tables (mem s') R = tables (mem s) R \<and> (\<forall>vb. tbl (mem s') root vb 3 = tbl (mem s) root vb 3) \<and>
     free_addrs s' = free_addrs s \<union> (\<lambda>va. PTE_PA (leaf (mem s) root va)) ` V \<and>
     (\<forall>b. (\<forall>t \<in> tables (mem s) R. b \<notin> span t 4096) \<longrightarrow> mem s' b = mem s b) \<and>
     new_leaves R root (\<lambda>vb. if \<exists>va \<in> V. same_page va vb then Some 0 else None) (mem s) (mem s')"

lemma pageunmap1_run:
  assumes inv: "pt_inv R s" and root: "root \<in> R" and t: "tbl (mem s) root va 3 \<noteq> None"
    and nz: "leaf (mem s) root va \<noteq> 0"
    and pg: "PTE_PA (leaf (mem s) root va) \<in> page_addrs s - tables (mem s) R"
  shows "wp (pageunmap1 root va) (\<lambda>_ s'. unmapped R root {va} s s') s"
proof -
  obtain t where t: "tbl (mem s) root va 3 = Some t" using t by blast
  have l: "rd64 (mem s) (pte_addr t 3 va) = leaf (mem s) root va" using t by (simp add: leaf_def)
  have pa: "pa_inv (g_allocator s)" using inv by (simp add: pt_inv_def)
  obtain a' where a: "free_page (PTE_PA (leaf (mem s) root va)) s = Inr (0, s\<lparr>g_allocator := a'\<rparr>)" "pa_inv a'"
    "page_addrs (s\<lparr>g_allocator := a'\<rparr>) = page_addrs s"
    "free_addrs (s\<lparr>g_allocator := a'\<rparr>) = insert (PTE_PA (leaf (mem s) root va)) (free_addrs s)"
    "base_pfn a' = base_pfn (g_allocator s)" "total_pages a' = total_pages (g_allocator s)"
    by (rule free_page_addrs [OF pa, of "PTE_PA (leaf (mem s) root va)"]) (use pg in blast)+
  let ?u = "s\<lparr>g_allocator := a'\<rparr>"
  have u: "pt_inv R ?u" using inv pg a by (auto simp: pt_inv_def)
  have tu: "tbl (mem ?u) root va 3 = Some t" using t by simp
  let ?s' = "?u\<lparr>mem := wr64 (mem ?u) (pte_addr t 3 va) 0\<rparr>"
  note W = leaf_write_inv [OF u root tu refl, of 0]
  have b: "all_backed s (pte_addr t 3 va) 8"
    using pt_inv_table(2) [OF inv root t] by (intro all_backed_pte) simp
  have ok: "page_ok t" using pt_inv_table(1) [OF inv root t] by simp
  have T: "tables (mem ?s') R = tables (mem s) R"
    by (rule trees_cong(1)) (use leaf_write(1) [OF u root tu _ refl] in simp)
  have "new_leaves R root (\<lambda>vb. if \<exists>va \<in> {va}. same_page va vb then Some 0 else None) (mem s) (mem ?s')"
    using leaf_write_leaf [OF u root tu, of _ 0] by (auto simp: new_leaves_def)
  moreover have "\<forall>b. (\<forall>t \<in> tables (mem s) R. b \<notin> span t 4096) \<longrightarrow> mem ?s' b = mem s b"
    using tablesI [OF root _ t] wr_pte_outside [OF ok] by simp
  ultimately have "unmapped R root {va} s ?s'"
    using W a T leaf_write(1) [OF u root tu root refl] by (simp add: unmapped_def)
  then show ?thesis
    using b nz l pagewalk_read [OF inv root, of va] t
    by (simp add: pageunmap1_def wps wp_of_run [where m = "pagewalk root va False"]
        wp_of_run [where m = "free_page (PTE_PA (leaf (mem s) root va))", OF a(1)])
qed

lemma unmapped_step:
  assumes s: "unmapped R root V s u" and u: "unmapped R root {va} u s'" and root: "root \<in> R"
    and d: "\<And>vb. vb \<in> V \<Longrightarrow> \<not> same_page vb va"
  shows "unmapped R root (insert va V) s s'"
proof -
  have l: "leaf (mem u) root va = leaf (mem s) root va"
    using s root d by (auto simp: unmapped_def new_leaves_def)
  have "new_leaves R root (\<lambda>vb. if \<exists>va \<in> insert va V. same_page va vb then Some 0 else None) (mem s) (mem s')"
    using s u unfolding unmapped_def new_leaves_def by (auto split: if_splits)
  with s u l show ?thesis by (auto simp: unmapped_def)
qed

lemma pageunmap_run:
  assumes inv: "pt_inv R s" and root: "root \<in> R"
    and al: "unat va mod 4096 = 0" "unat sz = n * 4096" and low: "unat va + n * 4096 \<le> 2 ^ 48"
    and mapd: "\<And>v. v \<in> range_pages va n \<Longrightarrow> tbl (mem s) root v 3 \<noteq> None \<and> leaf (mem s) root v \<noteq> 0 \<and>
      PTE_PA (leaf (mem s) root v) \<in> page_addrs s - tables (mem s) R"
  shows "wp (pageunmap root va sz) (\<lambda>_ s'. unmapped R root (range_pages va n) s s') s"
proof -
  have al': "va mod PAGE_SIZE = 0" "sz mod PAGE_SIZE = 0"
    using al by (simp_all add: word_unat_eq_iff unat_mod_distrib PAGE_SIZE_def)
  have "wp (mfor [0..<n] (\<lambda>k. pageunmap1 root (va + of_nat k * PAGE_SIZE)))
      (\<lambda>_. unmapped R root (range_pages va (length [0..<n])) s) s"
  proof (rule wp_mfor)
    show "unmapped R root (range_pages va 0) s s"
      using inv by (simp add: unmapped_def range_pages_def new_leaves_def)
    fix k u
    assume "k < length [0..<n]" and m: "unmapped R root (range_pages va k) s u"
    then have k: "k < n" by simp
    let ?v = "va + of_nat k * PAGE_SIZE"
    have v: "?v \<in> range_pages va n" using k by (auto simp: range_pages_def)
    have d: "\<not> same_page vb ?v" if "vb \<in> range_pages va k" for vb
      using that k range_pages_distinct [OF al(1) low _ k] by (auto simp: range_pages_def)
    have l: "leaf (mem u) root ?v = leaf (mem s) root ?v"
      using m root d by (auto simp: unmapped_def new_leaves_def)
    have "wp (pageunmap1 root ?v) (\<lambda>_ s'. unmapped R root {?v} u s') u"
      using m mapd [OF v] l root by (intro pageunmap1_run) (auto simp: unmapped_def)
    then show "wp (pageunmap1 root (va + of_nat ([0..<n] ! k) * PAGE_SIZE))
        (\<lambda>_. unmapped R root (range_pages va (Suc k)) s) u"
      using k unmapped_step [OF m _ root d]
      by (auto simp: range_pages_def lessThan_Suc elim!: wp_mono)
  qed
  then show ?thesis using al al' by (simp add: pageunmap_def)
qed

section \<open>Properties\<close>

text \<open>
  States on which the witnesses run: memory below 2 GB, 16 managed pages at 0x40000000 with the
  given bitmap, of which page 0 is in use and is the root of an empty tree.
\<close>

definition pt0 :: "u64 \<Rightarrow> palloc" where
  "pt0 w = (palloc0 [w] 16 1)\<lparr>backed := (\<lambda>a. a < 0x80000000)\<rparr>"

lemma pt0_simps [simp]: "mem (pt0 w) = (\<lambda>_. 0)" "g_allocator (pt0 w) = g_allocator (palloc0 [w] 16 1)"
  "backed (pt0 w) = (\<lambda>a. a < 0x80000000)"
  by (simp_all add: pt0_def palloc0_def machine0_def machine.defs)

lemma pt0_inv:
  assumes "bit w 0"
  shows "pt_inv {0x40000000} (pt0 w)" and "clean (pt0 w)" and "leaf (mem (pt0 w)) 0x40000000 va = 0"
    and "tables (mem (pt0 w)) {0x40000000} = {0x40000000}"
proof -
  have pa: "pa_inv (g_allocator (pt0 w))" using pa_inv_palloc0 [of 16 "[w]" 1] by simp
  have b: "base_pfn (g_allocator (pt0 w)) = 0x40000" "total_pages (g_allocator (pt0 w)) = 16"
    by (simp_all add: palloc0_def machine.defs)
  have "all_backed (pt0 w) p 4096" if p: "p \<in> page_addrs (pt0 w)" for p
  proof -
    obtain k where k: "p = page_addr (g_allocator (pt0 w)) k" "k < 16" using p b by (auto simp: page_addrs_def)
    then have "unat p = (0x40000 + k) * 4096" using unat_page_addr [OF pa, of k] b by simp
    then show ?thesis using k(2) by (simp add: all_backed_def word_less_nat_alt unat_word_ariths unat_of_nat)
  qed
  then have e: "pt_inv {} (pt0 w)" using pa b by (simp add: pt_inv_empty)
  show "clean (pt0 w)" by (simp add: clean_def zero_page_def)
  have k: "0x40000000 = page_addr (g_allocator (pt0 w)) 0"
    unfolding page_addr_def b by (simp add: pfn_to_phy_def PAGE_SHIFT_def push_bit_eq_mult)
  have "0x40000000 \<notin> free_addrs (pt0 w)"
  proof
    assume "0x40000000 \<in> free_addrs (pt0 w)"
    then obtain j where j: "j \<in> free_set (g_allocator (pt0 w))" "page_addr (g_allocator (pt0 w)) 0 = page_addr (g_allocator (pt0 w)) j"
      unfolding k by (auto simp: free_addrs_def)
    then have "0 = j" using b by (intro page_addr_inj [OF pa]) (auto simp: free_set_def)
    with j(1) assms show False by (simp add: free_set_def bm_bit_def palloc0_def machine.defs)
  qed
  moreover have "0x40000000 \<in> page_addrs (pt0 w)" using b by (auto simp: page_addrs_def k)
  moreover have "zero_page (mem (pt0 w)) 0x40000000" by (simp add: zero_page_def)
  moreover have "tables (mem (pt0 w)) {} = {}" by (simp add: tables_def)
  ultimately show "pt_inv {0x40000000} (pt0 w)" "leaf (mem (pt0 w)) 0x40000000 va = 0"
    "tables (mem (pt0 w)) {0x40000000} = {0x40000000}"
    using new_root [OF e, of "0x40000000"] by auto
qed

lemma pool_pages:
  assumes "p \<in> page_addrs s" and "g_allocator s = g_allocator (palloc0 [w] 16 1)"
  shows "span p 4096 \<subseteq> span 0x40000000 0x10000"
proof -
  from assms obtain k where k: "k < 16" "p = page_addr (g_allocator s) k"
    by (auto simp: page_addrs_def palloc0_def machine.defs)
  have "p = 0x40000000 + of_nat (k * 4096)"
    unfolding k(2) assms(2) by (simp add: page_addr_def palloc0_def machine.defs pfn_to_phy_def PAGE_SHIFT_def
      push_bit_eq_mult algebra_simps)
  then show ?thesis
    using sub_span [of "0x40000000" "0x10000" "span 0x40000000 0x10000" "k * 4096" 4096] k(1) by simp
qed

text \<open>Pages 0, 5 and 6 are in use.\<close>

lemma pt0_61: "bit (0x61 :: u64) 0" "card (free_addrs (pt0 0x61)) = 13"
  by code_simp+

text \<open>
  C1. \<open>pagemap\<close> on a page-aligned range below $2^{48}$ whose pages are not mapped yet, with
  enough free pages for the tables that may be missing, provided that every free page holds zeros
  (\<open>clean\<close>): it returns; afterwards the leaf of every page of the range points to the corresponding
  physical page with the attributes asked for; no other leaf of this tree and no leaf of any other
  guest's tree has changed; memory changes only inside tables; the new tables are pages that were
  free; and the trees still share no table. \<open>pagewalk\<close> does not clear a page that it links as a
  table, so the theorem needs the zeros; \<open>pagemap\<close> keeps the remaining free pages zero, but
  \<open>pageunmap\<close> and \<open>free_page\<close> give pages back with what they contain.
\<close>

theorem pagemap_correct:
  assumes "pt_inv R s" and "clean s" and "root \<in> R"
    and "unat va mod 4096 = 0" and "unat pa mod 4096 = 0" and "unat sz = n * 4096"
    and "unat va + n * 4096 \<le> 2 ^ 48" and "3 * (n div 512 + 2) \<le> card (free_addrs s)"
    and "\<forall>k < n. leaf (mem s) root (va + of_nat k * PAGE_SIZE) AND PTE_AF = 0"
  shows "wp (pagemap root va pa sz attr) (\<lambda>_ s'. pt_inv R s' \<and> clean s' \<and>
     (\<forall>k < n. \<forall>vb. same_page (va + of_nat k * PAGE_SIZE) vb \<longrightarrow>
        leaf (mem s') root vb = s2_entry (pa + of_nat k * PAGE_SIZE) attr) \<and>
     (\<forall>pgt \<in> R. \<forall>vb. pgt \<noteq> root \<or> (\<forall>k < n. \<not> same_page (va + of_nat k * PAGE_SIZE) vb) \<longrightarrow>
        leaf (mem s') pgt vb = leaf (mem s) pgt vb) \<and>
     tables (mem s') R = tables (mem s) R \<union> (free_addrs s - free_addrs s') \<and>
     (\<forall>b. (\<forall>t \<in> tables (mem s') R. b \<notin> span t 4096) \<longrightarrow> mem s' b = mem s b)) s"
proof -
  have m: "card (missing (mem s) root (range_pages va n)) \<le> card (free_addrs s)"
    using card_missing_range [OF assms(7), of "mem s" root] assms(8) by simp
  have V: "finite (range_pages va n)" by (simp add: range_pages_def)
  show ?thesis
  proof (rule wp_mono [OF pagemap_run [OF assms(1-7) V subset_refl m assms(9)]])
    fix s'
    assume M: "mapped R root (range_pages va n) (range_to va pa attr n) s s'"
    then have L: "leaf (mem s') pgt vb = (if pgt = root then
        (case range_to va pa attr n vb of None \<Rightarrow> leaf (mem s) root vb | Some e \<Rightarrow> e) else leaf (mem s) pgt vb)"
      if "pgt \<in> R" for pgt vb
      using that by (simp add: mapped_def new_leaves_def)
    have "\<forall>k < n. \<forall>vb. same_page (va + of_nat k * PAGE_SIZE) vb \<longrightarrow>
        leaf (mem s') root vb = s2_entry (pa + of_nat k * PAGE_SIZE) attr"
      using L [OF assms(3)] range_to_Some [OF assms(4,7)] by simp
    moreover have "\<forall>pgt \<in> R. \<forall>vb. pgt \<noteq> root \<or> (\<forall>k < n. \<not> same_page (va + of_nat k * PAGE_SIZE) vb) \<longrightarrow>
        leaf (mem s') pgt vb = leaf (mem s) pgt vb"
      unfolding range_to_None [of va pa attr n, symmetric] using L by auto
    ultimately show "pt_inv R s' \<and> clean s' \<and>
        (\<forall>k < n. \<forall>vb. same_page (va + of_nat k * PAGE_SIZE) vb \<longrightarrow>
          leaf (mem s') root vb = s2_entry (pa + of_nat k * PAGE_SIZE) attr) \<and>
        (\<forall>pgt \<in> R. \<forall>vb. pgt \<noteq> root \<or> (\<forall>k < n. \<not> same_page (va + of_nat k * PAGE_SIZE) vb) \<longrightarrow>
          leaf (mem s') pgt vb = leaf (mem s) pgt vb) \<and>
        tables (mem s') R = tables (mem s) R \<union> (free_addrs s - free_addrs s') \<and>
        (\<forall>b. (\<forall>t \<in> tables (mem s') R. b \<notin> span t 4096) \<longrightarrow> mem s' b = mem s b)"
      using M unfolding mapped_def grown_def by blast
  qed
qed

theorem pagemap_correct_witness:
  "wp (pagemap 0x40000000 0x80000000 0x40005000 0x2000 (S2PTE_NORMAL OR S2PTE_RW))
     (\<lambda>_ s'. leaf (mem s') 0x40000000 0x80001abc = 0x400064c7) (pt0 0x61)"
proof -
  have "wp (pagemap 0x40000000 0x80000000 0x40005000 0x2000 (S2PTE_NORMAL OR S2PTE_RW))
      (\<lambda>_ s'. \<forall>k < 2. \<forall>vb. same_page (0x80000000 + of_nat k * PAGE_SIZE) vb \<longrightarrow>
        leaf (mem s') 0x40000000 vb = s2_entry (0x40005000 + of_nat k * PAGE_SIZE) (S2PTE_NORMAL OR S2PTE_RW)) (pt0 0x61)"
    using pagemap_correct [OF pt0_inv(1,2) [OF pt0_61(1)], of "0x40000000" "0x80000000" "0x40005000" "0x2000" 2
        "S2PTE_NORMAL OR S2PTE_RW"] pt0_61(2) pt0_inv(3) [OF pt0_61(1)]
    by (auto elim!: wp_mono)
  then show ?thesis
  proof (rule wp_mono)
    fix s' :: palloc
    assume l: "\<forall>k < 2. \<forall>vb. same_page (0x80000000 + of_nat k * PAGE_SIZE) vb \<longrightarrow>
      leaf (mem s') 0x40000000 vb = s2_entry (0x40005000 + of_nat k * PAGE_SIZE) (S2PTE_NORMAL OR S2PTE_RW)"
    have "same_page (0x80000000 + of_nat 1 * PAGE_SIZE) 0x80001abc" by code_simp
    moreover have "s2_entry (0x40005000 + of_nat 1 * PAGE_SIZE) (S2PTE_NORMAL OR S2PTE_RW) = 0x400064c7" by code_simp
    ultimately show "leaf (mem s') 0x40000000 0x80001abc = 0x400064c7"
      using l [rule_format, of 1 "0x80001abc"] by simp
  qed
qed

text \<open>
  C7. Mapping and translating, provided that every free page holds zeros, since \<open>pagewalk\<close> does
  not clear the pages that it links as tables: after \<open>pagemap\<close> has mapped a range of guest addresses,
  with attributes outside the address bits, \<open>ipa2pa\<close> translates every byte of every page of the range
  to the byte at the same offset of the corresponding physical page.
\<close>

theorem pagemap_ipa2pa:
  assumes "pt_inv R s" and "clean s" and "root \<in> R"
    and "unat va mod 4096 = 0" and "unat pa mod 4096 = 0" and "unat sz = n * 4096"
    and "unat va + n * 4096 \<le> 2 ^ 48" and "unat pa + n * 4096 \<le> 2 ^ 48"
    and "3 * (n div 512 + 2) \<le> card (free_addrs s)"
    and "\<forall>k < n. leaf (mem s) root (va + of_nat k * PAGE_SIZE) AND PTE_AF = 0"
    and "attr AND 0xfffffffff000 = 0" and "unat off < n * 4096"
  shows "wp (mthen (pagemap root va pa sz attr) (ipa2pa root (va + off))) (\<lambda>r _. r = pa + off) s"
proof -
  let ?k = "unat off div 4096" and ?o = "unat off mod 4096"
  have k: "?k < n" using assms(12) by (simp add: div_less_iff_less_mult)
  have o: "unat off = ?k * 4096 + ?o" by simp
  have u: "unat (va + off) = unat va + unat off" "unat (pa + off) = unat pa + unat off"
    using assms(7,8,12) by (simp_all add: unat_word_ariths)
  have same: "same_page (va + of_nat ?k * PAGE_SIZE) (va + off)"
  proof (rule same_page_within)
    note v = unat_page_offset [OF assms(7) k]
    show "unat (va + of_nat ?k * PAGE_SIZE) mod 4096 = 0" using v assms(4) by (simp add: mod_eq_0_iff_dvd)
    show "unat (va + of_nat ?k * PAGE_SIZE) + 4096 \<le> 2 ^ 48" using v assms(7) k by simp
    show "unat (va + off) = unat (va + of_nat ?k * PAGE_SIZE) + ?o" using v u(1) o by linarith
  qed simp
  have pa: "PTE_PA (pa + of_nat ?k * PAGE_SIZE) + (va + off AND 0xfff) = pa + off"
  proof -
    note p = unat_page_offset [OF assms(8) k]
    have "PTE_PA (pa + of_nat ?k * PAGE_SIZE) = pa + of_nat ?k * PAGE_SIZE"
      using p assms(5,8) k by (intro PTE_PA_aligned) (simp_all add: mod_eq_0_iff_dvd)
    moreover have "unat (va + off AND 0xfff) = ?o"
      using u(1) assms(4) unat_page_off [of "va + off"] by (auto simp: mod_eq_0_iff_dvd elim!: dvdE)
    ultimately show ?thesis
      using p u(2) o assms(8,12) by (intro unsigned_word_eqI [where 'a = nat]) (simp add: unat_word_ariths)
  qed
  have m: "card (missing (mem s) root (range_pages va n)) \<le> card (free_addrs s)"
    using card_missing_range [OF assms(7), of "mem s" root] assms(9) by simp
  have V: "finite (range_pages va n)" by (simp add: range_pages_def)
  show ?thesis
    unfolding wps
  proof (rule wp_mono [OF pagemap_run [OF assms(1-7) V subset_refl m assms(10)]])
    fix s'
    assume M: "mapped R root (range_pages va n) (range_to va pa attr n) s s'"
    have "leaf (mem s') root (va + off) = s2_entry (pa + of_nat ?k * PAGE_SIZE) attr"
      using M assms(3) range_to_Some [OF assms(4,7) k same] by (simp add: mapped_def new_leaves_def)
    then have "tbl (mem s') root (va + off) 3 \<noteq> None"
      "PTE_PA (leaf (mem s') root (va + off)) = PTE_PA (pa + of_nat ?k * PAGE_SIZE)"
      using s2_entry_nonzero PTE_PA_s2_entry [OF assms(11)] leaf_tbl [of "mem s'" root "va + off"] by simp_all
    moreover have "pt_inv R s'" using M by (simp add: mapped_def)
    ultimately show "wp (ipa2pa root (va + off)) (\<lambda>r _. r = pa + off) s'"
      using ipa2pa_run [OF _ assms(3), of s' "va + off"] pa by (auto simp: wp_def)
  qed
qed

theorem pagemap_ipa2pa_witness:
  "wp (mthen (pagemap 0x40000000 0x80000000 0x40005000 0x2000 (S2PTE_NORMAL OR S2PTE_RW))
      (ipa2pa 0x40000000 (0x80000000 + 0x1abc))) (\<lambda>r _. r = 0x40005000 + 0x1abc) (pt0 0x61)"
proof -
  have "(S2PTE_NORMAL OR S2PTE_RW) AND 0xfffffffff000 = 0" by code_simp
  then show ?thesis
    using pt0_61(2) pt0_inv(3) [OF pt0_61(1)]
    by (intro pagemap_ipa2pa [OF pt0_inv(1,2) [OF pt0_61(1)], where n = 2]) simp_all
qed

text \<open>
  C8. \<open>pageunmap\<close> on a range whose pages are all mapped to managed pages that are not tables: it
  returns; the leaves of the range become zero and no other leaf of any tree changes; exactly the
  physical pages that were mapped become free; and memory changes only inside tables, so that these
  pages are given back with what they contain.
\<close>

theorem pageunmap_correct:
  assumes "pt_inv R s" and "root \<in> R" and "unat va mod 4096 = 0" and "unat sz = n * 4096"
    and "unat va + n * 4096 \<le> 2 ^ 48"
    and "\<forall>v \<in> range_pages va n. leaf (mem s) root v \<noteq> 0 \<and>
      PTE_PA (leaf (mem s) root v) \<in> page_addrs s - tables (mem s) R"
  shows "wp (pageunmap root va sz) (\<lambda>_ s'. pt_inv R s' \<and>
     free_addrs s' = free_addrs s \<union> (\<lambda>v. PTE_PA (leaf (mem s) root v)) ` range_pages va n \<and>
     (\<forall>b. (\<forall>t \<in> tables (mem s) R. b \<notin> span t 4096) \<longrightarrow> mem s' b = mem s b) \<and>
     (\<forall>pgt \<in> R. \<forall>vb. leaf (mem s') pgt vb =
        (if pgt = root \<and> (\<exists>v \<in> range_pages va n. same_page v vb) then 0 else leaf (mem s) pgt vb))) s"
proof (rule wp_mono [OF pageunmap_run [OF assms(1-5)]])
  fix v
  assume "v \<in> range_pages va n"
  then show "tbl (mem s) root v 3 \<noteq> None \<and> leaf (mem s) root v \<noteq> 0 \<and>
      PTE_PA (leaf (mem s) root v) \<in> page_addrs s - tables (mem s) R"
    using assms(6) leaf_tbl by blast
next
  fix s'
  assume U: "unmapped R root (range_pages va n) s s'"
  then have "\<forall>pgt \<in> R. \<forall>vb. leaf (mem s') pgt vb =
      (if pgt = root \<and> (\<exists>v \<in> range_pages va n. same_page v vb) then 0 else leaf (mem s) pgt vb)"
    by (auto simp: unmapped_def new_leaves_def)
  with U show "pt_inv R s' \<and>
     free_addrs s' = free_addrs s \<union> (\<lambda>v. PTE_PA (leaf (mem s) root v)) ` range_pages va n \<and>
     (\<forall>b. (\<forall>t \<in> tables (mem s) R. b \<notin> span t 4096) \<longrightarrow> mem s' b = mem s b) \<and>
     (\<forall>pgt \<in> R. \<forall>vb. leaf (mem s') pgt vb =
        (if pgt = root \<and> (\<exists>v \<in> range_pages va n. same_page v vb) then 0 else leaf (mem s) pgt vb))"
    unfolding unmapped_def by blast
qed

theorem pageunmap_correct_witness:
  "wp (mthen (pagemap 0x40000000 0x80000000 0x40005000 0x2000 (S2PTE_NORMAL OR S2PTE_RW))
      (pageunmap 0x40000000 0x80000000 0x2000))
     (\<lambda>_ s'. leaf (mem s') 0x40000000 0x80001000 = 0 \<and> 0x40006000 \<in> free_addrs s') (pt0 0x61)"
  unfolding wp_prims(5)
proof (rule wp_mono)
  let ?attr = "S2PTE_NORMAL OR S2PTE_RW"
  let ?V = "range_pages 0x80000000 2"
  have V: "?V = {0x80000000, 0x80001000}" by code_simp
  have m: "card (missing (mem (pt0 0x61)) 0x40000000 ?V) \<le> card (free_addrs (pt0 0x61))"
    using card_missing_range [of "0x80000000" 2 "mem (pt0 0x61)" "0x40000000"] pt0_61(2) by simp
  have "\<forall>k < 2. leaf (mem (pt0 0x61)) 0x40000000 (0x80000000 + of_nat k * PAGE_SIZE) AND PTE_AF = 0"
    using pt0_inv(3) [OF pt0_61(1)] by simp
  then show "wp (pagemap 0x40000000 0x80000000 0x40005000 0x2000 ?attr)
      (\<lambda>_ s'. mapped {0x40000000} 0x40000000 ?V (range_to 0x80000000 0x40005000 ?attr 2) (pt0 0x61) s') (pt0 0x61)"
    using m V by (intro pagemap_run [OF pt0_inv(1,2) [OF pt0_61(1)]]) simp_all
  fix s'
  assume M: "mapped {0x40000000} 0x40000000 ?V (range_to 0x80000000 0x40005000 ?attr 2) (pt0 0x61) s'"
  have p: "0x40005000 \<in> page_addrs (pt0 0x61) - free_addrs (pt0 0x61)"
    "0x40006000 \<in> page_addrs (pt0 0x61) - free_addrs (pt0 0x61)" by code_simp+
  have "range_to 0x80000000 0x40005000 ?attr 2 0x80000000 = Some (s2_entry 0x40005000 ?attr)"
    "range_to 0x80000000 0x40005000 ?attr 2 0x80001000 = Some (s2_entry 0x40006000 ?attr)" by code_simp+
  then have l: "leaf (mem s') 0x40000000 0x80000000 = s2_entry 0x40005000 ?attr"
    "leaf (mem s') 0x40000000 0x80001000 = s2_entry 0x40006000 ?attr"
    using M by (simp_all add: mapped_def new_leaves_def)
  have e: "PTE_PA (s2_entry 0x40005000 ?attr) = 0x40005000" "PTE_PA (s2_entry 0x40006000 ?attr) = 0x40006000"
    by code_simp+
  have T: "0x40005000 \<notin> tables (mem (pt0 0x61)) {0x40000000}" "0x40006000 \<notin> tables (mem (pt0 0x61)) {0x40000000}"
    using pt0_inv(4) [OF pt0_61(1)] by auto
  have "\<forall>v \<in> ?V. leaf (mem s') 0x40000000 v \<noteq> 0 \<and>
      PTE_PA (leaf (mem s') 0x40000000 v) \<in> page_addrs s' - tables (mem s') {0x40000000}"
    using M p l e T s2_entry_nonzero by (auto simp: V mapped_def grown_def)
  with M have "wp (pageunmap 0x40000000 0x80000000 0x2000) (\<lambda>_ s''. pt_inv {0x40000000} s'' \<and>
     free_addrs s'' = free_addrs s' \<union> (\<lambda>v. PTE_PA (leaf (mem s') 0x40000000 v)) ` ?V \<and>
     (\<forall>b. (\<forall>t \<in> tables (mem s') {0x40000000}. b \<notin> span t 4096) \<longrightarrow> mem s'' b = mem s' b) \<and>
     (\<forall>pgt \<in> {0x40000000}. \<forall>vb. leaf (mem s'') pgt vb =
        (if pgt = 0x40000000 \<and> (\<exists>v \<in> ?V. same_page v vb) then 0 else leaf (mem s') pgt vb))) s'"
    by (intro pageunmap_correct) (auto simp: mapped_def)
  then show "wp (pageunmap 0x40000000 0x80000000 0x2000)
      (\<lambda>_ s'. leaf (mem s') 0x40000000 0x80001000 = 0 \<and> 0x40006000 \<in> free_addrs s') s'"
    by (rule wp_mono) (use l e in \<open>auto simp: V same_page_def\<close>)
qed



end
