(* ===== verification/Objects.thy ===== *)
theory Objects
  imports Mmu
begin

text \<open>
  The objects of the hypervisor and its global state: the structures of \<open>include/vm.h\<close>,
  \<open>include/vcpu.h\<close>, \<open>include/vgic.h\<close>, \<open>include/gic.h\<close>, \<open>include/mmio.h\<close> and
  \<open>include/virtio.h\<close>, and the static variables of the source files. A pointer to an element of
  a static array is the index of the element, NULL is None; an access to an element that the
  array does not have is a fault. \<open>slot_alloc\<close> is the search loop that every static pool of
  the hypervisor uses.
\<close>

section \<open>Structures\<close>

definition VCPU_MAX :: nat where "VCPU_MAX = 4"
definition VM_MAX :: nat where "VM_MAX = 2"
definition PCPU_NUM :: nat where "PCPU_NUM = 4"
definition PCPU_NUM_MAX :: nat where "PCPU_NUM_MAX = 32"
definition MMIO_INFO_MAX :: nat where "MMIO_INFO_MAX = 64"

record gic_state =
  gic_lr :: "u64 list"
  vmcr_el2 :: u64
  sre_el1 :: u32

record vgic_irq =
  irq_priority :: u8
  irq_target :: u8
  irq_enabled :: bool
  igroup :: bool

record vgic =
  vgic_used :: bool
  max_spi_intid :: int
  spi_nums :: int
  enable_grp1ns :: bool
  spis :: u64
  vgic_lock :: spinlock

record vgic_cpu =
  vgic_cpu_used :: bool
  used_lr :: u16
  sgis :: "vgic_irq list"
  ppis :: "vgic_irq list"

datatype vcpu_state = UNUSED | CREATED | READY | RUNNING

record vcpu_reg =
  gpr :: "u64 list"
  spsr_el2 :: u64
  elr_el2 :: u64

record vcpu_sys =
  spsr_el1 :: u64
  elr_el1 :: u64
  mpidr_el1 :: u64
  midr_el1 :: u64
  sp_el0 :: u64
  sp_el1 :: u64
  ttbr0_el1 :: u64
  ttbr1_el1 :: u64
  tcr_el1 :: u64
  vbar_el1 :: u64
  sctlr_el1 :: u64
  cntv_ctl_el0 :: u64
  cntv_tval_el0 :: u64
  cntfrq_el0 :: u64

record vcpu =
  vreg :: vcpu_reg
  vsys :: vcpu_sys
  vcpu_name :: string
  vstate :: vcpu_state
  pfr0 :: u64
  vcpu_gic :: gic_state
  vcpu_vgic :: "nat option"
  vcpu_vm :: "nat option"
  vcpu_cpuid :: int

text \<open>The functions that are registered as handlers of emulated memory.\<close>

datatype mmio_handler = Virtio_mmio | Vgicd_mmio | Vgicr_mmio

datatype syndrome_access_size = SAS_BYTE | SAS_HALFWORD | SAS_WORD | SAS_DOUBLEWORD

record mmio_access =
  acc_ipa :: u64
  acc_pc :: u64
  iss_sas :: syndrome_access_size
  iss_wnr :: u32

record mmio_info =
  mmio_next :: "nat option"
  ipa_base :: u64
  mmio_size :: u64
  mmio_read :: "mmio_handler option"
  mmio_write :: "mmio_handler option"

record vm =
  vm_name :: string
  nvcpu :: int
  vm_vcpus :: "nat option list"
  stage2_pt :: u64
  vm_vgic :: "nat option"
  mmio_list :: "nat option"
  vm_used :: bool
  fdt :: u64

record guest =
  guest_name :: string
  guest_start :: u64
  guest_size :: u64
  guest_end :: u64

record vmconfig =
  guest_img :: "guest option"
  fdt_img :: "guest option"
  initrd_img :: "guest option"
  cfg_nvcpu :: int
  ram_size :: u64
  entrypoint :: u64

record virt_queue =
  virtq_lock :: spinlock
  vring_num :: u64
  vring_ipa :: u64
  vring_pa :: u64
  avail_idx :: u16
  vq_desc :: u64
  vq_avail :: u64
  vq_used :: u64

section \<open>The global state\<close>

text \<open>
  Addresses the linker chooses: the start of the managed RAM and of the image, the boot stack,
  the guest and file-system images, the entry point, the vector table and the array \<open>vcpus\<close>.
\<close>

record image =
  ram_start :: u64
  txt_start :: u64
  primary_stack_start :: u64
  primary_stack_end :: u64
  xv6_start :: u64
  xv6_size :: u64
  xv6_end :: u64
  fs_img_start :: u64
  fs_img_size :: u64
  start_addr :: u64
  vector_table :: u64
  vcpus_addr :: u64

record hyp = palloc +
  img :: image
  g_spi_num :: u32
  g_gic_lr_max :: u32
  vcpus :: "vcpu list"
  g_vcpus_lock :: spinlock
  g_vms :: "vm list"
  g_vgic :: "vgic list"
  g_vgic_cpu :: "vgic_cpu list"
  g_vgic_lock :: spinlock
  g_vgic_cpu_lock :: spinlock
  g_mmio_info :: "mmio_info list"
  g_mmio_lock :: spinlock
  guest_pagesz :: u64
  g_queue_sel :: u64
  g_vq :: virt_queue
  ramdisk_start :: u64
  ramdisk_size :: u64
  g_sp_bottom :: "u64 list"
  g_sp_top :: "u64 list"
  g_freq :: u64
  log_level :: int
  cpu_x :: "u64 list"
  cpu_sp :: u64

text \<open>\<open>cpu_x\<close> and \<open>cpu_sp\<close> are the general registers and the EL2 stack pointer of the executing
  processor; only the exception entry and exit code of \<open>src/vector.S\<close> uses them.\<close>

type_synonym 'r hcomp = "(hyp, 'r) comp"

text \<open>
  The state in which the primary processor enters \<open>hyp_main\<close>: the static variables are zero, as
  the loader leaves them. The addresses of the image are examples; witnesses run on this state.
\<close>

definition gic_state0 :: gic_state where
  "gic_state0 = \<lparr>gic_lr = replicate 16 0, vmcr_el2 = 0, sre_el1 = 0\<rparr>"

definition irq0 :: vgic_irq where
  "irq0 = \<lparr>irq_priority = 0, irq_target = 0, irq_enabled = False, igroup = False\<rparr>"

definition vgic0 :: vgic where
  "vgic0 = \<lparr>vgic_used = False, max_spi_intid = 0, spi_nums = 0, enable_grp1ns = False, spis = 0,
     vgic_lock = spinlock_init\<rparr>"

definition vgic_cpu0 :: vgic_cpu where
  "vgic_cpu0 = \<lparr>vgic_cpu_used = False, used_lr = 0, sgis = replicate 16 irq0, ppis = replicate 16 irq0\<rparr>"

definition vcpu_sys0 :: vcpu_sys where
  "vcpu_sys0 = \<lparr>spsr_el1 = 0, elr_el1 = 0, mpidr_el1 = 0, midr_el1 = 0, sp_el0 = 0, sp_el1 = 0,
     ttbr0_el1 = 0, ttbr1_el1 = 0, tcr_el1 = 0, vbar_el1 = 0, sctlr_el1 = 0, cntv_ctl_el0 = 0,
     cntv_tval_el0 = 0, cntfrq_el0 = 0\<rparr>"

definition vcpu0 :: vcpu where
  "vcpu0 = \<lparr>vreg = \<lparr>gpr = replicate 31 0, spsr_el2 = 0, elr_el2 = 0\<rparr>, vsys = vcpu_sys0, vcpu_name = [],
     vstate = UNUSED, pfr0 = 0, vcpu_gic = gic_state0, vcpu_vgic = None, vcpu_vm = None, vcpu_cpuid = 0\<rparr>"

definition mmio_info0 :: mmio_info where
  "mmio_info0 = \<lparr>mmio_next = None, ipa_base = 0, mmio_size = 0, mmio_read = None, mmio_write = None\<rparr>"

definition vm0 :: vm where
  "vm0 = \<lparr>vm_name = [], nvcpu = 0, vm_vcpus = replicate VCPU_MAX None, stage2_pt = 0, vm_vgic = None,
     mmio_list = None, vm_used = False, fdt = 0\<rparr>"

definition image0 :: image where
  "image0 = \<lparr>ram_start = 0x41000000, txt_start = 0x40000000, primary_stack_start = 0x40200000,
     primary_stack_end = 0x40201000, xv6_start = 0x40300000, xv6_size = 0x1800, xv6_end = 0x40301800,
     fs_img_start = 0x40400000, fs_img_size = 0xfa000, start_addr = 0x40000000,
     vector_table = 0x40000800, vcpus_addr = 0x40100000\<rparr>"

definition hyp0 :: hyp where
  "hyp0 = \<lparr>mem = (\<lambda>_. 0), backed = (\<lambda>_. True), trace = [], dev = (\<lambda>_ _. 0), pcpu = 0, poll_bound = 1,
     g_allocator = \<lparr>pa_lock = spinlock_init, bitmap = [], total_pages = 0, base_pfn = 0, last_alloc = 0\<rparr>,
     img = image0, g_spi_num = 0, g_gic_lr_max = 0, vcpus = replicate VCPU_MAX vcpu0,
     g_vcpus_lock = spinlock_init, g_vms = replicate VM_MAX vm0, g_vgic = replicate VM_MAX vgic0,
     g_vgic_cpu = replicate VCPU_MAX vgic_cpu0, g_vgic_lock = spinlock_init,
     g_vgic_cpu_lock = spinlock_init, g_mmio_info = replicate MMIO_INFO_MAX mmio_info0,
     g_mmio_lock = spinlock_init, guest_pagesz = 0, g_queue_sel = 0,
     g_vq = \<lparr>virtq_lock = spinlock_init, vring_num = 0, vring_ipa = 0, vring_pa = 0, avail_idx = 0,
       vq_desc = 0, vq_avail = 0, vq_used = 0\<rparr>,
     ramdisk_start = 0, ramdisk_size = 0,
     g_sp_bottom = primary_stack_end image0 # replicate (PCPU_NUM_MAX - 1) 0,
     g_sp_top = replicate PCPU_NUM_MAX 0, g_freq = 0, log_level = 4,
     cpu_x = replicate 31 0, cpu_sp = primary_stack_end image0\<rparr>"

lemmas hyp0_defs = hyp0_def gic_state0_def irq0_def vgic0_def vgic_cpu0_def vcpu_sys0_def vcpu0_def
  mmio_info0_def vm0_def image0_def VCPU_MAX_def VM_MAX_def MMIO_INFO_MAX_def PCPU_NUM_MAX_def

section \<open>Access through pointers\<close>

definition vcpu_at :: "nat \<Rightarrow> vcpu hcomp" where
  "vcpu_at i = mbind (mget vcpus) (\<lambda>vs. mnth vs i)"

definition vm_at :: "nat \<Rightarrow> vm hcomp" where
  "vm_at i = mbind (mget g_vms) (\<lambda>vs. mnth vs i)"

definition vgic_at :: "nat \<Rightarrow> vgic hcomp" where
  "vgic_at i = mbind (mget g_vgic) (\<lambda>vs. mnth vs i)"

definition vgic_cpu_at :: "nat \<Rightarrow> vgic_cpu hcomp" where
  "vgic_cpu_at i = mbind (mget g_vgic_cpu) (\<lambda>vs. mnth vs i)"

definition mmio_info_at :: "nat \<Rightarrow> mmio_info hcomp" where
  "mmio_info_at i = mbind (mget g_mmio_info) (\<lambda>vs. mnth vs i)"

definition upd_vcpu :: "nat \<Rightarrow> (vcpu \<Rightarrow> vcpu) \<Rightarrow> unit hcomp" where
  "upd_vcpu i f = mthen (vcpu_at i) (mmod (vcpus_update (\<lambda>vs. vs[i := f (vs ! i)])))"

definition upd_vm :: "nat \<Rightarrow> (vm \<Rightarrow> vm) \<Rightarrow> unit hcomp" where
  "upd_vm i f = mthen (vm_at i) (mmod (g_vms_update (\<lambda>vs. vs[i := f (vs ! i)])))"

definition upd_vgic :: "nat \<Rightarrow> (vgic \<Rightarrow> vgic) \<Rightarrow> unit hcomp" where
  "upd_vgic i f = mthen (vgic_at i) (mmod (g_vgic_update (\<lambda>vs. vs[i := f (vs ! i)])))"

definition upd_vgic_cpu :: "nat \<Rightarrow> (vgic_cpu \<Rightarrow> vgic_cpu) \<Rightarrow> unit hcomp" where
  "upd_vgic_cpu i f = mthen (vgic_cpu_at i) (mmod (g_vgic_cpu_update (\<lambda>vs. vs[i := f (vs ! i)])))"

definition upd_mmio_info :: "nat \<Rightarrow> (mmio_info \<Rightarrow> mmio_info) \<Rightarrow> unit hcomp" where
  "upd_mmio_info i f = mthen (mmio_info_at i) (mmod (g_mmio_info_update (\<lambda>vs. vs[i := f (vs ! i)])))"

lemma run_at [run]:
  "vcpu_at i s = (if i < length (vcpus s) then Inr (vcpus s ! i, s) else Inl Out_Of_Bounds)"
  "vm_at i s = (if i < length (g_vms s) then Inr (g_vms s ! i, s) else Inl Out_Of_Bounds)"
  "vgic_at i s = (if i < length (g_vgic s) then Inr (g_vgic s ! i, s) else Inl Out_Of_Bounds)"
  "vgic_cpu_at i s = (if i < length (g_vgic_cpu s) then Inr (g_vgic_cpu s ! i, s) else Inl Out_Of_Bounds)"
  "mmio_info_at i s = (if i < length (g_mmio_info s) then Inr (g_mmio_info s ! i, s) else Inl Out_Of_Bounds)"
  by (simp_all add: vcpu_at_def vm_at_def vgic_at_def vgic_cpu_at_def mmio_info_at_def run)

lemma run_upd [run]:
  "upd_vcpu i f s = (if i < length (vcpus s) then Inr ((), s\<lparr>vcpus := (vcpus s)[i := f (vcpus s ! i)]\<rparr>)
     else Inl Out_Of_Bounds)"
  "upd_vm i g s = (if i < length (g_vms s) then Inr ((), s\<lparr>g_vms := (g_vms s)[i := g (g_vms s ! i)]\<rparr>)
     else Inl Out_Of_Bounds)"
  "upd_vgic i h s = (if i < length (g_vgic s) then Inr ((), s\<lparr>g_vgic := (g_vgic s)[i := h (g_vgic s ! i)]\<rparr>)
     else Inl Out_Of_Bounds)"
  "upd_vgic_cpu i k s = (if i < length (g_vgic_cpu s)
     then Inr ((), s\<lparr>g_vgic_cpu := (g_vgic_cpu s)[i := k (g_vgic_cpu s ! i)]\<rparr>) else Inl Out_Of_Bounds)"
  "upd_mmio_info i l s = (if i < length (g_mmio_info s)
     then Inr ((), s\<lparr>g_mmio_info := (g_mmio_info s)[i := l (g_mmio_info s ! i)]\<rparr>) else Inl Out_Of_Bounds)"
  by (simp_all add: upd_vcpu_def upd_vm_def upd_vgic_def upd_vgic_cpu_def upd_mmio_info_def run)

text \<open>
  \<open>cur_vcpu\<close> reads the pointer to the current vcpu from \<open>tpidr_el2\<close>: element \<open>i\<close> of the array
  \<open>vcpus\<close> stands at \<open>vcpus_addr + i * sizeof (struct vcpu)\<close>. Any other value points to no vcpu.
\<close>

definition sizeof_vcpu :: u64 where "sizeof_vcpu = 568"

definition vcpu_ptr :: "hyp \<Rightarrow> nat \<Rightarrow> u64" where
  "vcpu_ptr s i = vcpus_addr (img s) + of_nat i * sizeof_vcpu"

definition vcpu_of_ptr :: "hyp \<Rightarrow> u64 \<Rightarrow> nat option" where
  "vcpu_of_ptr s p = List.find (\<lambda>i. vcpu_ptr s i = p) [0..<length (vcpus s)]"

definition cur_vcpu :: "nat hcomp" where
  "cur_vcpu = mbind (read_sysreg ''tpidr_el2'') (\<lambda>p.
     mbind (mget (\<lambda>s. vcpu_of_ptr s p)) mthe)"

definition vcpu_running :: "nat \<Rightarrow> bool hcomp" where
  "vcpu_running i = mbind (vcpu_at i) (\<lambda>v. mret (vstate v = RUNNING))"

text \<open>The virtual machine of a vcpu.\<close>

definition vm_of :: "nat \<Rightarrow> nat hcomp" where
  "vm_of i = mbind (vcpu_at i) (\<lambda>v. mthe (vcpu_vm v))"

section \<open>Static pools\<close>

definition first_free :: "('x \<Rightarrow> bool) \<Rightarrow> 'x list \<Rightarrow> nat option" where
  "first_free free xs = List.find (\<lambda>i. free (xs ! i)) [0..<length xs]"

definition slot_alloc :: "('s \<Rightarrow> 'x list) \<Rightarrow> (('x list \<Rightarrow> 'x list) \<Rightarrow> 's \<Rightarrow> 's) \<Rightarrow>
    ('x \<Rightarrow> bool) \<Rightarrow> ('x \<Rightarrow> 'x) \<Rightarrow> ('s, nat option) comp" where
  "slot_alloc get put free mark = mbind (mget get) (\<lambda>xs.
     case first_free free xs of
       None \<Rightarrow> mret None
     | Some i \<Rightarrow> mthen (mmod (put (\<lambda>xs. xs[i := mark (xs ! i)]))) (mret (Some i)))"

lemma first_free_None: "first_free free xs = None \<longleftrightarrow> (\<forall>y \<in> set xs. \<not> free y)"
  by (auto simp: first_free_def find_None_iff all_set_conv_all_nth)

lemma first_free_Some:
  "first_free free xs = Some i \<longleftrightarrow> i < length xs \<and> free (xs ! i) \<and> (\<forall>j < i. \<not> free (xs ! j))"
proof
  assume "first_free free xs = Some i"
  then obtain k where k: "k < length xs" "free (xs ! k)" "i = k" "\<forall>j < k. \<not> free (xs ! j)"
    by (auto simp: first_free_def find_Some_iff)
  then show "i < length xs \<and> free (xs ! i) \<and> (\<forall>j < i. \<not> free (xs ! j))" by simp
next
  assume "i < length xs \<and> free (xs ! i) \<and> (\<forall>j < i. \<not> free (xs ! j))"
  then show "first_free free xs = Some i" by (auto simp: first_free_def find_Some_iff)
qed

text \<open>
  The contract of a pool whose elements are taken by marking them: a call takes the free element
  with the smallest index and fails only when none is left, and no element is taken twice.
\<close>

locale slot_pool =
  fixes get :: "'s \<Rightarrow> 'x list" and put :: "('x list \<Rightarrow> 'x list) \<Rightarrow> 's \<Rightarrow> 's"
    and free :: "'x \<Rightarrow> bool" and mark :: "'x \<Rightarrow> 'x"
  assumes get_put: "get (put f s) = f (get s)"
    and marked: "\<not> free (mark y)"
begin

lemma slot_alloc_run:
  "slot_alloc get put free mark s = (case first_free free (get s) of
     None \<Rightarrow> Inr (None, s)
   | Some i \<Rightarrow> Inr (Some i, put (\<lambda>xs. xs[i := mark (xs ! i)]) s))"
  by (simp add: slot_alloc_def run split: option.split)

lemma slot_alloc_some:
  assumes "slot_alloc get put free mark s = Inr (Some i, s')"
  shows "i < length (get s) \<and> free (get s ! i) \<and> get s' = (get s)[i := mark (get s ! i)]"
  using assms by (auto simp: slot_alloc_run get_put first_free_Some split: option.splits)

lemma slot_alloc_none:
  "slot_alloc get put free mark s = Inr (None, s') \<longleftrightarrow> s' = s \<and> (\<forall>y \<in> set (get s). \<not> free y)"
  by (auto simp: slot_alloc_run first_free_None first_free_Some split: option.splits)

lemma slot_alloc_taken:
  assumes "slot_alloc get put free mark s = Inr (Some i, s')"
    and "slot_alloc get put free mark s' = Inr (Some j, s'')"
  shows "i \<noteq> j"
  using slot_alloc_some [OF assms(1)] slot_alloc_some [OF assms(2)] marked by auto

lemma slot_alloc_total: "\<exists>r s'. slot_alloc get put free mark s = Inr (r, s')"
  by (simp add: slot_alloc_run split: option.split)

end

text \<open>
  A pool that a lock protects: the search runs between \<open>spin_lock\<close> and \<open>spin_unlock\<close>, whatever
  its outcome.
\<close>

definition locked_alloc :: "('s \<Rightarrow> 'x list) \<Rightarrow> (('x list \<Rightarrow> 'x list) \<Rightarrow> 's \<Rightarrow> 's) \<Rightarrow>
    ('x \<Rightarrow> bool) \<Rightarrow> ('x \<Rightarrow> 'x) \<Rightarrow> ('s \<Rightarrow> spinlock) \<Rightarrow> ((spinlock \<Rightarrow> spinlock) \<Rightarrow> 's \<Rightarrow> 's) \<Rightarrow>
    ('s, nat option) comp" where
  "locked_alloc get put free mark getl putl =
     mthen (mlock getl putl)
     (mbind (slot_alloc get put free mark) (\<lambda>r. mthen (munlock putl) (mret r)))"

locale locked_pool = pool: slot_pool get put free mark + lk: lock_part getl putl
  for get :: "'s \<Rightarrow> 'x list" and put :: "('x list \<Rightarrow> 'x list) \<Rightarrow> 's \<Rightarrow> 's"
    and free :: "'x \<Rightarrow> bool" and mark :: "'x \<Rightarrow> 'x"
    and getl :: "'s \<Rightarrow> spinlock" and putl :: "(spinlock \<Rightarrow> spinlock) \<Rightarrow> 's \<Rightarrow> 's" +
  assumes get_putl: "get (putl f s) = get s"
    and put_putl: "putl f (put g s) = put g (putl f s)"
begin

lemma locked_alloc_run:
  assumes "spin_free (getl s)"
  shows "locked_alloc get put free mark getl putl s =
    (case first_free free (get s) of
       None \<Rightarrow> Inr (None, putl (\<lambda>_. lock_cycle (getl s)) s)
     | Some i \<Rightarrow> Inr (Some i, put (\<lambda>xs. xs[i := mark (xs ! i)]) (putl (\<lambda>_. lock_cycle (getl s)) s)))"
proof -
  have "putl spin_unlock (putl (\<lambda>_. (getl s)\<lparr>ticket := ticket (getl s) + 1\<rparr>) s) =
      putl (\<lambda>_. lock_cycle (getl s)) s"
    by (simp only: lk.put_put) (simp add: lock_unlock_eq)
  then show ?thesis
    using assms by (simp add: locked_alloc_def run pool.slot_alloc_run get_putl put_putl split: option.split)
qed

lemma locked_alloc_held:
  "\<not> spin_free (getl s) \<Longrightarrow> locked_alloc get put free mark getl putl s = Inl Deadlock"
  by (simp add: locked_alloc_def run)

end

text \<open>The pools and the locks of the hypervisor.\<close>

interpretation vm_pool: slot_pool g_vms g_vms_update "\<lambda>v. \<not> vm_used v" "vm_used_update (\<lambda>_. True)"
  by unfold_locales simp_all

interpretation vcpu_pool: locked_pool vcpus vcpus_update "\<lambda>v. vstate v = UNUSED" "vstate_update (\<lambda>_. CREATED)"
    g_vcpus_lock g_vcpus_lock_update
  by unfold_locales (simp_all add: hyp.equality)

interpretation vgic_pool: locked_pool g_vgic g_vgic_update "\<lambda>v. \<not> vgic_used v" "vgic_used_update (\<lambda>_. True)"
    g_vgic_cpu_lock g_vgic_cpu_lock_update
  by unfold_locales (simp_all add: hyp.equality)

interpretation vgic_cpu_pool: locked_pool g_vgic_cpu g_vgic_cpu_update "\<lambda>v. \<not> vgic_cpu_used v"
    "vgic_cpu_used_update (\<lambda>_. True)" g_vgic_cpu_lock g_vgic_cpu_lock_update
  by unfold_locales (simp_all add: hyp.equality)

interpretation mmio_pool: locked_pool g_mmio_info g_mmio_info_update "\<lambda>m. mmio_size m = 0"
    "\<lambda>m. m\<lparr>mmio_size := 1, mmio_next := prev\<rparr>" g_mmio_lock g_mmio_lock_update for prev
  by unfold_locales (simp_all add: hyp.equality)

interpretation vgic_lock_part: lock_part g_vgic_lock g_vgic_lock_update
  by unfold_locales (simp_all add: hyp.equality)

interpretation virtq_lock_part: lock_part "\<lambda>s. virtq_lock (g_vq s)" "\<lambda>f. g_vq_update (virtq_lock_update f)"
  by unfold_locales (simp_all add: hyp.equality virt_queue.equality)

end
