(* ===== verification/Gic.thy ===== *)
theory Gic
  imports Objects
begin

text \<open>
  The physical interrupt controller: \<open>src/gic_v3.c\<close> and the register layout of
  \<open>include/gic.h\<close>. Distributor and redistributor registers are volatile accesses, the CPU and
  hypervisor interfaces are system registers; both are events of the machine, so that the
  lemmas say which accesses a function makes and in which order.
\<close>

section \<open>Register layout (\<open>include/gic.h\<close>)\<close>

definition GIC_NSGI :: nat where "GIC_NSGI = 16"
definition GIC_NPPI :: nat where "GIC_NPPI = 16"
definition GIC_SPI0_INTNO :: nat where "GIC_SPI0_INTNO = 32"
definition GIC_PPI_MAX :: nat where "GIC_PPI_MAX = 31"

definition is_sgi :: "int \<Rightarrow> bool" where "is_sgi intid \<longleftrightarrow> 0 \<le> intid \<and> intid < 16"
definition is_ppi :: "int \<Rightarrow> bool" where "is_ppi intid \<longleftrightarrow> 16 \<le> intid \<and> intid < 32"
definition is_sgi_ppi :: "int \<Rightarrow> bool" where "is_sgi_ppi intid \<longleftrightarrow> is_sgi intid \<or> is_ppi intid"
definition is_spi :: "int \<Rightarrow> bool" where "is_spi intid \<longleftrightarrow> 32 \<le> intid"

definition ICH_HCR_EN :: u64 where "ICH_HCR_EN = 1"
definition ICH_VMCR_VENG1 :: u64 where "ICH_VMCR_VENG1 = 2"

definition ICH_LR_VINTID :: "u64 \<Rightarrow> u64" where "ICH_LR_VINTID n = n AND 0xffffffff"
definition ICH_LR_PINTID :: "u64 \<Rightarrow> u64" where "ICH_LR_PINTID n = push_bit 32 (n AND 0x1fff)"
definition ICH_LR_GROUP :: "u64 \<Rightarrow> u64" where "ICH_LR_GROUP n = push_bit 60 (n AND 1)"
definition ICH_LR_HW :: u64 where "ICH_LR_HW = push_bit 61 1"
definition ICH_LR_STATE :: "u64 \<Rightarrow> u64" where "ICH_LR_STATE n = push_bit 62 (n AND 3)"
definition LR_INACTIVE :: u64 where "LR_INACTIVE = 0"
definition LR_PENDING :: u64 where "LR_PENDING = 1"
definition LR_ACTIVE :: u64 where "LR_ACTIVE = 2"
definition LR_PENDACT :: u64 where "LR_PENDACT = 3"

definition lr_is_inactive :: "u64 \<Rightarrow> bool" where "lr_is_inactive v \<longleftrightarrow> drop_bit 62 v AND 3 = LR_INACTIVE"
definition lr_is_pending :: "u64 \<Rightarrow> bool" where "lr_is_pending v \<longleftrightarrow> drop_bit 62 v AND 3 = LR_PENDING"
definition lr_is_active :: "u64 \<Rightarrow> bool" where "lr_is_active v \<longleftrightarrow> drop_bit 62 v AND 3 = LR_ACTIVE"
definition lr_is_pendact :: "u64 \<Rightarrow> bool" where "lr_is_pendact v \<longleftrightarrow> drop_bit 62 v AND 3 = LR_PENDACT"

definition GICD_CTLR :: u64 where "GICD_CTLR = 0x0"
definition GICD_TYPER :: u64 where "GICD_TYPER = 0x4"
definition GICD_IIDR :: u64 where "GICD_IIDR = 0x8"
definition GICD_TYPER2 :: u64 where "GICD_TYPER2 = 0xc"
definition GICD_IGROUPR :: "u64 \<Rightarrow> u64" where "GICD_IGROUPR n = 0x080 + n * 4"
definition GICD_ISENABLER :: "u64 \<Rightarrow> u64" where "GICD_ISENABLER n = 0x100 + n * 4"
definition GICD_ICENABLER :: "u64 \<Rightarrow> u64" where "GICD_ICENABLER n = 0x180 + n * 4"
definition GICD_ISPENDR :: "u64 \<Rightarrow> u64" where "GICD_ISPENDR n = 0x200 + n * 4"
definition GICD_ICPENDR :: "u64 \<Rightarrow> u64" where "GICD_ICPENDR n = 0x280 + n * 4"
definition GICD_ISACTIVER :: "u64 \<Rightarrow> u64" where "GICD_ISACTIVER n = 0x300 + n * 4"
definition GICD_ICACTIVER :: "u64 \<Rightarrow> u64" where "GICD_ICACTIVER n = 0x380 + n * 4"
definition GICD_IPRIORITYR :: "u64 \<Rightarrow> u64" where "GICD_IPRIORITYR n = 0x400 + n * 4"
definition GICD_ITARGETSR :: "u64 \<Rightarrow> u64" where "GICD_ITARGETSR n = 0x800 + n * 4"
definition GICD_ICFGR :: "u64 \<Rightarrow> u64" where "GICD_ICFGR n = 0xc00 + n * 4"
definition GICD_IROUTER :: "u64 \<Rightarrow> u64" where "GICD_IROUTER n = 0x6000 + n * 8"

definition GICD_CTLR_G1NS_EN :: u64 where "GICD_CTLR_G1NS_EN = 2"
definition GICD_CTLR_ARE_NS :: u64 where "GICD_CTLR_ARE_NS = 0x20"
definition GICD_CTLR_SS_ENGRP0 :: u32 where "GICD_CTLR_SS_ENGRP0 = 1"
definition GICD_CTLR_SS_ENGRP1 :: u32 where "GICD_CTLR_SS_ENGRP1 = 2"

definition GIC_GICD_INT_PER_REG :: u32 where "GIC_GICD_INT_PER_REG = 32"
definition GIC_GICD_IPRIORITY_PER_REG :: u32 where "GIC_GICD_IPRIORITY_PER_REG = 4"
definition GIC_GICD_ICFGR_PER_REG :: u32 where "GIC_GICD_ICFGR_PER_REG = 16"
definition GIC_GICD_ICFGR_LEVEL :: u32 where "GIC_GICD_ICFGR_LEVEL = 0"
definition GIC_INT_DEF_PRIO :: u32 where "GIC_INT_DEF_PRIO = 0xA0A0A0A0"

definition GICR_CTLR :: u64 where "GICR_CTLR = 0x0"
definition GICR_IIDR :: u64 where "GICR_IIDR = 0x4"
definition GICR_TYPER :: u64 where "GICR_TYPER = 0x8"
definition GICR_WAKER :: u64 where "GICR_WAKER = 0x14"
definition SGI_BASE :: u64 where "SGI_BASE = 0x10000"
definition GICR_IGROUPR0 :: u64 where "GICR_IGROUPR0 = SGI_BASE + 0x80"
definition GICR_ISENABLER0 :: u64 where "GICR_ISENABLER0 = SGI_BASE + 0x100"
definition GICR_ICENABLER0 :: u64 where "GICR_ICENABLER0 = SGI_BASE + 0x180"
definition GICR_ISPENDR0 :: u64 where "GICR_ISPENDR0 = SGI_BASE + 0x200"
definition GICR_ICPENDR0 :: u64 where "GICR_ICPENDR0 = SGI_BASE + 0x280"
definition GICR_ISACTIVER0 :: u64 where "GICR_ISACTIVER0 = SGI_BASE + 0x300"
definition GICR_ICACTIVER0 :: u64 where "GICR_ICACTIVER0 = SGI_BASE + 0x380"
definition GICR_IPRIORITYR :: "u64 \<Rightarrow> u64" where "GICR_IPRIORITYR n = SGI_BASE + 0x400 + n * 4"
definition GICR_ICFGR0 :: u64 where "GICR_ICFGR0 = SGI_BASE + 0xc00"
definition GICR_ICFGR1 :: u64 where "GICR_ICFGR1 = SGI_BASE + 0xc04"
definition GICR_IGRPMODR0 :: u64 where "GICR_IGRPMODR0 = SGI_BASE + 0xd00"

definition GIC_GICR_WAKER_PS :: u32 where "GIC_GICR_WAKER_PS = 2"
definition GIC_GICR_WAKER_CA :: u32 where "GIC_GICR_WAKER_CA = 4"
definition ICC_SRE_EL1_SRE :: u64 where "ICC_SRE_EL1_SRE = 1"
definition ICC_SRE_EL2_SRE :: u64 where "ICC_SRE_EL2_SRE = 1"
definition ICC_SRE_EL2_Enable :: u64 where "ICC_SRE_EL2_Enable = 8"
definition GIC_IDLE_PRIO :: u64 where "GIC_IDLE_PRIO = 0xff"

text \<open>Register offsets are passed to the accessors as 32-bit integers.\<close>

abbreviation gicd_rd :: "u64 \<Rightarrow> ('a machine_scheme, u32) comp" where
  "gicd_rd off \<equiv> gicd_r (ucast off)"

abbreviation gicd_wr :: "u64 \<Rightarrow> u32 \<Rightarrow> ('a machine_scheme, unit) comp" where
  "gicd_wr off v \<equiv> gicd_w (ucast off) v"

abbreviation gicr_rd :: "nat \<Rightarrow> u64 \<Rightarrow> ('a machine_scheme, u32) comp" where
  "gicr_rd c off \<equiv> gicr_r32 c (ucast off)"

abbreviation gicr_wr :: "nat \<Rightarrow> u64 \<Rightarrow> u32 \<Rightarrow> ('a machine_scheme, unit) comp" where
  "gicr_wr c off v \<equiv> gicr_w32 c (ucast off) v"

section \<open>Initialisation\<close>

definition poll :: "('a machine_scheme, bool) comp \<Rightarrow> ('a machine_scheme, unit) comp" where
  "poll busy = mbind (mget poll_bound) (\<lambda>n. mwhile n busy (mret ()))"

definition gic_redistributor_rwp :: "('a machine_scheme, unit) comp" where
  "gic_redistributor_rwp = mbind cpuid (\<lambda>c.
     poll (mbind (gicr_rd c GICR_CTLR) (\<lambda>v. mret (v AND push_bit 3 1 \<noteq> 0))))"

definition gic_distributor_rwp :: "('a machine_scheme, unit) comp" where
  "gic_distributor_rwp = poll (mbind (gicd_rd GICD_CTLR) (\<lambda>v. mret (v AND push_bit 31 1 \<noteq> 0)))"

definition gicv3_wait_for_rwp :: "nat \<Rightarrow> ('a machine_scheme, unit) comp" where
  "gicv3_wait_for_rwp irq_no =
     (if irq_no < GIC_SPI0_INTNO then gic_redistributor_rwp else gic_distributor_rwp)"

definition regs_nr :: "u32 \<Rightarrow> u32 \<Rightarrow> nat" where
  "regs_nr n per_reg = unat ((n + per_reg - 1) div per_reg)"

definition init_gicd_v3 :: "unit hcomp" where
  "init_gicd_v3 =
     mbind (gicd_rd GICD_CTLR) (\<lambda>ctlr.
     mthen (gicd_wr GICD_CTLR (ctlr AND NOT (GICD_CTLR_SS_ENGRP0 OR GICD_CTLR_SS_ENGRP1)))
     (mthen (gicv3_wait_for_rwp GIC_SPI0_INTNO)
     (mbind (gicd_rd GICD_TYPER) (\<lambda>typer.
      mthen (mmod (g_spi_num_update (\<lambda>_. ((typer AND 0x1f) + 1) * 32)))
     (mbind (mget g_spi_num) (\<lambda>spi_num.
      mthen (mfor [1..<regs_nr spi_num GIC_GICD_INT_PER_REG] (\<lambda>i.
         mthen (gicd_wr (GICD_ICENABLER (of_nat i)) (NOT 0))
               (gicd_wr (GICD_ICPENDR (of_nat i)) (NOT 0))))
     (mthen (mfor [8..<regs_nr spi_num GIC_GICD_IPRIORITY_PER_REG] (\<lambda>i.
         gicd_wr (GICD_IPRIORITYR (of_nat i)) 0xA0A0A0A0))
     (mthen (mfor [2..<regs_nr spi_num GIC_GICD_ICFGR_PER_REG] (\<lambda>i.
         gicd_wr (GICD_ICFGR (of_nat i)) GIC_GICD_ICFGR_LEVEL))
     (mthen (mfor [32..<unat spi_num] (\<lambda>i. gicd_wr (GICD_IROUTER (of_nat i)) 0))
     (mthen (mfor [0..<unat (typer AND 0x1f)] (\<lambda>i. gicd_wr (GICD_IGROUPR (of_nat i)) (NOT 0)))
     (mbind (gicd_rd GICD_CTLR) (\<lambda>ctlr.
      mthen (gicd_wr GICD_CTLR (ctlr OR (GICD_CTLR_SS_ENGRP0 OR GICD_CTLR_SS_ENGRP1)))
      (gicv3_wait_for_rwp GIC_SPI0_INTNO)))))))))))))"

definition init_gicr_v3 :: "('a machine_scheme, unit) comp" where
  "init_gicr_v3 =
     mbind cpuid (\<lambda>cpu_id.
     mbind (gicr_rd cpu_id GICR_CTLR) (\<lambda>ctlr.
     mthen (gicr_wr cpu_id GICR_CTLR (ctlr AND NOT 1))
     (mthen (gicr_wr cpu_id GICR_IGROUPR0 (NOT 0))
     (mthen (gicr_wr cpu_id GICR_IGRPMODR0 0)
     (mbind (gicr_rd cpu_id GICR_WAKER) (\<lambda>waker.
      mthen (gicr_wr cpu_id GICR_WAKER (waker AND NOT GIC_GICR_WAKER_PS))
     (mthen (poll (mbind (gicr_rd cpu_id GICR_WAKER) (\<lambda>v. mret (v AND GIC_GICR_WAKER_CA \<noteq> 0))))
      isb)))))))"

definition init_gicc_v3 :: "('a machine_scheme, unit) comp" where
  "init_gicc_v3 =
     mbind cpuid (\<lambda>cpu_id.
     mthen (gicr_wr cpu_id GICR_IGROUPR0 (NOT 0))
     (mthen (gicr_wr cpu_id GICR_ICACTIVER0 (NOT 0))
     (mthen (gicr_wr cpu_id GICR_ICENABLER0 0xffff0000)
     (mthen (gicr_wr cpu_id GICR_ICPENDR0 (NOT 0))
     (mthen (mfor [0, 4, 8, 12, 16, 20, 24, 28] (\<lambda>i.
         gicr_wr cpu_id (GICR_IPRIORITYR i) GIC_INT_DEF_PRIO))
     (mthen (gicv3_wait_for_rwp 0)
     (mthen (gicr_wr cpu_id GICR_ICFGR1 0)
     (mthen (write_sysreg ''icc_igrpen0_el1'' 0)
     (mthen (write_sysreg ''icc_igrpen1_el1'' 0)
     (mbind (read_sysreg ''icc_sre_el2'') (\<lambda>sre_el2.
      mthen (write_sysreg ''icc_sre_el2'' (sre_el2 OR (ICC_SRE_EL2_SRE OR ICC_SRE_EL2_Enable)))
     (mthen isb
     (mbind (read_sysreg ''icc_sre_el1'') (\<lambda>sre_el1.
      mthen (write_sysreg ''icc_sre_el1'' (sre_el1 OR ICC_SRE_EL1_SRE))
     (mthen (write_sysreg ''icc_pmr_el1'' GIC_IDLE_PRIO)
     (mbind (read_sysreg ''icc_ctlr_el1'') (\<lambda>ctlr.
      mthen (write_sysreg ''icc_ctlr_el1'' (ctlr OR push_bit 1 1))
     (mthen (write_sysreg ''icc_igrpen1_el1'' 1) isb))))))))))))))))))"

definition gic_v3_get_listregs :: "('a machine_scheme, u32) comp" where
  "gic_v3_get_listregs = mbind (read_sysreg ''ich_vtr_el2'') (\<lambda>v. mret ((ucast v AND 0x1f) + 1))"

definition init_gich_v3 :: "unit hcomp" where
  "init_gich_v3 =
     mthen (write_sysreg ''ich_vmcr_el2'' ICH_VMCR_VENG1)
     (mthen (write_sysreg ''ich_hcr_el2'' ICH_HCR_EN)
     (mbind gic_v3_get_listregs (\<lambda>n.
      mthen (mmod (g_gic_lr_max_update (\<lambda>_. n))) isb)))"

definition init_gicv3_percpu :: "unit hcomp" where
  "init_gicv3_percpu = mthen init_gicc_v3 (mthen init_gicr_v3 init_gich_v3)"

definition gicv3_init :: "unit hcomp" where
  "gicv3_init = mthen init_gicd_v3 init_gicv3_percpu"

text \<open>The virtual CPU interface state of a new vcpu; \<open>gic->lr\<close> has 16 elements.\<close>

definition vm_gic_state_init :: "gic_state \<Rightarrow> gic_state hcomp" where
  "vm_gic_state_init g =
     mbind (mget g_gic_lr_max) (\<lambda>n.
     mthen (massert (unat n \<le> length (gic_lr g)) Out_Of_Bounds)
     (mbind (read_sysreg ''ich_vmcr_el2'') (\<lambda>vmcr.
      mret (g\<lparr>gic_lr := replicate (unat n) 0 @ drop (unat n) (gic_lr g), vmcr_el2 := vmcr\<rparr>))))"

section \<open>Single interrupts\<close>

datatype gic_type = GIC_TYPE_GICD | GIC_TYPE_GICR

definition gic_base_type :: "u32 \<Rightarrow> gic_type" where
  "gic_base_type irq = (if unat irq < GIC_SPI0_INTNO then GIC_TYPE_GICR else GIC_TYPE_GICD)"

definition gic_deactive_irq :: "u32 \<Rightarrow> ('a machine_scheme, unit) comp" where
  "gic_deactive_irq irq = write_sysreg ''icc_dir_el1'' (ucast irq)"

definition gic_eoi :: "u32 \<Rightarrow> int \<Rightarrow> ('a machine_scheme, unit) comp" where
  "gic_eoi irq grp =
     (if grp = 0 then write_sysreg ''icc_eoir0_el1'' (ucast irq)
      else if grp = 1 then write_sysreg ''icc_eoir1_el1'' (ucast irq)
      else mfail (Panic ''[gic_eoi]: invalid group''))"

definition gic_host_eoi :: "u32 \<Rightarrow> int \<Rightarrow> ('a machine_scheme, unit) comp" where
  "gic_host_eoi irq grp = mthen (gic_eoi irq grp) (gic_deactive_irq irq)"

definition gic_guest_eoi :: "u32 \<Rightarrow> int \<Rightarrow> ('a machine_scheme, unit) comp" where
  "gic_guest_eoi irq grp = gic_eoi irq grp"

abbreviation irq_bit :: "u32 \<Rightarrow> u32" where
  "irq_bit irq \<equiv> push_bit (unat (irq mod 32)) 1"

abbreviation irq_reg :: "u32 \<Rightarrow> u64" where
  "irq_reg irq \<equiv> ucast (irq div 32)"

text \<open>The distributor register is read again for the two log messages.\<close>

definition gic_irq_enable :: "u32 \<Rightarrow> ('a machine_scheme, unit) comp" where
  "gic_irq_enable irq =
     (case gic_base_type irq of
        GIC_TYPE_GICD \<Rightarrow>
          mbind (gicd_rd (GICD_ISENABLER (irq_reg irq))) (\<lambda>val.
          mthen (gicd_rd (GICD_ISENABLER (irq_reg irq)))
          (mthen (gicd_wr (GICD_ISENABLER (irq_reg irq)) (val OR irq_bit irq))
          (mthen (gicd_rd (GICD_ISENABLER (irq_reg irq))) (mret ()))))
      | GIC_TYPE_GICR \<Rightarrow>
          mbind cpuid (\<lambda>c.
          mbind (gicr_rd c GICR_ISENABLER0) (\<lambda>val.
          mbind cpuid (\<lambda>c.
          gicr_wr c GICR_ISENABLER0 (val OR irq_bit irq)))))"

definition gic_irq_disable :: "u32 \<Rightarrow> ('a machine_scheme, unit) comp" where
  "gic_irq_disable irq =
     (case gic_base_type irq of
        GIC_TYPE_GICD \<Rightarrow>
          mbind (gicd_rd (GICD_ISENABLER (irq_reg irq))) (\<lambda>val.
          mthen (gicd_rd (GICD_ISENABLER (irq_reg irq)))
          (mthen (gicd_wr (GICD_ISENABLER (irq_reg irq)) (val AND NOT (irq_bit irq)))
          (mthen (gicd_rd (GICD_ISENABLER (irq_reg irq))) (mret ()))))
      | GIC_TYPE_GICR \<Rightarrow>
          mbind cpuid (\<lambda>c.
          mbind (gicr_rd c GICR_ISENABLER0) (\<lambda>val.
          mbind cpuid (\<lambda>c.
          gicr_wr c GICR_ISENABLER0 (val AND NOT (irq_bit irq))))))"

definition gic_is_irq_enable :: "u32 \<Rightarrow> u32 hcomp" where
  "gic_is_irq_enable irq =
     mbind (mget g_spi_num) (\<lambda>spi_num.
     if unat irq \<ge> GIC_SPI0_INTNO \<and> irq \<le> spi_num then
       mbind (gicd_rd (GICD_ISENABLER (irq_reg irq))) (\<lambda>val. mret (val AND irq_bit irq))
     else if unat irq \<le> GIC_PPI_MAX then
       mbind cpuid (\<lambda>c.
       mbind (gicr_rd c GICR_ISENABLER0) (\<lambda>val. mret (val AND push_bit (unat irq) 1)))
     else mret 0)"

definition gic_set_target_by_affinity :: "u32 \<Rightarrow> u8 \<Rightarrow> unit hcomp" where
  "gic_set_target_by_affinity irq aff =
     mbind (gic_is_irq_enable irq) (\<lambda>is_enable.
     mthen (if is_enable \<noteq> 0 then gic_irq_disable irq else mret ())
     (mthen (gicd_wr (GICD_IROUTER (ucast irq)) (ucast aff))
      (if is_enable \<noteq> 0 then gic_irq_enable irq else gicv3_wait_for_rwp (unat irq))))"

definition gic_set_target_by_pe_field :: "u32 \<Rightarrow> u8 \<Rightarrow> unit hcomp" where
  "gic_set_target_by_pe_field irq target =
     mbind (gic_is_irq_enable irq) (\<lambda>is_enable.
     mthen (if is_enable \<noteq> 0 then gic_irq_disable irq else mret ())
     (mbind (gicd_rd (GICD_ITARGETSR (ucast (irq div 4)))) (\<lambda>val.
      let sh = unat (irq mod 4 * 8); val = val AND NOT (push_bit sh 0xff) in
      mthen (gicd_wr (GICD_ITARGETSR (ucast (irq div 4))) (val OR push_bit sh (ucast target)))
      (if is_enable \<noteq> 0 then gic_irq_enable irq else gicv3_wait_for_rwp (unat irq)))))"

definition gic_read_iar :: "('a machine_scheme, u32) comp" where
  "gic_read_iar = mbind (read_sysreg ''icc_iar1_el1'') (\<lambda>v. mret (ucast v))"

definition gic_max_spi :: "('a machine_scheme, int) comp" where
  "gic_max_spi = mbind (gicd_rd GICD_TYPER) (\<lambda>typer.
     let m = sint (32 * ((typer AND 0x1f) + 1) - 1) in mret (if m > 1019 then 1019 else m))"

section \<open>List registers\<close>

definition ich_lr :: "nat \<Rightarrow> string" where
  "ich_lr n = [''ich_lr0_el2'', ''ich_lr1_el2'', ''ich_lr2_el2'', ''ich_lr3_el2'', ''ich_lr4_el2'',
     ''ich_lr5_el2'', ''ich_lr6_el2'', ''ich_lr7_el2'', ''ich_lr8_el2'', ''ich_lr9_el2'', ''ich_lr10_el2'',
     ''ich_lr11_el2'', ''ich_lr12_el2'', ''ich_lr13_el2'', ''ich_lr14_el2'', ''ich_lr15_el2''] ! n"

definition gic_read_lr :: "nat \<Rightarrow> ('a machine_scheme, u64) comp" where
  "gic_read_lr n = (if n < 16 then read_sysreg (ich_lr n) else mret 0)"

definition gic_write_lr :: "nat \<Rightarrow> u64 \<Rightarrow> ('a machine_scheme, unit) comp" where
  "gic_write_lr n val = (if n < 16 then write_sysreg (ich_lr n) val
     else mfail (Panic ''[gic_write_lr]: invalid list register number''))"

primrec pending_lr_from :: "nat list \<Rightarrow> ('a machine_scheme, bool) comp" where
  "pending_lr_from [] = mret False"
| "pending_lr_from (i # is) =
     mbind (gic_read_lr i) (\<lambda>v. if lr_is_pending v then mret True else pending_lr_from is)"

definition gic_has_pending_lr :: "bool hcomp" where
  "gic_has_pending_lr = mbind (mget g_gic_lr_max) (\<lambda>n. pending_lr_from [0..<unat n])"

definition gic_make_lr :: "u32 \<Rightarrow> u32 \<Rightarrow> int \<Rightarrow> u64" where
  "gic_make_lr pirq virq grp =
     ICH_LR_STATE LR_PENDING OR ICH_LR_HW OR ICH_LR_GROUP (of_int grp) OR
     ICH_LR_PINTID (ucast pirq) OR ICH_LR_VINTID (ucast virq)"

text \<open>The switch falls through from the highest implemented list register down to the first.\<close>

definition gic_restore_lr :: "gic_state \<Rightarrow> unit hcomp" where
  "gic_restore_lr g = mbind (mget g_gic_lr_max) (\<lambda>n.
     let k = unat (n - 1) in
     if k < 16 then mfor (rev [0..<Suc k]) (\<lambda>i. mbind (mnth (gic_lr g) i) (write_sysreg (ich_lr i)))
     else mret ())"

definition gic_restore_state :: "gic_state \<Rightarrow> unit hcomp" where
  "gic_restore_state g =
     mbind (read_sysreg ''icc_sre_el1'') (\<lambda>sre.
     mthen (write_sysreg ''ich_vmcr_el2'' (vmcr_el2 g))
     (mthen (write_sysreg ''icc_sre_el1'' (sre OR ucast (sre_el1 g)))
      (gic_restore_lr g)))"

definition gic_set_pending_irq :: "u16 \<Rightarrow> ('a machine_scheme, unit) comp" where
  "gic_set_pending_irq irq_id =
     gicd_wr (GICD_ISPENDR (ucast (irq_id div 32))) (push_bit (unat (irq_id mod 32)) 1)"

section \<open>Lemmas\<close>

text \<open>Loops of register writes.\<close>

lemma mfor_emit:
  "(\<And>i u. f i u = Inr ((), u\<lparr>trace := ev i @ trace u\<rparr>)) \<Longrightarrow>
   mfor is f s = Inr ((), s\<lparr>trace := concat (rev (map ev is)) @ trace s\<rparr>)"
  by (induction "is" arbitrary: s) (simp_all add: run)

lemma poll_ready: "busy s = Inr (False, s') \<Longrightarrow> 0 < poll_bound s \<Longrightarrow> poll busy s = Inr ((), s')"
  by (cases "poll_bound s") (simp_all add: poll_def run)

text \<open>
  What the distributor makes of the accesses it has seen (Arm IHI 0069): a 1 written to
  GICD_ISENABLER enables the interrupt, a 1 written to GICD_ICENABLER disables it, a 0 written to
  either has no effect.
\<close>

fun gicd_irq_enabled :: "io list \<Rightarrow> nat \<Rightarrow> bool" where
  "gicd_irq_enabled [] k = False"
| "gicd_irq_enabled (Wr (Mmio32 a) v # t) k =
     (if a = gicd_addr (ucast (GICD_ISENABLER (of_nat (k div 32)))) \<and> bit v (k mod 32) then True
      else if a = gicd_addr (ucast (GICD_ICENABLER (of_nat (k div 32)))) \<and> bit v (k mod 32) then False
      else gicd_irq_enabled t k)"
| "gicd_irq_enabled (e # t) k = gicd_irq_enabled t k"

text \<open>The value most recently written to a location.\<close>

fun last_write :: "io list \<Rightarrow> loc \<Rightarrow> u64 option" where
  "last_write [] l = None"
| "last_write (Wr l' v # t) l = (if l' = l then Some v else last_write t l)"
| "last_write (e # t) l = last_write t l"

lemma gicd_addr_inj:
  "unat o1 < 0x10000 \<Longrightarrow> unat o2 < 0x10000 \<Longrightarrow> gicd_addr o1 = gicd_addr o2 \<longleftrightarrow> o1 = o2"
  by (auto simp: gicd_addr_def word_unat_eq_iff unat_word_ariths unsigned_ucast_eq
      take_bit_nat_eq_self)

lemma unat_gicd_regs:
  assumes "k < 1024"
  shows "unat (ucast (GICD_ISENABLER (of_nat (k div 32))) :: u32) = 0x100 + k div 32 * 4"
    and "unat (ucast (GICD_ICENABLER (of_nat (k div 32))) :: u32) = 0x180 + k div 32 * 4"
  using assms by (simp_all add: GICD_ISENABLER_def GICD_ICENABLER_def unsigned_ucast_eq
      unat_word_ariths unat_of_nat take_bit_nat_eq_self)

lemma gicd_regs_distinct:
  assumes "k < 1024" and "j < 1024"
  shows "gicd_addr (ucast (GICD_ISENABLER (of_nat (k div 32)))) \<noteq> gicd_addr (ucast (GICD_ICENABLER (of_nat (j div 32))))"
    and "gicd_addr (ucast (GICD_ISENABLER (of_nat (k div 32)))) = gicd_addr (ucast (GICD_ISENABLER (of_nat (j div 32))))
      \<longleftrightarrow> k div 32 = j div 32"
proof -
  have d: "k div 32 < 32" "j div 32 < 32" using assms by auto
  then show "gicd_addr (ucast (GICD_ISENABLER (of_nat (k div 32)))) \<noteq> gicd_addr (ucast (GICD_ICENABLER (of_nat (j div 32))))"
    "gicd_addr (ucast (GICD_ISENABLER (of_nat (k div 32)))) = gicd_addr (ucast (GICD_ISENABLER (of_nat (j div 32))))
      \<longleftrightarrow> k div 32 = j div 32"
    using unat_gicd_regs [OF assms(1)] unat_gicd_regs [OF assms(2)]
    by (subst gicd_addr_inj, simp, simp, simp add: word_unat_eq_iff)+
qed

text \<open>A write to GICD_ISENABLER only adds interrupts.\<close>

lemma gicd_irq_enabled_isenabler:
  assumes "k < 1024" and "j < 1024"
  shows "gicd_irq_enabled (Wr (Mmio32 (gicd_addr (ucast (GICD_ISENABLER (of_nat (j div 32)))))) v # t) k
    \<longleftrightarrow> k div 32 = j div 32 \<and> bit v (k mod 32) \<or> gicd_irq_enabled t k"
  using gicd_regs_distinct [OF assms(2,1)] by auto

lemma irq_reg_nat: "irq_reg irq = of_nat (unat irq div 32)"
proof -
  have "unat (ucast (irq div 32) :: u64) = unat irq div 32"
    by (subst unat_ucast_up) (simp_all add: unat_div_distrib)
  then show ?thesis by (metis of_nat_unat ucast_id)
qed

text \<open>The accesses that enabling and disabling a shared interrupt make.\<close>

lemma gic_irq_spi_run:
  assumes "32 \<le> unat irq"
  defines "a \<equiv> gicd_addr (ucast (GICD_ISENABLER (of_nat (unat irq div 32))))"
  shows "gic_irq_enable irq s = Inr ((), s\<lparr>trace := Rd (Mmio32 a) #
      Wr (Mmio32 a) (ucast ((ucast (dev s (trace s) (Mmio32 a)) :: u32) OR irq_bit irq)) #
      Rd (Mmio32 a) # Rd (Mmio32 a) # trace s\<rparr>)"
    and "gic_irq_disable irq s = Inr ((), s\<lparr>trace := Rd (Mmio32 a) #
      Wr (Mmio32 a) (ucast ((ucast (dev s (trace s) (Mmio32 a)) :: u32) AND NOT (irq_bit irq))) #
      Rd (Mmio32 a) # Rd (Mmio32 a) # trace s\<rparr>)"
  using assms
  by (simp_all add: gic_irq_enable_def gic_irq_disable_def gic_base_type_def GIC_SPI0_INTNO_def run irq_reg_nat a_def)

lemma bit_irq_bit: "bit (irq_bit irq) n \<longleftrightarrow> n = unat irq mod 32"
proof -
  have "unat (irq mod 32) = unat irq mod 32" by (simp add: unat_mod_distrib)
  then show ?thesis by (auto simp: bit_simps dest: bit_imp_le_length)
qed

section \<open>Properties\<close>

text \<open>
  C34. The list register that \<open>gic_make_lr\<close> builds: its state is pending, its hardware bit is
  set, and the group, the low 13 bits of the physical interrupt number and the virtual interrupt
  number can be read back from their fields.
\<close>

theorem gic_make_lr_fields:
  "lr_is_pending (gic_make_lr pirq virq grp) \<and> bit (gic_make_lr pirq virq grp) 61 \<and>
   bit (gic_make_lr pirq virq grp) 60 = odd grp \<and>
   take_bit 13 (drop_bit 32 (gic_make_lr pirq virq grp)) = ucast (take_bit 13 pirq) \<and>
   ucast (gic_make_lr pirq virq grp) = virq"
proof -
  have st: "bit (ICH_LR_STATE LR_PENDING) n \<longleftrightarrow> n = 62" for n
  proof -
    have "ICH_LR_STATE LR_PENDING = push_bit 62 1" by (simp add: ICH_LR_STATE_def LR_PENDING_def)
    then show ?thesis by (simp only: bit_push_one) simp
  qed
  have gr: "bit (ICH_LR_GROUP (of_int grp)) n \<longleftrightarrow> n = 60 \<and> odd grp" for n
  proof -
    have "bit (word_of_int grp :: u64) 0 = bit grp 0" by (simp only: bit_word_of_int_iff) simp
    then have "odd (word_of_int grp :: u64) = odd grp" by (simp only: bit_0)
    then have e: "ICH_LR_GROUP (of_int grp) = (if odd grp then push_bit 60 1 else 0)"
      by (simp add: ICH_LR_GROUP_def and_one_eq mod2_eq_if)
    show ?thesis
      unfolding e if_distrib [of "\<lambda>w. bit w n"] bit_push_one by simp
  qed
  have hw: "bit ICH_LR_HW n \<longleftrightarrow> n = 61" for n
    unfolding ICH_LR_HW_def bit_push_one by simp
  have pi: "bit (ICH_LR_PINTID (ucast pirq)) n \<longleftrightarrow> 32 \<le> n \<and> n < 45 \<and> bit pirq (n - 32)" for n
    unfolding ICH_LR_PINTID_def masks bit_field bit_zext64 by auto
  have vi: "bit (ICH_LR_VINTID (ucast virq)) n \<longleftrightarrow> n < 32 \<and> bit virq n" for n
    unfolding ICH_LR_VINTID_def masks bit_and_mask bit_zext64 by auto
  have b: "bit (gic_make_lr pirq virq grp) n \<longleftrightarrow> n = 62 \<or> n = 61 \<or> n = 60 \<and> odd grp \<or>
      32 \<le> n \<and> n < 45 \<and> bit pirq (n - 32) \<or> n < 32 \<and> bit virq n" for n
    by (simp add: gic_make_lr_def bit_or_iff st gr hw pi vi disj_assoc)
  have "drop_bit 62 (gic_make_lr pirq virq grp) AND 3 = LR_PENDING"
    unfolding LR_PENDING_def masks by (rule bit_word_eqI) (auto simp: bit_simps b)
  moreover have "take_bit 13 (drop_bit 32 (gic_make_lr pirq virq grp)) = ucast (take_bit 13 pirq)"
    by (rule bit_word_eqI) (auto simp: bit_simps b)
  moreover have "ucast (gic_make_lr pirq virq grp) = virq"
    by (rule bit_word_eqI) (auto simp: bit_simps b)
  ultimately show ?thesis by (simp add: lr_is_pending_def b)
qed

text \<open>
  C35. After \<open>gic_irq_enable\<close> on a shared interrupt the distributor forwards that interrupt, and
  every interrupt it forwarded before, whatever the reads of GICD_ISENABLER returned.
\<close>

theorem gic_irq_enable_enables:
  assumes "32 \<le> unat irq" and "unat irq < 1024"
  shows "\<exists>s'. gic_irq_enable irq s = Inr ((), s') \<and> gicd_irq_enabled (trace s') (unat irq) \<and>
    (\<forall>k < 1024. gicd_irq_enabled (trace s) k \<longrightarrow> gicd_irq_enabled (trace s') k)"
proof -
  let ?b = "(ucast (dev s (trace s) (Mmio32 (gicd_addr (ucast (GICD_ISENABLER (of_nat (unat irq div 32))))))) :: u32)"
  have "bit (zext64 (?b OR irq_bit irq)) (unat irq mod 32)"
    by (simp only: bit_zext64 bit_or_iff bit_irq_bit) simp
  then show ?thesis
    by (simp only: gic_irq_spi_run(1) [OF assms(1)])
      (simp add: gicd_irq_enabled_isenabler assms(2) del: gicd_irq_enabled.simps(2))
qed

theorem gic_irq_enable_enables_witness:
  "\<exists>s'. gic_irq_enable 48 machine0 = Inr ((), s') \<and> gicd_irq_enabled (trace s') 48"
  using gic_irq_enable_enables [of 48 machine0] by auto

text \<open>
  C37. \<open>gic_irq_disable\<close> on a shared interrupt never disables anything: it writes to
  GICD_ISENABLER, where a 0 bit has no effect, so every interrupt that the distributor forwarded
  it still forwards.
\<close>

theorem gic_irq_disable_keeps_enabled:
  assumes "32 \<le> unat irq" and "unat irq < 1024" and "k < 1024" and "gicd_irq_enabled (trace s) k"
  shows "\<exists>s'. gic_irq_disable irq s = Inr ((), s') \<and> gicd_irq_enabled (trace s') k"
  by (simp only: gic_irq_spi_run(2) [OF assms(1)])
    (simp add: gicd_irq_enabled_isenabler assms del: gicd_irq_enabled.simps(2))

theorem gic_irq_disable_keeps_enabled_witness:
  "\<exists>s'. gic_irq_disable 48 (machine0\<lparr>trace := [Wr (Mmio32 0x08000104) 0x10000]\<rparr>) = Inr ((), s') \<and>
     gicd_irq_enabled (trace s') 48"
  by (rule gic_irq_disable_keeps_enabled) (simp_all add: gicd_addr_def GICD_ISENABLER_def)

end
