(* ===== verification/Mmio.thy ===== *)
theory Mmio
  imports Gic
begin

text \<open>
  Emulated memory, \<open>src/mmio.c\<close>: the static pool of region descriptors, the list of regions of
  every virtual machine, and the dispatch of a trapped access to the handler of the region it
  hits. The handlers are called through function pointers; the two functions that call them are
  arguments of \<open>mmio_emulate\<close> here and are given in the theory \<open>Trap\<close>.
\<close>

section \<open>Regions\<close>

definition alloc_mmio_info :: "nat option \<Rightarrow> nat option hcomp" where
  "alloc_mmio_info prev = locked_alloc g_mmio_info g_mmio_info_update (\<lambda>m. mmio_size m = 0)
     (\<lambda>m. m\<lparr>mmio_size := 1, mmio_next := prev\<rparr>) g_mmio_lock g_mmio_lock_update"

definition mmio_reg_handler :: "nat option \<Rightarrow> u64 \<Rightarrow> u64 \<Rightarrow> mmio_handler option \<Rightarrow> mmio_handler option \<Rightarrow>
    int hcomp" where
  "mmio_reg_handler vm ipa sz rd wr =
     (case vm of
        None \<Rightarrow> mret (-1)
      | Some v \<Rightarrow>
          if sz \<le> 0 then mret (-1)
          else mbind (vm_at v) (\<lambda>vm.
            mbind (alloc_mmio_info (mmio_list vm)) (\<lambda>mmio_new.
            case mmio_new of
              None \<Rightarrow> mret (-1)
            | Some i \<Rightarrow>
                mthen (upd_vm v (mmio_list_update (\<lambda>_. Some i)))
                (mthen (upd_mmio_info i (\<lambda>m. m\<lparr>ipa_base := ipa, mmio_size := sz, mmio_read := rd, mmio_write := wr\<rparr>))
                (mret 0)))))"

definition mmio_covers :: "mmio_info \<Rightarrow> u64 \<Rightarrow> bool" where
  "mmio_covers m ipa \<longleftrightarrow> ipa_base m \<le> ipa \<and> ipa < ipa_base m + mmio_size m"

text \<open>
  The walk along the list. A list without a cycle has at most as many elements as the pool, so
  with one step more than that the walk only gives up where the loop never ends.
\<close>

primrec mmio_walk :: "nat \<Rightarrow> nat option \<Rightarrow> u64 \<Rightarrow> mmio_info option hcomp" where
  "mmio_walk 0 p ipa = mfail Diverge"
| "mmio_walk (Suc n) p ipa =
     (case p of
        None \<Rightarrow> mret None
      | Some i \<Rightarrow> mbind (mmio_info_at i) (\<lambda>m.
          if mmio_covers m ipa then mret (Some m) else mmio_walk n (mmio_next m) ipa))"

text \<open>
  The destination of an emulated load: register \<open>x[r]\<close> of a vcpu, or NULL for the zero register.
\<close>

type_synonym reg_ptr = "(nat \<times> nat) option"

definition put_val :: "reg_ptr \<Rightarrow> u64 \<Rightarrow> unit hcomp" where
  "put_val p v =
     (case p of
        None \<Rightarrow> st64 0 v
      | Some (i, r) \<Rightarrow> mbind (vcpu_at i) (\<lambda>vc.
          mthen (massert (r < length (gpr (vreg vc))) Out_Of_Bounds)
          (upd_vcpu i (vreg_update (gpr_update (\<lambda>xs. xs[r := v]))))))"

type_synonym read_handler = "nat \<Rightarrow> u64 \<Rightarrow> reg_ptr \<Rightarrow> mmio_access \<Rightarrow> int hcomp"
type_synonym write_handler = "nat \<Rightarrow> u64 \<Rightarrow> u64 \<Rightarrow> mmio_access \<Rightarrow> int hcomp"

definition mmio_emulate :: "(mmio_handler \<Rightarrow> read_handler) \<Rightarrow> (mmio_handler \<Rightarrow> write_handler) \<Rightarrow>
    nat \<Rightarrow> nat \<Rightarrow> mmio_access \<Rightarrow> int hcomp" where
  "mmio_emulate call_read call_write vc reg_idx acc =
     mbind (vm_of vc) (\<lambda>v. mbind (vm_at v) (\<lambda>vm.
     case mmio_list vm of
       None \<Rightarrow> mret (-1)
     | Some _ \<Rightarrow>
         mbind (if reg_idx = 31 then mret 0
                else mbind (vcpu_at vc) (\<lambda>c. mnth (gpr (vreg c)) reg_idx)) (\<lambda>val.
         let reg = (if reg_idx = 31 then None else Some (vc, reg_idx)) in
         mbind (mget (\<lambda>s. Suc (length (g_mmio_info s)))) (\<lambda>n.
         mbind (mmio_walk n (mmio_list vm) (acc_ipa acc)) (\<lambda>hit.
         case hit of
           None \<Rightarrow> mret (-1)
         | Some m \<Rightarrow>
             (if iss_wnr acc \<noteq> 0 \<and> mmio_write m \<noteq> None then
                call_write (the (mmio_write m)) vc (acc_ipa acc - ipa_base m) val acc
              else if iss_wnr acc = 0 \<and> mmio_read m \<noteq> None then
                call_read (the (mmio_read m)) vc (acc_ipa acc - ipa_base m) reg acc
              else mret (-1)))))))"

section \<open>The lists of regions\<close>

text \<open>
  \<open>chain ms p is\<close>: following \<open>next\<close> from \<open>p\<close> passes the elements \<open>is\<close> of the pool and ends.
\<close>

primrec chain :: "mmio_info list \<Rightarrow> nat option \<Rightarrow> nat list \<Rightarrow> bool" where
  "chain ms p [] \<longleftrightarrow> p = None"
| "chain ms p (i # is) \<longleftrightarrow> p = Some i \<and> i < length ms \<and> chain ms (mmio_next (ms ! i)) is"

lemma chain_unique: "chain ms p is \<Longrightarrow> chain ms p js \<Longrightarrow> is = js"
proof (induction "is" arbitrary: p js)
  case Nil
  then show ?case by (cases js) simp_all
next
  case (Cons i "is")
  then show ?case by (cases js) auto
qed

lemma chain_append: "chain ms p (is @ j # js) \<Longrightarrow> chain ms (Some j) (j # js)"
  by (induction "is" arbitrary: p) auto

lemma chain_distinct: "chain ms p is \<Longrightarrow> distinct is"
proof (induction "is" arbitrary: p)
  case Nil
  then show ?case by simp
next
  case (Cons i "is")
  have "i \<notin> set is"
  proof
    assume "i \<in> set is"
    then obtain as bs where s: "is = as @ i # bs" by (auto simp: in_set_conv_decomp)
    with Cons.prems have "chain ms (Some i) (i # bs)"
      using chain_append [of ms "mmio_next (ms ! i)" as i bs] by simp
    moreover have "chain ms (Some i) (i # is)" using Cons.prems by simp
    ultimately have "bs = is" using chain_unique by blast
    with s show False by simp
  qed
  with Cons.IH Cons.prems show ?case by auto
qed

lemma chain_bound: "chain ms p is \<Longrightarrow> set is \<subseteq> {..<length ms}"
  by (induction "is" arbitrary: p) auto

lemma chain_length: "chain ms p is \<Longrightarrow> length is \<le> length ms"
  using chain_distinct [of ms p "is"] chain_bound [of ms p "is"]
  by (metis card_lessThan card_mono distinct_card finite_lessThan)

lemma chain_update:
  "chain ms p is \<Longrightarrow> i \<notin> set is \<Longrightarrow> chain (ms[i := m]) p is"
  by (induction "is" arbitrary: p) auto

lemma mmio_walk_find:
  "chain (g_mmio_info s) p is \<Longrightarrow> length is < n \<Longrightarrow>
   mmio_walk n p ipa s =
     Inr (List.find (\<lambda>m. mmio_covers m ipa) (map (\<lambda>i. g_mmio_info s ! i) is), s)"
proof (induction "is" arbitrary: p n)
  case Nil
  then show ?case by (cases n) (simp_all add: run)
next
  case (Cons i "is")
  then obtain k where "n = Suc k" by (cases n) auto
  with Cons show ?case by (simp add: run)
qed

text \<open>
  The invariant of the pool: the list of every virtual machine ends, its elements are taken, and
  no element is in the lists of two machines.
\<close>

definition mmio_inv :: "hyp \<Rightarrow> bool" where
  "mmio_inv s \<longleftrightarrow> spin_free (g_mmio_lock s) \<and>
     (\<exists>rs. length rs = length (g_vms s) \<and>
       (\<forall>v < length rs. chain (g_mmio_info s) (mmio_list (g_vms s ! v)) (rs ! v) \<and>
          (\<forall>i \<in> set (rs ! v). mmio_size (g_mmio_info s ! i) \<noteq> 0)) \<and>
       (\<forall>v < length rs. \<forall>w < length rs. v \<noteq> w \<longrightarrow> set (rs ! v) \<inter> set (rs ! w) = {}))"

text \<open>The regions of a virtual machine, most recently registered first.\<close>

definition regions_of :: "hyp \<Rightarrow> nat \<Rightarrow> mmio_info list \<Rightarrow> bool" where
  "regions_of s v ms \<longleftrightarrow> (\<exists>is. chain (g_mmio_info s) (mmio_list (g_vms s ! v)) is \<and>
     ms = map (\<lambda>i. g_mmio_info s ! i) is)"

lemma mmio_reg_handler_run:
  assumes "spin_free (g_mmio_lock s)" and "v < length (g_vms s)" and "sz \<noteq> 0"
  shows "mmio_reg_handler (Some v) ipa sz rd wr s =
    (case first_free (\<lambda>m. mmio_size m = 0) (g_mmio_info s) of
       None \<Rightarrow> Inr (-1, s\<lparr>g_mmio_lock := lock_cycle (g_mmio_lock s)\<rparr>)
     | Some i \<Rightarrow> Inr (0, s\<lparr>g_mmio_lock := lock_cycle (g_mmio_lock s),
          g_vms := (g_vms s)[v := (g_vms s ! v)\<lparr>mmio_list := Some i\<rparr>],
          g_mmio_info := (g_mmio_info s)[i := \<lparr>mmio_next = mmio_list (g_vms s ! v), ipa_base = ipa,
            mmio_size = sz, mmio_read = rd, mmio_write = wr\<rparr>]\<rparr>))"
proof (cases "first_free (\<lambda>m. mmio_size m = 0) (g_mmio_info s)")
  case None
  then show ?thesis
    using assms mmio_pool.locked_alloc_run [of s "mmio_list (g_vms s ! v)"]
    by (simp add: mmio_reg_handler_def alloc_mmio_info_def run)
next
  case (Some i)
  then have i: "i < length (g_mmio_info s)" by (simp add: first_free_Some)
  have e: "(g_mmio_info s ! i)\<lparr>mmio_next := n, ipa_base := ipa, mmio_size := sz, mmio_read := rd,
      mmio_write := wr\<rparr> = \<lparr>mmio_next = n, ipa_base = ipa, mmio_size = sz, mmio_read = rd,
      mmio_write = wr\<rparr>" for n
    by (cases "g_mmio_info s ! i") simp
  from i Some show ?thesis
    using assms mmio_pool.locked_alloc_run [of s "mmio_list (g_vms s ! v)"]
    by (simp add: mmio_reg_handler_def alloc_mmio_info_def run) (simp only: e)
qed

text \<open>A new region at the head of one list leaves every list intact.\<close>

lemma chain_cons:
  assumes "chain ms p is" and "\<forall>j \<in> set is. mmio_size (ms ! j) \<noteq> 0" and "i < length ms"
    and "mmio_size (ms ! i) = 0" and "mmio_next m = p"
  shows "chain (ms[i := m]) (Some i) (i # is)" and "chain (ms[i := m]) p is"
    and "i \<notin> set is"
proof -
  show "i \<notin> set is" using assms by auto
  with chain_update [OF assms(1)] show "chain (ms[i := m]) p is" by simp
  with assms show "chain (ms[i := m]) (Some i) (i # is)" by simp
qed

text \<open>The descriptor \<open>i\<close> filled in and put in front of the list of the machine \<open>v\<close>.\<close>

definition with_region :: "nat \<Rightarrow> nat \<Rightarrow> mmio_info \<Rightarrow> hyp \<Rightarrow> hyp" where
  "with_region v i m s = s\<lparr>g_mmio_lock := lock_cycle (g_mmio_lock s),
     g_vms := (g_vms s)[v := (g_vms s ! v)\<lparr>mmio_list := Some i\<rparr>],
     g_mmio_info := (g_mmio_info s)[i := m\<lparr>mmio_next := mmio_list (g_vms s ! v)\<rparr>]\<rparr>"

lemma with_region_lists:
  assumes inv: "mmio_inv s" and v: "v < length (g_vms s)" and i: "i < length (g_mmio_info s)"
    "mmio_size (g_mmio_info s ! i) = 0" and m: "mmio_size m \<noteq> 0"
  shows "mmio_inv (with_region v i m s)"
    and "regions_of s v ms \<Longrightarrow> regions_of (with_region v i m s) v (m\<lparr>mmio_next := mmio_list (g_vms s ! v)\<rparr> # ms)"
    and "w < length (g_vms s) \<Longrightarrow> w \<noteq> v \<Longrightarrow> regions_of s w ms \<Longrightarrow> regions_of (with_region v i m s) w ms"
proof -
  from inv obtain rs where free: "spin_free (g_mmio_lock s)" and rs: "length rs = length (g_vms s)"
      "\<And>v. v < length rs \<Longrightarrow> chain (g_mmio_info s) (mmio_list (g_vms s ! v)) (rs ! v)"
      "\<And>v. v < length rs \<Longrightarrow> \<forall>i \<in> set (rs ! v). mmio_size (g_mmio_info s ! i) \<noteq> 0"
      "\<And>v w. v < length rs \<Longrightarrow> w < length rs \<Longrightarrow> v \<noteq> w \<Longrightarrow> set (rs ! v) \<inter> set (rs ! w) = {}"
    unfolding mmio_inv_def by blast
  let ?m = "m\<lparr>mmio_next := mmio_list (g_vms s ! v)\<rparr>"
  let ?ms = "(g_mmio_info s)[i := ?m]"
  let ?s = "with_region v i m s"
  have s: "g_mmio_info ?s = ?ms" "g_vms ?s = (g_vms s)[v := (g_vms s ! v)\<lparr>mmio_list := Some i\<rparr>]"
    "g_mmio_lock ?s = lock_cycle (g_mmio_lock s)"
    by (simp_all add: with_region_def)
  have ni: "i \<notin> set (rs ! w)" if "w < length rs" for w using rs(3) [OF that] i by auto
  have head: "chain ?ms (Some i) (i # rs ! v)"
    by (rule chain_cons(1)) (use rs i v in simp_all)
  have tail: "chain ?ms (mmio_list (g_vms s ! w)) (rs ! w)" if "w < length rs" for w
    using chain_update [OF rs(2) [OF that] ni [OF that]] .
  show "mmio_inv ?s"
    unfolding mmio_inv_def
  proof (intro conjI exI [of _ "rs[v := i # rs ! v]"] allI impI)
    show "set (rs[v := i # rs ! v] ! a) \<inter> set (rs[v := i # rs ! v] ! b) = {}"
      if "a < length (rs[v := i # rs ! v])" "b < length (rs[v := i # rs ! v])" "a \<noteq> b" for a b
      using that rs(4) [of a b] ni [of a] ni [of b]
      by (cases "a = v"; cases "b = v") (auto simp: nth_list_update)
    show "chain (g_mmio_info ?s) (mmio_list (g_vms ?s ! a)) (rs[v := i # rs ! v] ! a)"
      if "a < length (rs[v := i # rs ! v])" for a
      using that head tail [of a] rs(1) v by (cases "a = v") (simp_all add: s)
    show "\<forall>j \<in> set (rs[v := i # rs ! v] ! a). mmio_size (g_mmio_info ?s ! j) \<noteq> 0"
      if "a < length (rs[v := i # rs ! v])" for a
      using that rs(1) rs(3) [of a] rs(3) [of v] ni [of a] m v i
      by (cases "a = v") (auto simp: s nth_list_update)
  qed (use free rs(1) in \<open>simp_all add: s\<close>)
  have reg: "map (\<lambda>j. ?ms ! j) (rs ! w) = map (\<lambda>j. g_mmio_info s ! j) (rs ! w)" if "w < length rs" for w
    using ni [OF that] by (intro map_cong refl nth_list_update_neq) auto
  have old: "ms = map (\<lambda>j. g_mmio_info s ! j) (rs ! w)" if "regions_of s w ms" "w < length rs" for w ms
    using that rs(2) [OF that(2)] chain_unique unfolding regions_of_def by blast
  show "regions_of ?s v (?m # ms)" if "regions_of s v ms"
    using head old [OF that] reg [of v] rs(1) v i
    unfolding regions_of_def by (intro exI [of _ "i # rs ! v"]) (simp add: s)
  show "regions_of ?s w ms" if "w < length (g_vms s)" "w \<noteq> v" "regions_of s w ms"
    using tail [of w] old [OF that(3)] reg [of w] rs(1) that(1,2)
    unfolding regions_of_def by (intro exI [of _ "rs ! w"]) (simp add: s)
qed

section \<open>Properties\<close>

text \<open>
  C12. \<open>mmio_reg_handler\<close> on every branch. Without a machine or with size 0 it returns -1 and changes
  nothing; when no descriptor of the pool is free it returns -1 and changes nothing but the counters
  of the lock. Otherwise it returns 0 and the state is the old one but for three things: the counters
  of the lock, one free descriptor, which now holds the region and points to the old list of the
  machine, and the list of the machine, which starts with that descriptor. Hence the new region is in
  front of the regions of its machine, those of every other machine are as they were, and the
  lists stay disjoint and finite.
\<close>

theorem mmio_reg_handler_correct:
  assumes "mmio_inv s" and "v < length (g_vms s)"
  shows "mmio_reg_handler None ipa sz rd wr s = Inr (-1, s) \<and>
    (if sz = 0 then mmio_reg_handler (Some v) ipa sz rd wr s = Inr (-1, s)
     else if \<forall>m \<in> set (g_mmio_info s). mmio_size m \<noteq> 0
     then mmio_reg_handler (Some v) ipa sz rd wr s = Inr (-1, s\<lparr>g_mmio_lock := lock_cycle (g_mmio_lock s)\<rparr>)
     else \<exists>i s' new. mmio_reg_handler (Some v) ipa sz rd wr s = Inr (0, s') \<and>
       i < length (g_mmio_info s) \<and> mmio_size (g_mmio_info s ! i) = 0 \<and>
       new = \<lparr>mmio_next = mmio_list (g_vms s ! v), ipa_base = ipa, mmio_size = sz, mmio_read = rd, mmio_write = wr\<rparr> \<and>
       s' = s\<lparr>g_mmio_lock := lock_cycle (g_mmio_lock s),
         g_vms := (g_vms s)[v := (g_vms s ! v)\<lparr>mmio_list := Some i\<rparr>],
         g_mmio_info := (g_mmio_info s)[i := new]\<rparr> \<and>
       mmio_inv s' \<and> (\<forall>ms. regions_of s v ms \<longrightarrow> regions_of s' v (new # ms)) \<and>
       (\<forall>w < length (g_vms s). w \<noteq> v \<longrightarrow> (\<forall>ms. regions_of s w ms \<longrightarrow> regions_of s' w ms)))"
proof -
  have free: "spin_free (g_mmio_lock s)" using assms(1) by (simp add: mmio_inv_def)
  have bad: "mmio_reg_handler None ipa sz rd wr s = Inr (-1, s)"
    "sz = 0 \<Longrightarrow> mmio_reg_handler (Some v) ipa sz rd wr s = Inr (-1, s)"
    by (simp_all add: mmio_reg_handler_def run)
  show ?thesis
  proof (cases "sz = 0")
    case True
    with bad show ?thesis by simp
  next
    case sz: False
    note run_eq = mmio_reg_handler_run [OF free assms(2) sz, of ipa rd wr]
    show ?thesis
    proof (cases "first_free (\<lambda>m. mmio_size m = 0) (g_mmio_info s)")
      case None
      then have "\<forall>m \<in> set (g_mmio_info s). mmio_size m \<noteq> 0" by (auto simp: first_free_None)
      with None sz run_eq bad(1) show ?thesis by simp
    next
      case (Some i)
      then have i: "i < length (g_mmio_info s)" "mmio_size (g_mmio_info s ! i) = 0"
        by (simp_all add: first_free_Some)
      then have ex: "\<not> (\<forall>m \<in> set (g_mmio_info s). mmio_size m \<noteq> 0)" using nth_mem by blast
      let ?m = "\<lparr>mmio_next = mmio_list (g_vms s ! v), ipa_base = ipa, mmio_size = sz, mmio_read = rd, mmio_write = wr\<rparr>"
      have "mmio_size ?m \<noteq> 0" using sz by simp
      note W = with_region_lists [OF assms i this]
      have "mmio_reg_handler (Some v) ipa sz rd wr s = Inr (0, with_region v i ?m s)"
        using run_eq Some by (simp add: with_region_def)
      with W i ex sz bad(1) show ?thesis
        by (auto intro!: exI [of _ i] simp: with_region_def)
    qed
  qed
qed

lemma mmio_inv_hyp0: "mmio_inv hyp0"
  unfolding mmio_inv_def
  by (intro conjI exI [of _ "[[], []]"])
    (auto simp: hyp0_def VM_MAX_def vm0_def spin_free_def spinlock_init_def less_Suc_eq numeral_2_eq_2)

theorem mmio_reg_handler_correct_witness:
  "\<exists>s'. mmio_reg_handler (Some 1) 0x0a000000 0x1000 (Some Virtio_mmio) (Some Virtio_mmio) hyp0 = Inr (0, s') \<and>
    mmio_inv s'"
proof -
  have v: "1 < length (g_vms hyp0)" by (simp add: hyp0_def VM_MAX_def)
  have "\<not> (\<forall>m \<in> set (g_mmio_info hyp0). mmio_size m \<noteq> 0)"
    by (simp add: hyp0_def MMIO_INFO_MAX_def mmio_info0_def)
  moreover have "(0x1000 :: u64) \<noteq> 0" by simp
  ultimately show ?thesis
    using mmio_reg_handler_correct [OF mmio_inv_hyp0 v, of "0x0a000000" "0x1000" "Some Virtio_mmio" "Some Virtio_mmio"]
    by (metis (no_types, lifting))
qed

lemma mmio_emulate_run:
  assumes "vc < length (vcpus s)" and "vcpu_vm (vcpus s ! vc) = Some v" and "v < length (g_vms s)"
    and "regions_of s v ms" and "r < 31" and "length (gpr (vreg (vcpus s ! vc))) = 31"
  shows "mmio_emulate call_read call_write vc r acc s =
    (case List.find (\<lambda>m. mmio_covers m (acc_ipa acc)) ms of
       None \<Rightarrow> Inr (-1, s)
     | Some m \<Rightarrow>
         (if iss_wnr acc \<noteq> 0 then
            (case mmio_write m of None \<Rightarrow> Inr (-1, s)
             | Some h \<Rightarrow> call_write h vc (acc_ipa acc - ipa_base m) (gpr (vreg (vcpus s ! vc)) ! r) acc s)
          else
            (case mmio_read m of None \<Rightarrow> Inr (-1, s)
             | Some h \<Rightarrow> call_read h vc (acc_ipa acc - ipa_base m) (Some (vc, r)) acc s)))"
proof -
  obtain "is" where c: "chain (g_mmio_info s) (mmio_list (g_vms s ! v)) is"
    and ms: "ms = map (\<lambda>i. g_mmio_info s ! i) is"
    using assms(4) by (auto simp: regions_of_def)
  have w: "mmio_walk (Suc (length (g_mmio_info s))) (mmio_list (g_vms s ! v)) (acc_ipa acc) s =
      Inr (List.find (\<lambda>m. mmio_covers m (acc_ipa acc)) ms, s)"
    unfolding ms by (rule mmio_walk_find [OF c]) (use chain_length [OF c] in simp)
  show ?thesis
  proof (cases "mmio_list (g_vms s ! v)")
    case None
    with c ms have "ms = []" by (cases "is") simp_all
    with None assms show ?thesis by (simp add: mmio_emulate_def vm_of_def run)
  next
    case (Some p)
    with w assms show ?thesis
      by (auto simp: mmio_emulate_def vm_of_def run Let_def simp del: mmio_walk.simps split: option.splits)
  qed
qed

text \<open>
  C6. \<open>mmio_emulate\<close> hands an access to the handler of the most recently registered region that
  covers the address, with the offset into that region and, for a store, the value of the source
  register; it fails when no region covers the address or the region has no handler for this
  direction.
\<close>

theorem mmio_emulate_dispatches:
  assumes "vc < length (vcpus s)" and "vcpu_vm (vcpus s ! vc) = Some v" and "v < length (g_vms s)"
    and "regions_of s v ms" and "r < 31" and "length (gpr (vreg (vcpus s ! vc))) = 31"
  shows "mmio_emulate call_read call_write vc r acc s =
    (case List.find (\<lambda>m. mmio_covers m (acc_ipa acc)) ms of
       None \<Rightarrow> Inr (-1, s)
     | Some m \<Rightarrow>
         (if iss_wnr acc \<noteq> 0 then
            (case mmio_write m of None \<Rightarrow> Inr (-1, s)
             | Some h \<Rightarrow> call_write h vc (acc_ipa acc - ipa_base m) (gpr (vreg (vcpus s ! vc)) ! r) acc s)
          else
            (case mmio_read m of None \<Rightarrow> Inr (-1, s)
             | Some h \<Rightarrow> call_read h vc (acc_ipa acc - ipa_base m) (Some (vc, r)) acc s)))"
  by (rule mmio_emulate_run [OF assms])

theorem mmio_emulate_dispatches_witness:
  "mmio_emulate (\<lambda>_ _ off _ _. mret (int (unat off))) (\<lambda>_ _ _ _ _. mret (-1)) 0 3
     \<lparr>acc_ipa = 0x0a000004, acc_pc = 0, iss_sas = SAS_WORD, iss_wnr = 0\<rparr>
     (hyp0\<lparr>vcpus := [vcpu0\<lparr>vcpu_vm := Some 0\<rparr>], g_vms := [vm0\<lparr>mmio_list := Some 0\<rparr>],
        g_mmio_info := [\<lparr>mmio_next = None, ipa_base = 0x0a000000, mmio_size = 0x1000,
          mmio_read = Some Virtio_mmio, mmio_write = None\<rparr>]\<rparr>) =
   Inr (4, hyp0\<lparr>vcpus := [vcpu0\<lparr>vcpu_vm := Some 0\<rparr>], g_vms := [vm0\<lparr>mmio_list := Some 0\<rparr>],
        g_mmio_info := [\<lparr>mmio_next = None, ipa_base = 0x0a000000, mmio_size = 0x1000,
          mmio_read = Some Virtio_mmio, mmio_write = None\<rparr>]\<rparr>)"
  by (subst mmio_emulate_dispatches [where v = 0 and ms = "[\<lparr>mmio_next = None, ipa_base = 0x0a000000,
        mmio_size = 0x1000, mmio_read = Some Virtio_mmio, mmio_write = None\<rparr>]"])
    (simp_all add: vcpu0_def regions_of_def mmio_covers_def run exI [of _ "[0]"])

end
