(* ===== verification/S2_Trap.thy ===== *)
theory S2_Trap
  imports Mmio
begin

text \<open>
  Two functions of \<open>src/vm.c\<close> that the emulated devices build on: the pool of virtual machines
  and \<open>s2_pt_trap\<close>, which makes accesses of the guest to a device trap into the hypervisor.
\<close>

definition allocvm :: "nat option hcomp" where
  "allocvm = slot_alloc g_vms g_vms_update (\<lambda>v. \<not> vm_used v) (vm_used_update (\<lambda>_. True))"

definition s2_pt_trap :: "nat \<Rightarrow> u64 \<Rightarrow> u64 \<Rightarrow> mmio_handler \<Rightarrow> unit hcomp" where
  "s2_pt_trap v ipa sz h =
     mbind (vm_at v) (\<lambda>vm.
     mbind (pagewalk (stage2_pt vm) ipa False) (\<lambda>pte.
     mthen (if pte \<noteq> 0 then pageunmap (stage2_pt vm) ipa sz else mret ())
     (mbind (mmio_reg_handler (Some v) ipa sz (Some h) (Some h)) (\<lambda>ret.
      if ret < 0 then mfail (Panic ''mmio_reg_handler failed'') else tlb_flush))))"

end
