(* ===== verification/Lib.thy ===== *)
theory Lib
  imports Machine
begin

text \<open>
  The C library functions of \<open>src/lib.c\<close> on the machine's memory: \<open>memmove\<close>, \<open>memcpy\<close>,
  \<open>memset\<close> and the string functions. The lemmas give the exact final memory of the memory
  functions, overlapping regions included, and relate the string functions to the
  NUL-terminated strings found in memory.
\<close>

section \<open>Memory functions\<close>

text \<open>The two loops of \<open>memmove\<close>: upwards from the first byte, downwards from the last.\<close>

primrec copy_up :: "nat \<Rightarrow> u64 \<Rightarrow> u64 \<Rightarrow> ('a machine_scheme, unit) comp" where
  "copy_up 0 d s = mret ()"
| "copy_up (Suc n) d s = mbind (ld8 s) (\<lambda>c. mthen (st8 d c) (copy_up n (d + 1) (s + 1)))"

primrec copy_down :: "nat \<Rightarrow> u64 \<Rightarrow> u64 \<Rightarrow> ('a machine_scheme, unit) comp" where
  "copy_down 0 d s = mret ()"
| "copy_down (Suc n) d s =
     mbind (ld8 (s - 1)) (\<lambda>c. mthen (st8 (d - 1) c) (copy_down n (d - 1) (s - 1)))"

definition memmove :: "u64 \<Rightarrow> u64 \<Rightarrow> u64 \<Rightarrow> ('a machine_scheme, u64) comp" where
  "memmove dst src n =
     mthen (if src > dst then copy_up (unat n) dst src
            else copy_down (unat n) (dst + n) (src + n)) (mret dst)"

definition memcpy :: "u64 \<Rightarrow> u64 \<Rightarrow> u64 \<Rightarrow> ('a machine_scheme, u64) comp" where
  "memcpy dst src n = memmove dst src n"

primrec fill_up :: "nat \<Rightarrow> u64 \<Rightarrow> u8 \<Rightarrow> ('a machine_scheme, unit) comp" where
  "fill_up 0 d c = mret ()"
| "fill_up (Suc n) d c = mthen (st8 d c) (fill_up n (d + 1) c)"

definition memset :: "u64 \<Rightarrow> i32 \<Rightarrow> u64 \<Rightarrow> ('a machine_scheme, u64) comp" where
  "memset dst c n = mthen (fill_up (unat n) dst (ucast c)) (mret dst)"

section \<open>String functions\<close>

text \<open>
  The string loops run until a NUL byte; the bound is the size of the address space, after
  which a string without a NUL byte has been read around.
\<close>

primrec strlen_loop :: "nat \<Rightarrow> u64 \<Rightarrow> u64 \<Rightarrow> ('a machine_scheme, u64) comp" where
  "strlen_loop 0 s i = mfail Diverge"
| "strlen_loop (Suc k) s i =
     mbind (ld8 s) (\<lambda>c. if c \<noteq> 0 then strlen_loop k (s + 1) (i + 1) else mret i)"

definition strlen :: "nat \<Rightarrow> u64 \<Rightarrow> ('a machine_scheme, u64) comp" where
  "strlen k s = strlen_loop k s 0"

primrec strcpy_loop :: "nat \<Rightarrow> u64 \<Rightarrow> u64 \<Rightarrow> ('a machine_scheme, unit) comp" where
  "strcpy_loop 0 dst src = mfail Diverge"
| "strcpy_loop (Suc k) dst src =
     mbind (ld8 src) (\<lambda>c. mthen (st8 dst c)
       (if c \<noteq> 0 then strcpy_loop k (dst + 1) (src + 1) else mret ()))"

definition strcpy :: "nat \<Rightarrow> u64 \<Rightarrow> u64 \<Rightarrow> ('a machine_scheme, u64) comp" where
  "strcpy k dst src = mthen (strcpy_loop k dst src) (mret dst)"

text \<open>\<open>char\<close> is unsigned on AArch64, so the difference of two characters is that of two bytes.\<close>

primrec strcmp :: "nat \<Rightarrow> u64 \<Rightarrow> u64 \<Rightarrow> ('a machine_scheme, int) comp" where
  "strcmp 0 s1 s2 = mfail Diverge"
| "strcmp (Suc k) s1 s2 =
     mbind (ld8 s1) (\<lambda>c1.
     if c1 = 0 then mbind (ld8 s2) (\<lambda>c2. mret (uint c1 - uint c2))
     else mbind (ld8 s2) (\<lambda>c2.
       if c1 = c2 then strcmp k (s1 + 1) (s2 + 1) else mret (uint c1 - uint c2)))"

primrec strncmp :: "nat \<Rightarrow> u64 \<Rightarrow> u64 \<Rightarrow> u64 \<Rightarrow> ('a machine_scheme, int) comp" where
  "strncmp 0 s1 s2 len = mfail Diverge"
| "strncmp (Suc k) s1 s2 len =
     mbind (ld8 s1) (\<lambda>c1.
     if c1 = 0 then (if len = 0 then mret 0 else mbind (ld8 s2) (\<lambda>c2. mret (uint c1 - uint c2)))
     else mbind (ld8 s2) (\<lambda>c2.
       if c1 = c2 \<and> len > 0 then strncmp k (s1 + 1) (s2 + 1) (len - 1)
       else if len = 0 then mret 0 else mret (uint c1 - uint c2)))"

section \<open>Correctness of the memory functions\<close>

text \<open>The memory after \<open>n\<close> bytes from \<open>src\<close> have been copied to \<open>dst\<close>.\<close>

definition copied :: "memory \<Rightarrow> u64 \<Rightarrow> u64 \<Rightarrow> nat \<Rightarrow> memory" where
  "copied m dst src n = (\<lambda>b. if b \<in> span dst n then m (src + (b - dst)) else m b)"

definition filled :: "memory \<Rightarrow> u64 \<Rightarrow> u8 \<Rightarrow> nat \<Rightarrow> memory" where
  "filled m dst c n = (\<lambda>b. if b \<in> span dst n then c else m b)"

lemma rd_le_Suc_0 [simp]: "(rd_le (Suc 0) m a :: u8) = m a"
  by simp

lemma wr_le_Suc_0 [simp]: "wr_le (Suc 0) m a (v :: u8) = m(a := v)"
  by simp

lemma all_backed_1 [simp]: "all_backed s a (Suc 0) = backed s a"
  by (auto simp: all_backed_def)

lemma all_backed_0 [simp]: "all_backed s a 0"
  by (simp add: all_backed_def)

lemma all_backed_Suc: "all_backed s a (Suc n) \<longleftrightarrow> backed s a \<and> all_backed s (a + 1) n"
  by (auto simp: all_backed_def less_Suc_eq_0_disj algebra_simps)

lemma all_backed_Suc': "all_backed s a (Suc n) \<longleftrightarrow> backed s (a + of_nat n) \<and> all_backed s a n"
  by (auto simp: all_backed_def less_Suc_eq)

lemma unat_pred: "b \<noteq> (a :: u64) \<Longrightarrow> unat (b - (a + 1)) = unat (b - a) - 1 \<and> 0 < unat (b - a)"
  using unat_minus_one_word [of "b - a"] by (simp add: algebra_simps unat_gt_0)

lemma unat_add_small: "unat a + n \<le> 2 ^ 64 \<Longrightarrow> unat d < n \<Longrightarrow> unat (a + d) = unat a + unat d"
  for a d :: u64
  by (simp add: unat_word_ariths)

lemma span_Suc: "n < 2 ^ 64 - 1 \<Longrightarrow> b \<in> span a (Suc n) \<longleftrightarrow> b = a \<or> b \<in> span (a + 1) n \<and> b \<noteq> a"
  using unat_pred [of b a] by auto

text \<open>
  Upward copying is right when no byte is overwritten before it is read: the destination lies
  below the source and neither region wraps around.
\<close>

lemma copy_up_run:
  assumes "all_backed s src n" and "all_backed s dst n"
    and "unat src + n \<le> 2 ^ 64" and "dst < src"
  shows "copy_up n dst src s = Inr ((), s\<lparr>mem := copied (mem s) dst src n\<rparr>)"
  using assms
proof (induction n arbitrary: dst src s)
  case 0
  then show ?case by (simp add: run copied_def)
next
  case (Suc n)
  let ?s = "s\<lparr>mem := (mem s)(dst := mem s src)\<rparr>"
  have bk: "backed s src" "backed s dst" "all_backed ?s (src + 1) n" "all_backed ?s (dst + 1) n"
    using Suc.prems(1,2) by (simp_all add: all_backed_Suc)
  show ?case
  proof (cases "n = 0")
    case True
    with bk show ?thesis
      by (simp add: run copied_def fun_eq_iff unat_eq_0 algebra_simps)
  next
    case False
    then have up: "unat (src + 1) = unat src + 1" "unat (dst + 1) = unat dst + 1"
      using Suc.prems(3,4) by (simp_all add: word_less_nat_alt unat_word_ariths)
    have ih: "copy_up n (dst + 1) (src + 1) ?s
        = Inr ((), ?s\<lparr>mem := copied (mem ?s) (dst + 1) (src + 1) n\<rparr>)"
      by (rule Suc.IH) (use bk up Suc.prems(3,4) in \<open>simp_all add: word_less_nat_alt\<close>)
    have "copied (mem ?s) (dst + 1) (src + 1) n b = copied (mem s) dst src (Suc n) b" for b
    proof (cases "b = dst")
      case True
      have "unat (dst - (dst + 1)) = 2 ^ 64 - 1"
        by (simp add: unsigned_minus_1_eq_mask mask_eq_exp_minus_1)
      then show ?thesis
        using True Suc.prems(3) by (simp add: copied_def)
    next
      case ne: False
      have "src + (b - dst) \<noteq> dst" if "unat (b - dst) < Suc n"
      proof
        assume "src + (b - dst) = dst"
        then have "unat dst = unat src + unat (b - dst)"
          using unat_add_small [OF Suc.prems(3) that] by (simp only:)
        then show False using Suc.prems(4) by (simp add: word_less_nat_alt)
      qed
      then show ?thesis
        using ne unat_pred [OF ne] by (auto simp: copied_def algebra_simps)
    qed
    then show ?thesis
      using bk ih by (simp add: run fun_eq_iff)
  qed
qed

text \<open>Downward copying is right when the destination does not lie below the source.\<close>

lemma copy_down_run:
  assumes "all_backed s src n" and "all_backed s dst n"
    and "unat dst + n \<le> 2 ^ 64" and "src \<le> dst"
  shows "copy_down n (dst + of_nat n) (src + of_nat n) s = Inr ((), s\<lparr>mem := copied (mem s) dst src n\<rparr>)"
  using assms
proof (induction n arbitrary: s)
  case 0
  then show ?case by (simp add: run copied_def)
next
  case (Suc n)
  let ?n = "of_nat n :: u64"
  let ?s = "s\<lparr>mem := (mem s)(dst + ?n := mem s (src + ?n))\<rparr>"
  have n: "unat ?n = n"
    using Suc.prems(3) by (simp add: unat_of_nat)
  have bk: "backed s (src + ?n)" "backed s (dst + ?n)" "all_backed ?s src n" "all_backed ?s dst n"
    using Suc.prems(1,2) by (simp_all add: all_backed_Suc')
  have ih: "copy_down n (dst + ?n) (src + ?n) ?s = Inr ((), ?s\<lparr>mem := copied (mem ?s) dst src n\<rparr>)"
    by (rule Suc.IH) (use bk Suc.prems(3,4) in simp_all)
  have "copied (mem ?s) dst src n b = copied (mem s) dst src (Suc n) b" for b
  proof (cases "b = dst + ?n")
    case True
    with n show ?thesis by (simp add: copied_def)
  next
    case False
    have "unat (b - dst) \<noteq> n"
      using False by (metis add.commute diff_add_cancel of_nat_unat ucast_id)
    moreover have "src + (b - dst) \<noteq> dst + ?n" if lt: "unat (b - dst) < n"
    proof
      assume eq: "src + (b - dst) = dst + ?n"
      have "unat (dst + ?n) = unat dst + n"
        using unat_add_small [OF Suc.prems(3), of ?n] n by simp
      moreover have "unat src + Suc n \<le> 2 ^ 64" "unat (b - dst) < Suc n"
        using Suc.prems(3,4) lt by (simp_all add: word_le_nat_alt)
      ultimately have "unat dst + n = unat src + unat (b - dst)"
        using unat_add_small [of src "Suc n" "b - dst"] eq by (simp only:)
      with lt Suc.prems(4) show False by (simp add: word_le_nat_alt)
    qed
    ultimately show ?thesis
      using False by (auto simp: copied_def less_Suc_eq)
  qed
  then have cp: "copied (mem ?s) dst src n = copied (mem s) dst src (Suc n)"
    by (rule ext)
  have "dst + of_nat (Suc n) - 1 = dst + ?n" "src + of_nat (Suc n) - 1 = src + ?n"
    by (simp_all add: algebra_simps)
  then show ?case
    using bk ih unfolding cp by (simp add: run algebra_simps)
qed

text \<open>\<open>memmove\<close> copies the source as it was before the call, whatever the overlap.\<close>

lemma memmove_run [run]:
  assumes "all_backed s src (unat n)" and "all_backed s dst (unat n)"
    and "unat src + unat n \<le> 2 ^ 64" and "unat dst + unat n \<le> 2 ^ 64"
  shows "memmove dst src n s = Inr (dst, s\<lparr>mem := copied (mem s) dst src (unat n)\<rparr>)"
proof (cases "dst < src")
  case True
  with assms show ?thesis
    by (simp add: memmove_def run copy_up_run)
next
  case False
  with assms copy_down_run [of s src "unat n" dst] leI [OF False] show ?thesis
    by (simp add: memmove_def run)
qed

lemma fill_up_run:
  assumes "all_backed s dst n" and "n \<le> 2 ^ 64 - 1"
  shows "fill_up n dst c s = Inr ((), s\<lparr>mem := filled (mem s) dst c n\<rparr>)"
  using assms
proof (induction n arbitrary: dst s)
  case 0
  then show ?case by (simp add: run filled_def)
next
  case (Suc n)
  let ?s = "s\<lparr>mem := (mem s)(dst := c)\<rparr>"
  have bk: "backed s dst" "all_backed ?s (dst + 1) n"
    using Suc.prems(1) by (simp_all add: all_backed_Suc)
  have "filled (mem ?s) (dst + 1) c n = filled (mem s) dst c (Suc n)"
    using Suc.prems(2) unat_pred [of _ dst] by (fastforce simp: filled_def fun_eq_iff)
  moreover have "fill_up n (dst + 1) c ?s = Inr ((), ?s\<lparr>mem := filled (mem ?s) (dst + 1) c n\<rparr>)"
    by (rule Suc.IH) (use bk Suc.prems(2) in simp_all)
  ultimately have "fill_up n (dst + 1) c ?s = Inr ((), ?s\<lparr>mem := filled (mem s) dst c (Suc n)\<rparr>)"
    by (simp only:)
  then show ?case
    using bk by (simp add: run)
qed

lemma memset_run [run]:
  assumes "all_backed s dst (unat n)"
  shows "memset dst c n s = Inr (dst, s\<lparr>mem := filled (mem s) dst (ucast c) (unat n)\<rparr>)"
proof -
  have "unat n \<le> 2 ^ 64 - 1"
    using unsigned_less [of n, where 'a = nat] by simp
  with assms show ?thesis by (simp add: memset_def run fill_up_run)
qed

section \<open>Correctness of the string functions\<close>

text \<open>\<open>cstr m a xs\<close>: the characters \<open>xs\<close>, none of them NUL, and a NUL stand at address \<open>a\<close>.\<close>

primrec cstr :: "memory \<Rightarrow> u64 \<Rightarrow> u8 list \<Rightarrow> bool" where
  "cstr m a [] = (m a = 0)"
| "cstr m a (x # xs) = (x \<noteq> 0 \<and> m a = x \<and> cstr m (a + 1) xs)"

lemma strlen_loop_run:
  "cstr (mem s) a xs \<Longrightarrow> all_backed s a (Suc (length xs)) \<Longrightarrow> length xs < k \<Longrightarrow>
   strlen_loop k a i s = Inr (i + of_nat (length xs), s)"
proof (induction xs arbitrary: a i k)
  case Nil
  then show ?case by (cases k) (auto simp: run)
next
  case (Cons x xs)
  then obtain k' where "k = Suc k'" by (cases k) auto
  with Cons show ?case by (auto simp: run all_backed_Suc)
qed

lemma span_shift: "n < 2 ^ 64 - 1 \<Longrightarrow> span (a + 1) n \<subseteq> span a (Suc n)"
proof
  fix b
  assume n: "n < 2 ^ 64 - 1" and b: "b \<in> span (a + 1) n"
  show "b \<in> span a (Suc n)"
    using b unat_pred [of b a] by (cases "b = a") auto
qed

lemma cstr_cong:
  "(\<And>b. b \<in> span a (Suc (length xs)) \<Longrightarrow> m' b = m b) \<Longrightarrow> length xs < 2 ^ 64 - 1 \<Longrightarrow>
   cstr m' a xs = cstr m a xs"
proof (induction xs arbitrary: a)
  case Nil
  then show ?case by simp
next
  case (Cons x xs)
  have "m' b = m b" if "b \<in> span (a + 1) (Suc (length xs))" for b
    using that span_shift [of "Suc (length xs)" a] Cons.prems by auto
  with Cons show ?case by simp
qed

lemma copied_Suc:
  assumes "n < 2 ^ 64 - 1" and "\<And>b. b \<in> span src (Suc n) \<Longrightarrow> b \<noteq> dst"
  shows "copied (m(dst := m src)) (dst + 1) (src + 1) n = copied m dst src (Suc n)"
proof (rule ext)
  fix b
  show "copied (m(dst := m src)) (dst + 1) (src + 1) n b = copied m dst src (Suc n) b"
  proof (cases "b = dst")
    case True
    have "unat (dst - (dst + 1)) = 2 ^ 64 - 1"
      by (simp add: unsigned_minus_1_eq_mask mask_eq_exp_minus_1)
    with True assms(1) show ?thesis by (simp add: copied_def)
  next
    case False
    have "src + (b - dst) \<noteq> dst" if "unat (b - dst) < Suc n"
      using that assms(2) [of "src + (b - dst)"] by simp
    then show ?thesis
      using False unat_pred [OF False] by (auto simp: copied_def algebra_simps)
  qed
qed

lemma strcpy_loop_run:
  assumes "cstr (mem s) src xs" and "all_backed s src (Suc (length xs))"
    and "all_backed s dst (Suc (length xs))" and "length xs < k" and "length xs < 2 ^ 64 - 1"
    and "span src (Suc (length xs)) \<inter> span dst (Suc (length xs)) = {}"
  shows "strcpy_loop k dst src s = Inr ((), s\<lparr>mem := copied (mem s) dst src (Suc (length xs))\<rparr>)"
  using assms
proof (induction xs arbitrary: dst src s k)
  case Nil
  then obtain k' where "k = Suc k'" by (cases k) auto
  with Nil show ?case
    by (auto simp: run copied_def fun_eq_iff unat_eq_0 algebra_simps)
next
  case (Cons x xs)
  obtain k' where k: "k = Suc k'" using Cons.prems(4) by (cases k) auto
  let ?n = "Suc (length xs)"
  let ?s = "s\<lparr>mem := (mem s)(dst := mem s src)\<rparr>"
  have bk: "backed s src" "backed s dst" "all_backed s (src + 1) ?n" "all_backed s (dst + 1) ?n"
    using Cons.prems(2,3) by (auto simp: all_backed_Suc)
  have n: "?n < 2 ^ 64 - 1" using Cons.prems(5) by simp
  have sub: "span (src + 1) ?n \<subseteq> span src (Suc ?n)" "span (dst + 1) ?n \<subseteq> span dst (Suc ?n)"
    using n by (rule span_shift)+
  have dst: "b \<noteq> dst" if "b \<in> span src (Suc ?n)" for b
    using that Cons.prems(6) by auto
  have eq: "mem ?s b = mem s b" if "b \<in> span (src + 1) ?n" for b
    using dst [of b] that sub(1) by auto
  have "cstr (mem ?s) (src + 1) xs = cstr (mem s) (src + 1) xs"
    by (rule cstr_cong, erule eq) (use Cons.prems(5) in simp)
  then have "cstr (mem ?s) (src + 1) xs"
    using Cons.prems(1) by simp
  then have "strcpy_loop k' (dst + 1) (src + 1) ?s
      = Inr ((), ?s\<lparr>mem := copied (mem ?s) (dst + 1) (src + 1) ?n\<rparr>)"
    by (rule Cons.IH) (use bk sub Cons.prems(4-6) k in auto)
  moreover have "copied (mem ?s) (dst + 1) (src + 1) ?n = copied (mem s) dst src (Suc ?n)"
    using copied_Suc [OF n dst] by simp
  ultimately have "strcpy_loop k' (dst + 1) (src + 1) ?s
      = Inr ((), ?s\<lparr>mem := copied (mem s) dst src (Suc ?n)\<rparr>)"
    by (simp only:)
  then show ?case
    using bk k Cons.prems(1) by (simp add: run)
qed

lemma cstr_copied:
  assumes "cstr m src xs" and "length xs < 2 ^ 64 - 1"
  shows "cstr (copied m dst src (Suc (length xs))) dst xs"
proof -
  have "cstr (\<lambda>b. m (src + (b - d) + (d - dst))) d ys"
    if "cstr m (src + (d - dst)) ys" for d ys
    using that
  proof (induction ys arbitrary: d)
    case (Cons y ys)
    have "cstr m (src + (d + 1 - dst)) ys"
      using Cons.prems by (simp add: algebra_simps)
    then have "cstr (\<lambda>b. m (src + (b - (d + 1)) + (d + 1 - dst))) (d + 1) ys"
      by (rule Cons.IH)
    then show ?case using Cons.prems by (simp add: algebra_simps)
  qed simp
  from this [of dst xs] assms have "cstr (\<lambda>b. m (src + (b - dst))) dst xs"
    by simp
  with assms(2) show ?thesis
    by (subst cstr_cong [where m = "\<lambda>b. m (src + (b - dst))"]) (auto simp: copied_def)
qed

text \<open>What \<open>strcmp\<close> returns on two strings.\<close>

fun strcmp_spec :: "u8 list \<Rightarrow> u8 list \<Rightarrow> int" where
  "strcmp_spec [] [] = 0"
| "strcmp_spec [] (y # ys) = - uint y"
| "strcmp_spec (x # xs) [] = uint x"
| "strcmp_spec (x # xs) (y # ys) = (if x = y then strcmp_spec xs ys else uint x - uint y)"

lemma strcmp_run:
  "cstr (mem s) a xs \<Longrightarrow> cstr (mem s) b ys \<Longrightarrow>
   all_backed s a (Suc (length xs)) \<Longrightarrow> all_backed s b (Suc (length ys)) \<Longrightarrow>
   min (length xs) (length ys) < k \<Longrightarrow>
   strcmp k a b s = Inr (strcmp_spec xs ys, s)"
proof (induction xs ys arbitrary: a b k rule: strcmp_spec.induct)
  case (4 x xs y ys)
  then obtain k' where "k = Suc k'" by (cases k) auto
  with 4 show ?case by (auto simp: run all_backed_Suc min_def split: if_splits)
qed (case_tac k; auto simp: run all_backed_Suc)+

lemma strncmp_run:
  "cstr (mem s) a xs \<Longrightarrow> cstr (mem s) b ys \<Longrightarrow>
   all_backed s a (Suc (length xs)) \<Longrightarrow> all_backed s b (Suc (length ys)) \<Longrightarrow>
   min (length xs) (length ys) < k \<Longrightarrow>
   strncmp k a b len s = Inr (strcmp_spec (take (unat len) xs) (take (unat len) ys), s)"
proof (induction xs ys arbitrary: a b k len rule: strcmp_spec.induct)
  case (4 x xs y ys)
  then obtain k' where k: "k = Suc k'" by (cases k) auto
  show ?case
  proof (cases "len = 0")
    case True
    with 4 k show ?thesis by (auto simp: run all_backed_Suc)
  next
    case False
    then obtain l where "unat len = Suc l" "unat (len - 1) = l"
      by (metis Suc_pred' unat_gt_0 unat_minus_one_word diff_Suc_1)
    with 4 k False show ?thesis
      by (auto simp: run all_backed_Suc min_def word_gt_0 split: if_splits)
  qed
next
  case (1 a b k len)
  then show ?case by (cases k) (auto simp: run all_backed_Suc)
next
  case (2 y ys a b k len)
  then show ?case
    by (cases k; cases "unat len") (auto simp: run all_backed_Suc unat_eq_0)
next
  case (3 x xs a b k len)
  then show ?case
    by (cases k; cases "unat len") (auto simp: run all_backed_Suc unat_eq_0 word_gt_0)
qed

lemma strcmp_spec_eq_0_iff: "0 \<notin> set xs \<Longrightarrow> 0 \<notin> set ys \<Longrightarrow> strcmp_spec xs ys = 0 \<longleftrightarrow> xs = ys"
  by (induction xs ys rule: strcmp_spec.induct) (auto simp: uint_0_iff dest: unsigned_word_eqI)

lemma strcmp_spec_less_iff:
  "0 \<notin> set xs \<Longrightarrow> 0 \<notin> set ys \<Longrightarrow> strcmp_spec xs ys < 0 \<longleftrightarrow> (xs, ys) \<in> lexord {(c, d). c < d}"
  by (induction xs ys rule: strcmp_spec.induct)
    (auto simp: word_less_def uint_0_iff less_le)

lemma cstr_no_nul: "cstr m a xs \<Longrightarrow> 0 \<notin> set xs"
  by (induction xs arbitrary: a) auto

section \<open>Equivalence with a buffered copy\<close>

text \<open>The reference for \<open>memmove\<close>: the bytes are first read into a buffer and then written.\<close>

definition bytes_from :: "memory \<Rightarrow> u64 \<Rightarrow> nat \<Rightarrow> u8 list" where
  "bytes_from m a n = map (\<lambda>i. m (a + of_nat i)) [0..<n]"

definition put_bytes :: "memory \<Rightarrow> u64 \<Rightarrow> u8 list \<Rightarrow> memory" where
  "put_bytes m a xs = (\<lambda>b. if unat (b - a) < length xs then xs ! unat (b - a) else m b)"

lemma copied_buffered: "copied m dst src n = put_bytes m dst (bytes_from m src n)"
  by (auto simp: copied_def put_bytes_def bytes_from_def fun_eq_iff)

text \<open>
  C24. \<open>memmove\<close>, and \<open>memcpy\<close> with it, is equivalent to a copy through a buffer, however the two regions
  overlap: the loop from the front and the loop from the back never read a byte that they have overwritten.
\<close>

theorem memmove_buffered:
  assumes "all_backed s src (unat n)" and "all_backed s dst (unat n)"
    and "unat src + unat n \<le> 2 ^ 64" and "unat dst + unat n \<le> 2 ^ 64"
  shows "memmove dst src n s = Inr (dst, s\<lparr>mem := put_bytes (mem s) dst (bytes_from (mem s) src (unat n))\<rparr>) \<and>
    memcpy dst src n s = memmove dst src n s"
  using memmove_run [OF assms] by (simp add: copied_buffered memcpy_def)

theorem memmove_buffered_witness:
  "memmove 0x101 0x100 3 (machine0\<lparr>mem := \<lambda>a. ucast a\<rparr>) =
    Inr (0x101, machine0\<lparr>mem := put_bytes ucast 0x101 [0, 1, 2]\<rparr>)"
proof -
  have "bytes_from ucast 0x100 3 = [0, 1, 2]" by (simp add: bytes_from_def numeral_3_eq_3)
  then show ?thesis
    using memmove_buffered [of "machine0\<lparr>mem := \<lambda>a. ucast a\<rparr>" "0x100" 3 "0x101"]
    by (simp add: all_backed_def machine0_def)
qed

end
