(* ===== verification/Vgic.thy ===== *)
theory Vgic
  imports S2_Trap Lib
begin

text \<open>
  The virtual interrupt controller, \<open>src/vgic.c\<close>: the state the hypervisor keeps for the
  distributor and the redistributors that a guest sees, the handlers of the two emulated register
  blocks, and the injection of interrupts through the list registers.
\<close>

section \<open>Pools and list registers\<close>

definition vgic_alloc :: "nat option hcomp" where
  "vgic_alloc = locked_alloc g_vgic g_vgic_update (\<lambda>v. \<not> vgic_used v) (vgic_used_update (\<lambda>_. True))
     g_vgic_cpu_lock g_vgic_cpu_lock_update"

definition vgic_cpu_alloc :: "nat option hcomp" where
  "vgic_cpu_alloc = locked_alloc g_vgic_cpu g_vgic_cpu_update (\<lambda>v. \<not> vgic_cpu_used v)
     (vgic_cpu_used_update (\<lambda>_. True)) g_vgic_cpu_lock g_vgic_cpu_lock_update"

text \<open>\<open>used_lr\<close> has 16 bits; it is combined with \<open>1 << i\<close> as an \<open>int\<close> and truncated again.\<close>

abbreviation lr_bit :: "nat \<Rightarrow> u32" where
  "lr_bit i \<equiv> push_bit i 1"

definition lr_used :: "u16 \<Rightarrow> nat \<Rightarrow> bool" where
  "lr_used m i \<longleftrightarrow> (ucast m :: u32) AND lr_bit i \<noteq> 0"

primrec lr_search :: "nat option \<Rightarrow> nat list \<Rightarrow> int hcomp" where
  "lr_search p [] = mret (-1)"
| "lr_search p (i # is) = mbind (mthe p) (\<lambda>c. mbind (vgic_cpu_at c) (\<lambda>g.
     if \<not> lr_used (used_lr g) i then
       mthen (upd_vgic_cpu c (used_lr_update (\<lambda>m. ucast ((ucast m :: u32) OR lr_bit i)))) (mret (int i))
     else lr_search p is))"

definition vgic_lr_alloc :: "nat option \<Rightarrow> int hcomp" where
  "vgic_lr_alloc c = mbind (mget g_gic_lr_max) (\<lambda>n. lr_search c [0..<unat n])"

text \<open>The interrupt interface of a vcpu; a NULL pointer is a fault where it is used.\<close>

definition vgic_of :: "nat \<Rightarrow> nat option hcomp" where
  "vgic_of vc = mbind (vcpu_at vc) (\<lambda>v. mret (vcpu_vgic v))"

definition used_lr_step :: "nat option \<Rightarrow> nat \<Rightarrow> unit hcomp" where
  "used_lr_step p i =
     mbind (mthe p) (\<lambda>c.
     mbind (vgic_cpu_at c) (\<lambda>g.
     if lr_used (used_lr g) i then
       mbind (gic_read_lr i) (\<lambda>lr.
       if lr_is_inactive lr then
         upd_vgic_cpu c (used_lr_update (\<lambda>m. ucast ((ucast m :: u32) AND NOT (lr_bit i))))
       else mret ())
     else mret ()))"

definition vgic_used_lr_update :: "nat \<Rightarrow> unit hcomp" where
  "vgic_used_lr_update vc =
     mbind (vgic_of vc) (\<lambda>p.
     mbind (mget g_gic_lr_max) (\<lambda>n.
     mfor [0..<unat n] (used_lr_step p)))"

section \<open>Interrupt descriptors\<close>

text \<open>
  A \<open>struct vgic_irq *\<close>: an element of the two arrays of a \<open>struct vgic_cpu\<close>, or an address in
  the page of the shared interrupts. There a descriptor has three bytes: the priority, the
  target, and a byte with the bits \<open>enabled\<close> and \<open>igroup\<close>.
\<close>

datatype irq_ptr = Sgi "nat option" nat | Ppi "nat option" nat | Spi u64

definition sizeof_vgic_irq :: int where "sizeof_vgic_irq = 3"

definition vgic_irq_get :: "nat \<Rightarrow> int \<Rightarrow> irq_ptr option hcomp" where
  "vgic_irq_get vc intid =
     (if is_sgi intid then mbind (vgic_of vc) (\<lambda>c. mret (Some (Sgi c (nat intid))))
      else if is_ppi intid then mbind (vgic_of vc) (\<lambda>c. mret (Some (Ppi c (nat (intid - 16)))))
      else if is_spi intid then
        mbind (vm_of vc) (\<lambda>v. mbind (vm_at v) (\<lambda>vm. mbind (mthe (vm_vgic vm)) (\<lambda>g. mbind (vgic_at g) (\<lambda>vg.
        mret (Some (Spi (spis vg + of_int (sizeof_vgic_irq * (intid - 32)))))))))
      else mret None)"

definition irq_rd :: "(vgic_irq \<Rightarrow> 'b) \<Rightarrow> u64 \<Rightarrow> (u8 \<Rightarrow> 'b) \<Rightarrow> irq_ptr \<Rightarrow> 'b hcomp" where
  "irq_rd sel k dec p =
     (case p of
        Sgi p i \<Rightarrow> mbind (mthe p) (\<lambda>c. mbind (vgic_cpu_at c) (\<lambda>g. mbind (mnth (sgis g) i) (\<lambda>q. mret (sel q))))
      | Ppi p i \<Rightarrow> mbind (mthe p) (\<lambda>c. mbind (vgic_cpu_at c) (\<lambda>g. mbind (mnth (ppis g) i) (\<lambda>q. mret (sel q))))
      | Spi a \<Rightarrow> mbind (ld8 (a + k)) (\<lambda>b. mret (dec b)))"

definition irq_wr :: "(vgic_irq \<Rightarrow> vgic_irq) \<Rightarrow> u64 \<Rightarrow> (u8 \<Rightarrow> u8) \<Rightarrow> irq_ptr \<Rightarrow> unit hcomp" where
  "irq_wr upd k enc p =
     (case p of
        Sgi p i \<Rightarrow> mbind (mthe p) (\<lambda>c. mbind (vgic_cpu_at c) (\<lambda>g. mthen (mnth (sgis g) i)
          (upd_vgic_cpu c (sgis_update (\<lambda>qs. qs[i := upd (qs ! i)])))))
      | Ppi p i \<Rightarrow> mbind (mthe p) (\<lambda>c. mbind (vgic_cpu_at c) (\<lambda>g. mthen (mnth (ppis g) i)
          (upd_vgic_cpu c (ppis_update (\<lambda>qs. qs[i := upd (qs ! i)])))))
      | Spi a \<Rightarrow> mbind (ld8 (a + k)) (\<lambda>b. st8 (a + k) (enc b)))"

abbreviation get_enabled :: "irq_ptr \<Rightarrow> bool hcomp" where
  "get_enabled \<equiv> irq_rd irq_enabled 2 (\<lambda>b. bit b 0)"

abbreviation set_enabled :: "bool \<Rightarrow> irq_ptr \<Rightarrow> unit hcomp" where
  "set_enabled e \<equiv> irq_wr (irq_enabled_update (\<lambda>_. e)) 2 (\<lambda>b. if e then b OR 1 else b AND NOT 1)"

abbreviation get_priority :: "irq_ptr \<Rightarrow> u8 hcomp" where
  "get_priority \<equiv> irq_rd irq_priority 0 (\<lambda>b. b)"

abbreviation set_priority :: "u8 \<Rightarrow> irq_ptr \<Rightarrow> unit hcomp" where
  "set_priority v \<equiv> irq_wr (irq_priority_update (\<lambda>_. v)) 0 (\<lambda>_. v)"

abbreviation get_target :: "irq_ptr \<Rightarrow> u8 hcomp" where
  "get_target \<equiv> irq_rd irq_target 1 (\<lambda>b. b)"

abbreviation set_target :: "u8 \<Rightarrow> irq_ptr \<Rightarrow> unit hcomp" where
  "set_target v \<equiv> irq_wr (irq_target_update (\<lambda>_. v)) 1 (\<lambda>_. v)"

definition vgic_irq_enable :: "int \<Rightarrow> unit hcomp" where
  "vgic_irq_enable intid = (if is_sgi_ppi intid \<or> is_spi intid then gic_irq_enable (of_int intid)
     else mfail (Panic ''[vgic_irq_enable] invalid intid''))"

definition vgic_irq_disable :: "int \<Rightarrow> unit hcomp" where
  "vgic_irq_disable intid = (if is_sgi_ppi intid \<or> is_spi intid then gic_irq_disable (of_int intid)
     else mfail (Panic ''[vgic_irq_disable] invalid intid''))"

section \<open>The emulated distributor\<close>

abbreviation within :: "u64 \<Rightarrow> u64 \<Rightarrow> u64 \<Rightarrow> bool" where
  "within off lo hi \<equiv> lo \<le> off \<and> off \<le> hi"

definition lock_vgic :: "unit hcomp" where
  "lock_vgic = mlock g_vgic_lock g_vgic_lock_update"

definition unlock_vgic :: "unit hcomp" where
  "unlock_vgic = munlock g_vgic_lock_update"

text \<open>The number of the first interrupt of a register that has \<open>per\<close> interrupts.\<close>

definition first_intid :: "u64 \<Rightarrow> u64 \<Rightarrow> u64 \<Rightarrow> int" where
  "first_intid off base per = sint (ucast ((off - base) div 4 * per) :: i32)"

text \<open>The loops that gather one bit or one byte per interrupt; \<open>1 << i\<close> is a signed \<open>int\<close>.\<close>

definition read_enabled :: "nat \<Rightarrow> int \<Rightarrow> u64 hcomp" where
  "read_enabled vc intid =
     mfold [0..<32] (\<lambda>i val64.
       mbind (vgic_irq_get vc (intid + int i)) (\<lambda>p. mbind (mthe p) (\<lambda>p.
       mbind (get_enabled p) (\<lambda>e.
       mret (if e then val64 OR sext64 (push_bit i 1) else val64))))) 0"

definition write_enabled :: "nat \<Rightarrow> int \<Rightarrow> u64 \<Rightarrow> bool \<Rightarrow> (int \<Rightarrow> unit hcomp) \<Rightarrow> unit hcomp" where
  "write_enabled vc intid val e hw =
     mfor [0..<32] (\<lambda>i.
       mbind (vgic_irq_get vc (intid + int i)) (\<lambda>p.
       if drop_bit i val AND 1 \<noteq> 0 then
         mbind (mthe p) (\<lambda>p. mthen (set_enabled e p) (hw (intid + int i)))
       else mret ()))"

definition read_bytes :: "(irq_ptr \<Rightarrow> u8 hcomp) \<Rightarrow> (u32 \<Rightarrow> u64) \<Rightarrow> nat \<Rightarrow> int \<Rightarrow> u64 hcomp" where
  "read_bytes field ext vc intid =
     mfold [0..<4] (\<lambda>i val64.
       mbind (vgic_irq_get vc (intid + int i)) (\<lambda>p. mbind (mthe p) (\<lambda>p.
       mbind (field p) (\<lambda>b. mret (val64 OR ext (push_bit (i * 8) (ucast b))))))) 0"

definition write_priorities :: "nat \<Rightarrow> int \<Rightarrow> u64 \<Rightarrow> unit hcomp" where
  "write_priorities vc intid val =
     mfor [0..<4] (\<lambda>i.
       mbind (vgic_irq_get vc (intid + int i)) (\<lambda>p. mbind (mthe p) (\<lambda>p.
       set_priority (ucast (drop_bit (i * 8) val AND 0xff)) p)))"

definition vgicd_mmio_read :: "nat \<Rightarrow> u64 \<Rightarrow> reg_ptr \<Rightarrow> mmio_access \<Rightarrow> int hcomp" where
  "vgicd_mmio_read vc off val acc =
     mbind (vm_of vc) (\<lambda>v. mbind (vm_at v) (\<lambda>vm.
     if off = GICD_CTLR then
       mthen lock_vgic
       (mbind (mthe (vm_vgic vm)) (\<lambda>g. mbind (vgic_at g) (\<lambda>vg.
        let ctlr = (if enable_grp1ns vg then GICD_CTLR_G1NS_EN else 0) OR (GICD_CTLR_ARE_NS OR GICD_CTLR_G1NS_EN) in
        mthen unlock_vgic (mthen (put_val val ctlr) (mret 0)))))
     else if off = GICD_TYPER \<or> off = GICD_IIDR \<or> off = GICD_TYPER2 then
       mbind (gicd_rd off) (\<lambda>r. mthen (put_val val (ucast r)) (mret 0))
     else if within off (GICD_IGROUPR 0) (GICD_IGROUPR 31) then
       mthen (put_val val 0xffffffff) (mret 0)
     else if within off (GICD_ISENABLER 0) (GICD_ISENABLER 31) then
       mthen lock_vgic
       (mbind (read_enabled vc (first_intid off (GICD_ISENABLER 0) 32)) (\<lambda>val64.
        mthen unlock_vgic (mthen (put_val val val64) (mret 0))))
     else if within off (GICD_ICENABLER 0) (GICD_ICENABLER 31) then
       mthen lock_vgic
       (mbind (read_enabled vc (first_intid off (GICD_ICENABLER 0) 32)) (\<lambda>val64.
        mthen unlock_vgic (mthen (put_val val val64) (mret 0))))
     else if within off (GICD_IPRIORITYR 0) (GICD_IPRIORITYR 254) then
       mthen lock_vgic
       (mbind (read_bytes get_priority zext64 vc (first_intid off (GICD_IPRIORITYR 0) 4)) (\<lambda>val64.
        mthen unlock_vgic (mthen (put_val val val64) (mret 0))))
     else if within off (GICD_ITARGETSR 0) (GICD_ITARGETSR 254) then
       mthen lock_vgic
       (mbind (read_bytes get_target zext64 vc (first_intid off (GICD_ITARGETSR 0) 4)) (\<lambda>val64.
        mthen unlock_vgic (mthen (put_val val val64) (mret 0))))
     else mret 0))"

text \<open>The loop over the four bytes of GICD_ITARGETSR.\<close>

definition write_targets :: "nat \<Rightarrow> int \<Rightarrow> u64 \<Rightarrow> unit hcomp" where
  "write_targets vc intid val =
     mfor [0..<4] (\<lambda>i.
       mbind (vgic_irq_get vc (intid + int i)) (\<lambda>p. mbind (mthe p) (\<lambda>p.
       let t = ucast (drop_bit (i * 8) val AND 0xff) in
       mthen (set_target t p)
       (if is_spi (intid + int i) then
          mbind (get_target p) (\<lambda>t. gic_set_target_by_pe_field (of_int (intid + int i)) t)
        else mthen unlock_vgic (mfail (Panic ''[vgicd_mmio_write] invalid intid''))))))"

definition vgicd_mmio_write :: "nat \<Rightarrow> u64 \<Rightarrow> u64 \<Rightarrow> mmio_access \<Rightarrow> int hcomp" where
  "vgicd_mmio_write vc off val acc =
     mbind (vm_of vc) (\<lambda>v. mbind (vm_at v) (\<lambda>vm.
     if off = GICD_CTLR then
       mbind (mthe (vm_vgic vm)) (\<lambda>g.
       mthen (upd_vgic g (enable_grp1ns_update (\<lambda>_. val AND GICD_CTLR_G1NS_EN \<noteq> 0))) (mret 0))
     else if within off (GICD_ISENABLER 0) (GICD_ISENABLER 31) then
       mthen lock_vgic
       (mthen (write_enabled vc (first_intid off (GICD_ISENABLER 0) 32) val True vgic_irq_enable)
       (mthen unlock_vgic (mret 0)))
     else if within off (GICD_ICENABLER 0) (GICD_ICENABLER 31) then
       mthen lock_vgic
       (mthen (write_enabled vc (first_intid off (GICD_ICENABLER 0) 32) val False vgic_irq_disable)
       (mthen unlock_vgic (mret 0)))
     else if within off (GICD_IPRIORITYR 0) (GICD_IPRIORITYR 254) then
       mthen (write_priorities vc (first_intid off (GICD_IPRIORITYR 0) 4) val) (mret 0)
     else if within off (GICD_ITARGETSR 0) (GICD_ITARGETSR 254) then
       mthen lock_vgic
       (mthen (write_targets vc (first_intid off (GICD_ITARGETSR 0) 4) val)
       (mthen unlock_vgic (mret 0)))
     else if within off (GICD_IROUTER 32) (GICD_IROUTER 1019) then
       mthen (gic_set_target_by_affinity (ucast ((off - 0x6000) div 8)) (ucast val)) (mret 0)
     else mret 0))"

section \<open>The emulated redistributors\<close>

definition gicr_idx :: "u64 \<Rightarrow> u32" where "gicr_idx off = ucast (off div GICRSTRIDE)"
definition gicr_off :: "u64 \<Rightarrow> u64" where "gicr_off off = off mod GICRSTRIDE"

text \<open>The comparison of the unsigned index with the signed number of vcpus is unsigned.\<close>

definition gicr_bad :: "u64 \<Rightarrow> vm \<Rightarrow> bool" where
  "gicr_bad off vm \<longleftrightarrow> gicr_idx off > of_int (nvcpu vm - 1)"

text \<open>The vcpu that owns the redistributor; NULL is a fault where it is used.\<close>

definition gicr_vcpu :: "u64 \<Rightarrow> vm \<Rightarrow> nat option hcomp" where
  "gicr_vcpu off vm = mnth (vm_vcpus vm) (unat (gicr_idx off))"

definition cpu_arg :: "vcpu \<Rightarrow> nat" where
  "cpu_arg c = unat (of_int (vcpu_cpuid c) :: u32)"

definition vgicr_mmio_read :: "nat \<Rightarrow> u64 \<Rightarrow> reg_ptr \<Rightarrow> mmio_access \<Rightarrow> int hcomp" where
  "vgicr_mmio_read vc off val acc =
     mbind (vm_of vc) (\<lambda>v. mbind (vm_at v) (\<lambda>vm.
     if gicr_bad off vm then mret (-1)
     else mbind (gicr_vcpu off vm) (\<lambda>target.
     let r = gicr_off off in
     if r = GICR_CTLR \<or> r = GICR_WAKER \<or> r = GICR_ISPENDR0 \<or> r = GICR_ICPENDR0 \<or>
        r = GICR_ISACTIVER0 \<or> r = GICR_ICACTIVER0 then
       mthen (put_val val 0) (mret 0)
     else if r = GICR_IIDR \<or> r = GICR_TYPER then
       mbind (mthe target) (\<lambda>t. mbind (vcpu_at t) (\<lambda>c.
       mbind (gicr_r64 (cpu_arg c) (ucast r)) (\<lambda>w. mthen (put_val val w) (mret 0))))
     else if r = GICR_IGROUPR0 then mthen (put_val val 0xffffffff) (mret 0)
     else if r = GICR_ISENABLER0 \<or> r = GICR_ICENABLER0 then
       mbind (mthe target) (\<lambda>t. mbind (read_enabled t 0) (\<lambda>val64. mthen (put_val val val64) (mret 0)))
     else if within r (GICR_IPRIORITYR 0) (GICR_IPRIORITYR 7) then
       mbind (mthe target) (\<lambda>t.
       mbind (read_bytes get_priority sext64 t (first_intid off (GICR_IPRIORITYR 0) 4)) (\<lambda>val64.
       mthen (put_val val val64) (mret 0)))
     else if r = GICR_ICFGR0 then
       mthen (put_val val (fold (\<lambda>i val64. val64 OR sext64 (push_bit i 2)) [0..<16] 0)) (mret 0)
     else mret (-1))))"

definition vgicr_mmio_write :: "nat \<Rightarrow> u64 \<Rightarrow> u64 \<Rightarrow> mmio_access \<Rightarrow> int hcomp" where
  "vgicr_mmio_write vc off val acc =
     mbind (vm_of vc) (\<lambda>v. mbind (vm_at v) (\<lambda>vm.
     if gicr_bad off vm then mthen cpuid (mret (-1))
     else mbind (gicr_vcpu off vm) (\<lambda>target.
     let r = gicr_off off in
     if r = GICR_ISENABLER0 then
       mbind (mthe target) (\<lambda>t. mthen (write_enabled t 0 val True vgic_irq_enable) (mret 0))
     else if r = GICR_ICENABLER0 then
       mbind (mthe target) (\<lambda>t. mthen (write_enabled t 0 val False vgic_irq_disable) (mret 0))
     else if within r (GICR_IPRIORITYR 0) (GICR_IPRIORITYR 7) then
       mbind (mthe target) (\<lambda>t.
       mthen (write_priorities t (first_intid off (GICR_IPRIORITYR 0) 4) val) (mret 0))
     else if r = GICR_CTLR \<or> r = GICR_IIDR \<or> r = GICR_TYPER \<or> r = GICR_WAKER \<or> r = GICR_IGROUPR0 \<or>
        r = GICR_ISPENDR0 \<or> r = GICR_ICPENDR0 \<or> r = GICR_ISACTIVER0 \<or> r = GICR_ICACTIVER0 \<or>
        r = GICR_ICFGR0 \<or> r = GICR_IGRPMODR0 then mret 0
     else mthen cpuid (mret (-1)))))"

section \<open>Creation, injection and initialisation\<close>

definition new_vgic :: "nat \<Rightarrow> nat hcomp" where
  "new_vgic v =
     mbind vgic_alloc (\<lambda>p.
     case p of
       None \<Rightarrow> mfail (Panic ''[new_vgic] no mem'')
     | Some g \<Rightarrow>
         mbind gic_max_spi (\<lambda>n.
         mthen (upd_vgic g (\<lambda>vg. vg\<lparr>max_spi_intid := n, spi_nums := n - 31, enable_grp1ns := False\<rparr>))
         (mbind alloc_page (\<lambda>page.
          mthen (upd_vgic g (spis_update (\<lambda>_. page)))
         (mthen (s2_pt_trap v GICDBASE GICDSIZE Vgicd_mmio)
         (mthen (s2_pt_trap v GICRBASE GICRSIZE Vgicr_mmio)
         (mret g)))))))"

definition new_vgic_cpu :: "int \<Rightarrow> nat option hcomp" where
  "new_vgic_cpu vcpuid =
     mbind vgic_cpu_alloc (\<lambda>p.
     case p of
       None \<Rightarrow> mret None
     | Some c \<Rightarrow>
         mthen (upd_vgic_cpu c (used_lr_update (\<lambda>_. 0)))
         (mthen (upd_vgic_cpu c (sgis_update (map (\<lambda>q. q\<lparr>irq_enabled := True, irq_target := of_int vcpuid\<rparr>))))
         (mthen (upd_vgic_cpu c (ppis_update (map (\<lambda>q. q\<lparr>irq_enabled := False, irq_target := of_int vcpuid\<rparr>))))
         (mret (Some c)))))"

definition vgic_inject_virq :: "nat \<Rightarrow> u32 \<Rightarrow> u32 \<Rightarrow> int \<Rightarrow> int hcomp" where
  "vgic_inject_virq vc pirq virq grp =
     mbind (vgic_of vc) (\<lambda>c.
     mbind (vgic_lr_alloc c) (\<lambda>n.
     if n < 0 then mret (-1)
     else mthen (gic_write_lr (nat n) (gic_make_lr pirq virq grp)) (mret 0)))"

definition vgic_restore_state :: "nat option \<Rightarrow> unit hcomp" where
  "vgic_restore_state g = mret ()"

definition vgic_init :: "unit hcomp" where
  "vgic_init = mmod (\<lambda>s. s\<lparr>g_vgic_lock := spinlock_init, g_vgic_cpu_lock := spinlock_init,
     g_vgic := map (\<lambda>g. g\<lparr>vgic_used := False, vgic_lock := spinlock_init\<rparr>) (g_vgic s),
     g_vgic_cpu := map (vgic_cpu_used_update (\<lambda>_. False)) (g_vgic_cpu s)\<rparr>)"

section \<open>List registers\<close>

text \<open>The list registers are numbered below 16, so a mark is one bit of \<open>used_lr\<close>.\<close>

lemma lr_used_bit: "i < 16 \<Longrightarrow> lr_used m i \<longleftrightarrow> bit m i"
proof -
  assume "i < 16"
  then have "bit ((ucast m :: u32) AND lr_bit i) n \<longleftrightarrow> n = i \<and> bit m i" for n
    by (auto simp: bit_and_iff bit_push_one bit_simps)
  then show ?thesis
    unfolding lr_used_def by (metis bit_eq_iff bit_0_eq bot_apply bot_bool_def)
qed

lemma bit_mark_lr:
  "i < 16 \<Longrightarrow> bit (ucast ((ucast (m :: u16) :: u32) OR lr_bit i) :: u16) j \<longleftrightarrow> bit m j \<or> j = i"
  by (auto simp: bit_or_iff bit_push_one bit_simps dest: bit_imp_le_length)

lemma bit_clear_lr:
  "i < 16 \<Longrightarrow> bit (ucast ((ucast (m :: u16) :: u32) AND NOT (lr_bit i)) :: u16) j \<longleftrightarrow> bit m j \<and> j \<noteq> i"
  by (auto simp: bit_and_iff bit_not_iff bit_push_one bit_simps dest: bit_imp_le_length)

definition free_lr :: "nat \<Rightarrow> u16 \<Rightarrow> nat option" where
  "free_lr n m = List.find (\<lambda>i. \<not> bit m i) [0..<n]"

definition mark_lr :: "nat \<Rightarrow> u16 \<Rightarrow> u16" where
  "mark_lr i m = ucast ((ucast m :: u32) OR lr_bit i)"

definition put_used_lr :: "nat \<Rightarrow> u16 \<Rightarrow> hyp \<Rightarrow> hyp" where
  "put_used_lr c m s = s\<lparr>g_vgic_cpu := (g_vgic_cpu s)[c := (g_vgic_cpu s ! c)\<lparr>used_lr := m\<rparr>]\<rparr>"

lemma lr_search_run:
  assumes "c < length (g_vgic_cpu s)" and "\<forall>i \<in> set is. i < 16"
  shows "lr_search (Some c) is s =
    (case List.find (\<lambda>i. \<not> bit (used_lr (g_vgic_cpu s ! c)) i) is of
       None \<Rightarrow> Inr (-1, s)
     | Some i \<Rightarrow> Inr (int i, put_used_lr c (mark_lr i (used_lr (g_vgic_cpu s ! c))) s))"
  using assms(2)
proof (induction "is")
  case Nil
  then show ?case by (simp add: run)
next
  case (Cons i "is")
  have "(g_vgic_cpu s ! c)\<lparr>used_lr := mark_lr i (used_lr (g_vgic_cpu s ! c))\<rparr> =
      used_lr_update (\<lambda>m. ucast ((ucast m :: u32) OR lr_bit i)) (g_vgic_cpu s ! c)"
    by (simp add: mark_lr_def)
  with Cons assms(1) show ?case
    by (simp add: run lr_used_bit put_used_lr_def)
qed

text \<open>The vcpu \<open>vc\<close> has the interrupt interface \<open>c\<close>, and there are at most 16 list registers.\<close>

definition has_vgic :: "hyp \<Rightarrow> nat \<Rightarrow> nat \<Rightarrow> bool" where
  "has_vgic s vc c \<longleftrightarrow> vc < length (vcpus s) \<and> vcpu_vgic (vcpus s ! vc) = Some c \<and>
     c < length (g_vgic_cpu s) \<and> unat (g_gic_lr_max s) \<le> 16"

abbreviation lr_marks :: "hyp \<Rightarrow> nat \<Rightarrow> u16" where
  "lr_marks s c \<equiv> used_lr (g_vgic_cpu s ! c)"

abbreviation lr_max :: "hyp \<Rightarrow> nat" where
  "lr_max s \<equiv> unat (g_gic_lr_max s)"

lemma vgic_lr_alloc_run:
  assumes "has_vgic s vc c"
  shows "vgic_lr_alloc (Some c) s = (case free_lr (lr_max s) (lr_marks s c) of
     None \<Rightarrow> Inr (-1, s) | Some i \<Rightarrow> Inr (int i, put_used_lr c (mark_lr i (lr_marks s c)) s))"
  using assms by (simp add: vgic_lr_alloc_def run lr_search_run free_lr_def has_vgic_def)

lemma free_lr_Some: "free_lr n m = Some i \<longleftrightarrow> i < n \<and> \<not> bit m i \<and> (\<forall>j < i. bit m j)"
proof
  assume "free_lr n m = Some i"
  then obtain k where "k < n" "\<not> bit m k" "i = k" "\<forall>j < k. bit m j"
    by (auto simp: free_lr_def find_Some_iff)
  then show "i < n \<and> \<not> bit m i \<and> (\<forall>j < i. bit m j)" by simp
next
  assume "i < n \<and> \<not> bit m i \<and> (\<forall>j < i. bit m j)"
  then show "free_lr n m = Some i" by (auto simp: free_lr_def find_Some_iff)
qed

lemma free_lr_None: "free_lr n m = None \<longleftrightarrow> (\<forall>i < n. bit m i)"
  by (auto simp: free_lr_def find_None_iff)

lemma bit_mark_lr' [simp]: "i < 16 \<Longrightarrow> bit (mark_lr i m) j \<longleftrightarrow> bit m j \<or> j = i"
  unfolding mark_lr_def by (rule bit_mark_lr)

lemma put_used_lr_simps [simp]:
  "pcpu (put_used_lr c m s) = pcpu s" "trace (put_used_lr c m s) = trace s" "dev (put_used_lr c m s) = dev s"
  "vcpus (put_used_lr c m s) = vcpus s" "g_gic_lr_max (put_used_lr c m s) = g_gic_lr_max s"
  "length (g_vgic_cpu (put_used_lr c m s)) = length (g_vgic_cpu s)"
  "c < length (g_vgic_cpu s) \<Longrightarrow> used_lr (g_vgic_cpu (put_used_lr c m s) ! c) = m"
  "put_used_lr c m (put_used_lr c m' s) = put_used_lr c m s"
  "(put_used_lr c m s)\<lparr>trace := t\<rparr> = put_used_lr c m (s\<lparr>trace := t\<rparr>)"
  by (cases "c < length (g_vgic_cpu s)"; simp add: put_used_lr_def list_update_beyond)+

lemma vgic_inject_virq_run:
  assumes "has_vgic s vc c"
  shows "vgic_inject_virq vc pirq virq grp s = (case free_lr (lr_max s) (lr_marks s c) of
     None \<Rightarrow> Inr (-1, s)
   | Some i \<Rightarrow> Inr (0, put_used_lr c (mark_lr i (lr_marks s c))
       (s\<lparr>trace := Wr (Sysreg (pcpu s) (ich_lr i)) (gic_make_lr pirq virq grp) # trace s\<rparr>)))"
proof -
  have "vgic_of vc s = Inr (Some c, s)"
    using assms by (simp add: vgic_of_def run has_vgic_def)
  moreover have "i < 16" if "free_lr (lr_max s) (lr_marks s c) = Some i" for i
    using that assms by (simp add: free_lr_Some has_vgic_def)
  ultimately show ?thesis
    using assms by (simp add: vgic_inject_virq_def run vgic_lr_alloc_run gic_write_lr_def split: option.split)
qed

text \<open>
  Reading a register does not change what the list registers hold; \<open>lr_value s i\<close> is what list
  register \<open>i\<close> of the executing processor holds.
\<close>

definition lrs_stable :: "hyp \<Rightarrow> bool" where
  "lrs_stable s \<longleftrightarrow> (\<forall>l t i. dev s (Rd l # t) (Sysreg (pcpu s) (ich_lr i)) = dev s t (Sysreg (pcpu s) (ich_lr i)))"

definition lr_value :: "hyp \<Rightarrow> nat \<Rightarrow> u64" where
  "lr_value s i = dev s (trace s) (Sysreg (pcpu s) (ich_lr i))"

lemma lr_value_reads:
  assumes "lrs_stable s" and "set rs \<subseteq> range Rd"
  shows "dev s (rs @ t) (Sysreg (pcpu s) (ich_lr i)) = dev s t (Sysreg (pcpu s) (ich_lr i))"
  using assms(2)
proof (induction rs)
  case Nil
  then show ?case by simp
next
  case (Cons r rs)
  then obtain l where "r = Rd l" by auto
  with Cons assms(1) show ?case by (simp add: lrs_stable_def)
qed

definition lr_update_inv :: "hyp \<Rightarrow> nat \<Rightarrow> nat \<Rightarrow> hyp \<Rightarrow> bool" where
  "lr_update_inv s c k t \<longleftrightarrow> (\<exists>m rs. t = put_used_lr c m (s\<lparr>trace := rs @ trace s\<rparr>) \<and> set rs \<subseteq> range Rd \<and>
     (\<forall>j. bit m j \<longleftrightarrow> bit (lr_marks s c) j \<and> \<not> (j < k \<and> lr_is_inactive (lr_value s j))))"

lemma lr_update_step:
  assumes v: "has_vgic s vc c" and st: "lrs_stable s" and k: "k < lr_max s" and t: "lr_update_inv s c k t"
  shows "wp (used_lr_step (Some c) k) (\<lambda>_. lr_update_inv s c (Suc k)) t"
proof -
  have c: "c < length (g_vgic_cpu s)" and k16: "k < 16"
    using v k by (simp_all add: has_vgic_def)
  obtain m rs where t': "t = put_used_lr c m (s\<lparr>trace := rs @ trace s\<rparr>)" and rs: "set rs \<subseteq> range Rd"
    and m: "\<And>j. bit m j \<longleftrightarrow> bit (lr_marks s c) j \<and> \<not> (j < k \<and> lr_is_inactive (lr_value s j))"
    using t by (auto simp: lr_update_inv_def)
  let ?r = "Rd (Sysreg (pcpu s) (ich_lr k))" and ?lr = "lr_value s k"
  have lr: "dev s (rs @ trace s) (Sysreg (pcpu s) (ich_lr k)) = ?lr"
    using lr_value_reads [OF st rs] by (simp add: lr_value_def)
  have read: "wp (gic_read_lr k) Q t \<longleftrightarrow> Q ?lr (put_used_lr c m (s\<lparr>trace := (?r # rs) @ trace s\<rparr>))" for Q
    using k16 lr by (simp add: gic_read_lr_def wp_def run t')
  have g: "wp (vgic_cpu_at c) Q t \<longleftrightarrow> Q (g_vgic_cpu t ! c) t" and u: "lr_used (used_lr (g_vgic_cpu t ! c)) k \<longleftrightarrow> bit m k" for Q
    using c k16 by (simp_all add: wp_def run t' lr_used_bit)
  let ?t = "put_used_lr c m (s\<lparr>trace := (?r # rs) @ trace s\<rparr>)"
  let ?m = "ucast ((ucast m :: u32) AND NOT (lr_bit k)) :: u16"
  have clear: "wp (upd_vgic_cpu c (used_lr_update (\<lambda>m. ucast ((ucast m :: u32) AND NOT (lr_bit k))))) Q ?t \<longleftrightarrow>
      Q () (put_used_lr c ?m (s\<lparr>trace := (?r # rs) @ trace s\<rparr>))" for Q
    using c by (simp add: wp_def run put_used_lr_def comp_def)
  have inv: "lr_update_inv s c (Suc k) (put_used_lr c m' (s\<lparr>trace := rs' @ trace s\<rparr>))"
    if "set rs' \<subseteq> range Rd" and "\<And>j. bit m' j \<longleftrightarrow> bit m j \<and> \<not> (j = k \<and> lr_is_inactive ?lr)" for m' rs'
    unfolding lr_update_inv_def using that m by (intro exI [of _ m'] exI [of _ rs']) (auto simp: less_Suc_eq)
  have "wp (gic_read_lr k) (\<lambda>lr. wp (if lr_is_inactive lr
         then upd_vgic_cpu c (used_lr_update (\<lambda>m. ucast ((ucast m :: u32) AND NOT (lr_bit k)))) else mret ())
       (\<lambda>_. lr_update_inv s c (Suc k))) t" if "bit m k"
  proof (cases "lr_is_inactive ?lr")
    case True
    then have "lr_update_inv s c (Suc k) (put_used_lr c ?m (s\<lparr>trace := (?r # rs) @ trace s\<rparr>))"
      using rs bit_clear_lr [OF k16] by (intro inv) auto
    with True show ?thesis unfolding read by (simp only: if_True clear)
  next
    case False
    then have "lr_update_inv s c (Suc k) ?t"
      using rs by (intro inv) auto
    with False show ?thesis unfolding read by (simp only: if_False wp_prims)
  qed
  moreover have "lr_update_inv s c (Suc k) t" if "\<not> bit m k"
    unfolding t' using inv [of rs m] rs that by blast
  ultimately show ?thesis
    by (simp add: used_lr_step_def mthe_def wps g u)
qed

lemma vgic_used_lr_update_run:
  assumes v: "has_vgic s vc c" and st: "lrs_stable s"
  shows "wp (vgic_used_lr_update vc) (\<lambda>_. lr_update_inv s c (lr_max s)) s"
proof -
  have "lr_update_inv s c 0 s"
    unfolding lr_update_inv_def
    by (rule exI [of _ "lr_marks s c"], rule exI [of _ "[]"]) (simp add: put_used_lr_def)
  then have "wp (mfor [0..<lr_max s] (used_lr_step (Some c))) (\<lambda>_. lr_update_inv s c (length [0..<lr_max s])) s"
    by (rule wp_mfor) (simp add: lr_update_step [OF v st])
  moreover have "vgic_of vc s = Inr (Some c, s)"
    using v by (simp add: vgic_of_def run has_vgic_def)
  ultimately show ?thesis
    by (simp add: vgic_used_lr_update_def wps wp_of_run)
qed

text \<open>
  C17. \<open>vgic_inject_virq\<close> takes the list register with the smallest number that is not in use, marks
  it, and writes to it, and to no other register, the value that makes the interrupt pending; it
  returns 0. When every list register is in use it returns -1 and changes nothing, so that the
  interrupt is lost.
\<close>

theorem vgic_inject_virq_correct:
  assumes "has_vgic s vc c"
  shows "if \<forall>i < lr_max s. bit (lr_marks s c) i
    then vgic_inject_virq vc pirq virq grp s = Inr (-1, s)
    else \<exists>i m. i < lr_max s \<and> \<not> bit (lr_marks s c) i \<and> (\<forall>j < i. bit (lr_marks s c) j) \<and>
      (\<forall>j. bit m j \<longleftrightarrow> bit (lr_marks s c) j \<or> j = i) \<and>
      vgic_inject_virq vc pirq virq grp s = Inr (0, s\<lparr>
        g_vgic_cpu := (g_vgic_cpu s)[c := (g_vgic_cpu s ! c)\<lparr>used_lr := m\<rparr>],
        trace := Wr (Sysreg (pcpu s) (ich_lr i)) (gic_make_lr pirq virq grp) # trace s\<rparr>)"
proof (cases "free_lr (lr_max s) (lr_marks s c)")
  case None
  then have "\<forall>i < lr_max s. bit (lr_marks s c) i"
    by (simp add: free_lr_None)
  moreover have "vgic_inject_virq vc pirq virq grp s = Inr (-1, s)"
    using vgic_inject_virq_run [OF assms, of pirq virq grp] None by simp
  ultimately show ?thesis by simp
next
  case (Some i)
  then have i: "i < lr_max s" "\<not> bit (lr_marks s c) i" "\<forall>j < i. bit (lr_marks s c) j"
    by (simp_all add: free_lr_Some)
  with assms have "\<forall>j. bit (mark_lr i (lr_marks s c)) j \<longleftrightarrow> bit (lr_marks s c) j \<or> j = i"
    by (simp add: has_vgic_def)
  moreover have "vgic_inject_virq vc pirq virq grp s = Inr (0, s\<lparr>
      g_vgic_cpu := (g_vgic_cpu s)[c := (g_vgic_cpu s ! c)\<lparr>used_lr := mark_lr i (lr_marks s c)\<rparr>],
      trace := Wr (Sysreg (pcpu s) (ich_lr i)) (gic_make_lr pirq virq grp) # trace s\<rparr>)"
    using vgic_inject_virq_run [OF assms, of pirq virq grp] Some by (simp add: put_used_lr_def)
  ultimately show ?thesis
    using i by auto
qed

text \<open>A machine on which one guest runs: its vcpu 0 is vcpu 0 of the array, four list registers.\<close>

definition guest0 :: hyp where
  "guest0 = hyp0\<lparr>dev := (\<lambda>_ l. case l of Sysreg c r \<Rightarrow> if r = ''tpidr_el2'' then 0x40100000 else 0 | _ \<Rightarrow> 0),
     g_gic_lr_max := 4,
     vcpus := (vcpus hyp0)[0 := vcpu0\<lparr>vcpu_vgic := Some 0, vcpu_vm := Some 0, vstate := RUNNING\<rparr>],
     g_vms := (g_vms hyp0)[0 := vm0\<lparr>vm_vgic := Some 0, vm_used := True, nvcpu := 1,
       vm_vcpus := [Some 0, None, None, None]\<rparr>],
     g_vgic := (g_vgic hyp0)[0 := vgic0\<lparr>vgic_used := True, spis := 0x42000000\<rparr>]\<rparr>"

lemma guest0_simps:
  "vcpus guest0 = (vcpus hyp0)[0 := vcpu0\<lparr>vcpu_vgic := Some 0, vcpu_vm := Some 0, vstate := RUNNING\<rparr>]"
  "length (vcpus guest0) = 4" "length (g_vgic_cpu guest0) = 4" "length (g_vms guest0) = 2" "length (g_vgic guest0) = 2"
  "g_gic_lr_max guest0 = 4" "g_vgic_cpu guest0 ! 0 = vgic_cpu0"
  by (simp_all add: guest0_def hyp0_def VCPU_MAX_def VM_MAX_def)

lemma guest0_vgic: "has_vgic guest0 0 0"
  by (simp add: has_vgic_def guest0_simps) (simp add: hyp0_def VCPU_MAX_def)

theorem vgic_inject_virq_correct_witness:
  "has_vgic guest0 0 0 \<and> (\<exists>s'. vgic_inject_virq 0 33 33 1 guest0 = Inr (0, s'))"
proof -
  have "\<not> (\<forall>i < lr_max guest0. bit (lr_marks guest0 0) i)"
    by (simp add: guest0_simps vgic_cpu0_def) (rule exI [of _ 0], simp)
  then show ?thesis
    using vgic_inject_virq_correct [OF guest0_vgic, of 33 33 1] guest0_vgic by (auto split: if_split_asm)
qed

section \<open>Interrupt descriptors as a table\<close>

text \<open>Where the descriptor of an interrupt is, and when it is there.\<close>

definition spi_ptr :: "u64 \<Rightarrow> int \<Rightarrow> u64" where
  "spi_ptr p i = p + of_int (3 * (i - 32))"

definition irq_desc :: "hyp \<Rightarrow> nat \<Rightarrow> int \<Rightarrow> irq_ptr" where
  "irq_desc s vc i =
     (if i < 16 then Sgi (vcpu_vgic (vcpus s ! vc)) (nat i)
      else if i < 32 then Ppi (vcpu_vgic (vcpus s ! vc)) (nat (i - 16))
      else Spi (spi_ptr (spis (g_vgic s ! the (vm_vgic (g_vms s ! the (vcpu_vm (vcpus s ! vc)))))) i))"

definition irq_ok :: "hyp \<Rightarrow> nat \<Rightarrow> int \<Rightarrow> bool" where
  "irq_ok s vc i \<longleftrightarrow> 0 \<le> i \<and> i < 1024 \<and> vc < length (vcpus s) \<and>
     (if i < 32 then
        (case vcpu_vgic (vcpus s ! vc) of None \<Rightarrow> False | Some c \<Rightarrow> c < length (g_vgic_cpu s) \<and>
           length (sgis (g_vgic_cpu s ! c)) = 16 \<and> length (ppis (g_vgic_cpu s ! c)) = 16)
      else
        (case vcpu_vm (vcpus s ! vc) of None \<Rightarrow> False | Some v \<Rightarrow> v < length (g_vms s) \<and>
           (case vm_vgic (g_vms s ! v) of None \<Rightarrow> False | Some g \<Rightarrow> g < length (g_vgic s) \<and>
              all_backed s (spis (g_vgic s ! g)) 4096)))"

lemma irq_ok_cases:
  assumes "irq_ok s vc i"
  obtains (sgi) c where "0 \<le> i" "i < 16" "vc < length (vcpus s)" "vcpu_vgic (vcpus s ! vc) = Some c"
      "c < length (g_vgic_cpu s)" "length (sgis (g_vgic_cpu s ! c)) = 16" "length (ppis (g_vgic_cpu s ! c)) = 16"
    | (ppi) c where "16 \<le> i" "i < 32" "vc < length (vcpus s)" "vcpu_vgic (vcpus s ! vc) = Some c"
      "c < length (g_vgic_cpu s)" "length (sgis (g_vgic_cpu s ! c)) = 16" "length (ppis (g_vgic_cpu s ! c)) = 16"
    | (spi) v g where "32 \<le> i" "i < 1024" "vc < length (vcpus s)" "vcpu_vm (vcpus s ! vc) = Some v"
      "v < length (g_vms s)" "vm_vgic (g_vms s ! v) = Some g" "g < length (g_vgic s)"
      "all_backed s (spis (g_vgic s ! g)) 4096"
proof (cases "i < 16")
  case True
  with assms show ?thesis by (auto simp: irq_ok_def split: option.splits intro: sgi)
next
  case False
  show ?thesis
  proof (cases "i < 32")
    case True
    with False assms show ?thesis by (auto simp: irq_ok_def split: option.splits intro: ppi)
  next
    case False
    with assms show ?thesis by (auto simp: irq_ok_def split: option.splits intro: spi)
  qed
qed

definition enabled_at :: "hyp \<Rightarrow> nat \<Rightarrow> int \<Rightarrow> bool" where
  "enabled_at s vc i =
     (case irq_desc s vc i of
        Sgi c k \<Rightarrow> irq_enabled (sgis (g_vgic_cpu s ! the c) ! k)
      | Ppi c k \<Rightarrow> irq_enabled (ppis (g_vgic_cpu s ! the c) ! k)
      | Spi a \<Rightarrow> bit (mem s (a + 2)) 0)"

definition put_enabled :: "nat \<Rightarrow> int \<Rightarrow> bool \<Rightarrow> hyp \<Rightarrow> hyp" where
  "put_enabled vc i e s =
     (case irq_desc s vc i of
        Sgi c k \<Rightarrow> s\<lparr>g_vgic_cpu := (g_vgic_cpu s)[the c :=
          sgis_update (\<lambda>qs. qs[k := irq_enabled_update (\<lambda>_. e) (qs ! k)]) (g_vgic_cpu s ! the c)]\<rparr>
      | Ppi c k \<Rightarrow> s\<lparr>g_vgic_cpu := (g_vgic_cpu s)[the c :=
          ppis_update (\<lambda>qs. qs[k := irq_enabled_update (\<lambda>_. e) (qs ! k)]) (g_vgic_cpu s ! the c)]\<rparr>
      | Spi a \<Rightarrow> s\<lparr>mem := (mem s)(a + 2 := (if e then mem s (a + 2) OR 1 else mem s (a + 2) AND NOT 1))\<rparr>)"

lemma vgic_irq_get_run:
  assumes "irq_ok s vc i"
  shows "vgic_irq_get vc i s = Inr (Some (irq_desc s vc i), s)"
  using assms
  by (cases rule: irq_ok_cases)
    (simp_all add: vgic_irq_get_def irq_desc_def run is_sgi_def is_ppi_def is_spi_def vgic_of_def vm_of_def
      sizeof_vgic_irq_def spi_ptr_def)

lemma spi_byte_backed:
  assumes "all_backed s p 4096" and "32 \<le> i" "i < 1024"
  shows "backed s (spi_ptr p i + 2)"
proof -
  have "nat (3 * (i - 32)) < 3000" using assms by (simp add: nat_less_iff)
  then have "nat (3 * (i - 32)) + 2 < 4096" by linarith
  then have "backed s (p + of_nat (nat (3 * (i - 32)) + 2))"
    using assms(1) unfolding all_backed_def by blast
  moreover have "(of_nat (nat (3 * (i - 32)) + 2) :: u64) = of_int (3 * (i - 32)) + 2"
    using assms by (simp add: of_nat_nat)
  ultimately show ?thesis unfolding spi_ptr_def by (simp only: add.assoc)
qed

lemma get_enabled_run:
  assumes "irq_ok s vc i"
  shows "get_enabled (irq_desc s vc i) s = Inr (enabled_at s vc i, s)"
  using assms
proof (cases rule: irq_ok_cases)
  case (spi v g)
  then show ?thesis using spi_byte_backed [of s "spis (g_vgic s ! g)" i]
    by (simp add: irq_rd_def irq_desc_def run enabled_at_def)
qed (simp_all add: irq_rd_def irq_desc_def run enabled_at_def)

lemma set_enabled_run:
  assumes "irq_ok s vc i"
  shows "set_enabled e (irq_desc s vc i) s = Inr ((), put_enabled vc i e s)"
  using assms
proof (cases rule: irq_ok_cases)
  case (spi v g)
  then show ?thesis using spi_byte_backed [of s "spis (g_vgic s ! g)" i]
    by (simp add: irq_wr_def irq_desc_def run put_enabled_def)
qed (simp_all add: irq_wr_def irq_desc_def run put_enabled_def)

lemma spi_ptr_inj: "32 \<le> i \<Longrightarrow> i < 1024 \<Longrightarrow> 32 \<le> j \<Longrightarrow> j < 1024 \<Longrightarrow> spi_ptr p i = spi_ptr p j \<longleftrightarrow> i = j"
proof -
  assume i: "32 \<le> i" "i < 1024" and j: "32 \<le> j" "j < 1024"
  have u: "uint (of_int (3 * (k - 32)) :: u64) = 3 * (k - 32)" if "32 \<le> k" "k < 1024" for k
    unfolding uint_word_of_int_eq using that by (intro take_bit_int_eq_self) simp_all
  have "spi_ptr p i = spi_ptr p j \<longleftrightarrow> (of_int (3 * (i - 32)) :: u64) = of_int (3 * (j - 32))"
    unfolding spi_ptr_def by (rule add_left_cancel)
  also have "\<dots> \<longleftrightarrow> 3 * (i - 32) = 3 * (j - 32)"
    by (simp only: word_uint_eq_iff u [OF i] u [OF j])
  finally show ?thesis by simp
qed

lemma irq_desc_cong:
  "vcpus s = vcpus t \<Longrightarrow> g_vms s = g_vms t \<Longrightarrow> g_vgic s = g_vgic t \<Longrightarrow> irq_desc s = irq_desc t"
  by (rule ext)+ (simp add: irq_desc_def)

lemma put_enabled_simps [simp]:
  "vcpus (put_enabled vc i e s) = vcpus s" "g_vms (put_enabled vc i e s) = g_vms s"
  "g_vgic (put_enabled vc i e s) = g_vgic s" "trace (put_enabled vc i e s) = trace s"
  "dev (put_enabled vc i e s) = dev s" "pcpu (put_enabled vc i e s) = pcpu s"
  "backed (put_enabled vc i e s) = backed s" "g_vgic_lock (put_enabled vc i e s) = g_vgic_lock s"
  "length (g_vgic_cpu (put_enabled vc i e s)) = length (g_vgic_cpu s)"
  by (simp_all add: put_enabled_def split: irq_ptr.split)

lemma irq_desc_put [simp]: "irq_desc (put_enabled vc i e s) = irq_desc s"
  by (rule irq_desc_cong) simp_all

lemma nth_update: "j < length xs \<Longrightarrow> xs[i := x] ! j = (if i = j then x else xs ! j)"
  by (cases "i < length xs") (auto simp: nth_list_update list_update_beyond)

lemma irq_ok_put [simp]: "irq_ok (put_enabled vc i e s) vc' j = irq_ok s vc' j"
proof -
  have "length (sgis (g_vgic_cpu (put_enabled vc i e s) ! c)) = length (sgis (g_vgic_cpu s ! c))"
    and "length (ppis (g_vgic_cpu (put_enabled vc i e s) ! c)) = length (ppis (g_vgic_cpu s ! c))"
    if "c < length (g_vgic_cpu s)" for c
    using that by (auto simp: put_enabled_def nth_update split: irq_ptr.split)
  moreover have "all_backed (put_enabled vc i e s) = all_backed s"
    by (rule all_backed_cong) simp
  ultimately show ?thesis
    by (auto simp: irq_ok_def split: option.splits)
qed

lemma bit_0_or_1: "bit (b OR 1 :: u8) 0" "\<not> bit (b AND NOT 1 :: u8) 0"
  by (simp_all add: bit_or_iff bit_and_iff bit_not_iff)

lemma enabled_at_put:
  assumes "irq_ok s vc i" and j: "irq_ok s vc j"
  shows "enabled_at (put_enabled vc i e s) vc j = (if j = i then e else enabled_at s vc j)"
  using assms(1)
proof (cases rule: irq_ok_cases)
  case (sgi c)
  with j show ?thesis
    by (cases rule: irq_ok_cases) (auto simp: enabled_at_def put_enabled_def irq_desc_def nth_list_update nat_eq_iff2)
next
  case (ppi c)
  with j show ?thesis
    by (cases rule: irq_ok_cases) (auto simp: enabled_at_def put_enabled_def irq_desc_def nth_list_update nat_eq_iff2)
next
  case (spi v g)
  note sp = spi
  from j show ?thesis
  proof (cases rule: irq_ok_cases)
    case (spi v' g')
    then show ?thesis
      using sp spi_ptr_inj [of i j "spis (g_vgic s ! g)"] bit_0_or_1
      by (auto simp: enabled_at_def put_enabled_def irq_desc_def)
  qed (use sp in \<open>auto simp: enabled_at_def put_enabled_def irq_desc_def\<close>)
qed

section \<open>The registers with one bit per interrupt\<close>

text \<open>
  The contract of a table of enable bits that a register block gives access to: \<open>getc\<close> reads the
  bit of an interrupt, \<open>setc i b\<close> gives it the value \<open>e\<close> when \<open>b\<close> holds, and everything else stays
  as it was as far as \<open>same\<close> tells. The loops over the 32 interrupts of a register rest on this.
\<close>

locale irq_bits =
  fixes ok :: "'s \<Rightarrow> int \<Rightarrow> bool" and en :: "'s \<Rightarrow> int \<Rightarrow> bool" and same :: "'s \<Rightarrow> 's \<Rightarrow> bool"
    and getc :: "int \<Rightarrow> ('s, bool) comp" and setc :: "int \<Rightarrow> bool \<Rightarrow> ('s, unit) comp" and e :: bool
  assumes getc_run: "ok s i \<Longrightarrow> getc i s = Inr (en s i, s)"
    and setc_wp: "ok s i \<Longrightarrow> wp (setc i b) (\<lambda>_ t. same s t \<and>
      (\<forall>j. ok s j \<longrightarrow> ok t j \<and> en t j = (if j = i \<and> b then e else en s j))) s"
    and same_refl: "same s s"
    and same_trans: "same s t \<Longrightarrow> same t u \<Longrightarrow> same s u"
begin

lemma read_loop:
  assumes "\<forall>k \<in> set ks. ok s (base + int k)"
  shows "mfold ks (\<lambda>k v. mbind (getc (base + int k)) (\<lambda>b. mret (if b then v OR f k else v))) v0 s =
    Inr (fold (\<lambda>k v. if en s (base + int k) then v OR f k else v) ks v0, s)"
  using assms by (induction ks arbitrary: v0) (simp_all add: run getc_run)

lemma write_loop:
  assumes "\<forall>k < n. ok s (base + int k)"
  shows "wp (mfor [0..<n] (\<lambda>k. setc (base + int k) (w k))) (\<lambda>_ t. same s t \<and>
    (\<forall>j. ok s j \<longrightarrow> ok t j \<and> en t j = (if base \<le> j \<and> j < base + int n \<and> w (nat (j - base)) then e else en s j))) s"
proof -
  define I where "I = (\<lambda>m t. same s t \<and>
    (\<forall>j. ok s j \<longrightarrow> ok t j \<and> en t j = (if base \<le> j \<and> j < base + int m \<and> w (nat (j - base)) then e else en s j)))"
  have "I 0 s"
    by (auto simp: I_def same_refl)
  moreover have "wp (setc (base + int ([0..<n] ! k)) (w ([0..<n] ! k))) (\<lambda>_. I (Suc k)) t"
    if k: "k < length [0..<n]" and I: "I k t" for k t
  proof -
    have ok: "ok t (base + int k)"
      using I assms k by (simp add: I_def)
    show ?thesis
    proof (rule wp_mono)
      show "wp (setc (base + int ([0..<n] ! k)) (w ([0..<n] ! k))) (\<lambda>_ u. same t u \<and>
          (\<forall>j. ok t j \<longrightarrow> ok u j \<and> en u j = (if j = base + int k \<and> w k then e else en t j))) t"
        using setc_wp [OF ok, of "w k"] k by simp
    next
      fix x u
      assume u: "same t u \<and> (\<forall>j. ok t j \<longrightarrow> ok u j \<and> en u j = (if j = base + int k \<and> w k then e else en t j))"
      then have "same s u"
        using I same_trans by (auto simp: I_def)
      moreover have "ok u j \<and> en u j = (if base \<le> j \<and> j < base + int (Suc k) \<and> w (nat (j - base)) then e else en s j)"
        if "ok s j" for j
      proof -
        have "ok t j" and t: "en t j = (if base \<le> j \<and> j < base + int k \<and> w (nat (j - base)) then e else en s j)"
          using I that by (auto simp: I_def)
        with u have "ok u j" and "en u j = (if j = base + int k \<and> w k then e else en t j)"
          by auto
        then show ?thesis
          unfolding t by (cases "j = base + int k") auto
      qed
      ultimately show "I (Suc k) u"
        by (simp add: I_def)
    qed
  qed
  ultimately have "wp (mfor [0..<n] (\<lambda>k. setc (base + int k) (w k))) (\<lambda>_. I (length [0..<n])) s"
    by (rule wp_mfor)
  then show ?thesis
    by (simp add: I_def)
qed

end

text \<open>What enabling interrupts for a vcpu leaves alone.\<close>

definition vgic_same :: "nat \<Rightarrow> hyp \<Rightarrow> hyp \<Rightarrow> bool" where
  "vgic_same vc s t \<longleftrightarrow>
     t = s\<lparr>mem := mem t, trace := trace t, g_vgic_cpu := g_vgic_cpu t\<rparr> \<and>
     length (g_vgic_cpu t) = length (g_vgic_cpu s) \<and>
     (\<forall>c < length (g_vgic_cpu s). lr_marks t c = lr_marks s c \<and>
        (vcpu_vgic (vcpus s ! vc) \<noteq> Some c \<longrightarrow> g_vgic_cpu t ! c = g_vgic_cpu s ! c)) \<and>
     (\<forall>a. (\<forall>i. 32 \<le> i \<and> i < 1024 \<longrightarrow> irq_desc s vc i \<noteq> Spi (a - 2)) \<longrightarrow> mem t a = mem s a)"

definition irq_body :: "nat \<Rightarrow> bool \<Rightarrow> (int \<Rightarrow> unit hcomp) \<Rightarrow> int \<Rightarrow> bool \<Rightarrow> unit hcomp" where
  "irq_body vc e hw i b = mbind (vgic_irq_get vc i) (\<lambda>p.
     if b then mbind (mthe p) (\<lambda>p. mthen (set_enabled e p) (hw i)) else mret ())"

lemma cpuid_run: "cpuid s = Inr (unat ((ucast (dev s (trace s) (Sysreg (pcpu s) ''mpidr_el1'')) :: u32) AND 0xf),
    s\<lparr>trace := Rd (Sysreg (pcpu s) ''mpidr_el1'') # trace s\<rparr>)"
  by (simp add: cpuid_def run)

lemma gic_irq_enable_trace: "\<exists>t. gic_irq_enable irq s = Inr ((), s\<lparr>trace := t\<rparr>)"
proof (cases "gic_base_type irq")
  case GIC_TYPE_GICD
  then show ?thesis by (simp add: gic_irq_enable_def run) (rule exI, rule refl)
next
  case GIC_TYPE_GICR
  then show ?thesis by (simp add: gic_irq_enable_def run cpuid_run) (rule exI, rule refl)
qed

lemma gic_irq_disable_trace: "\<exists>t. gic_irq_disable irq s = Inr ((), s\<lparr>trace := t\<rparr>)"
proof (cases "gic_base_type irq")
  case GIC_TYPE_GICD
  then show ?thesis by (simp add: gic_irq_disable_def run) (rule exI, rule refl)
next
  case GIC_TYPE_GICR
  then show ?thesis by (simp add: gic_irq_disable_def run cpuid_run) (rule exI, rule refl)
qed

lemma hw_irq_trace:
  assumes "0 \<le> i"
  shows "\<exists>t. vgic_irq_enable i s = Inr ((), s\<lparr>trace := t\<rparr>)" "\<exists>t. vgic_irq_disable i s = Inr ((), s\<lparr>trace := t\<rparr>)"
proof -
  have "is_sgi_ppi i \<or> is_spi i"
    using assms by (auto simp: is_sgi_ppi_def is_sgi_def is_ppi_def is_spi_def)
  then show "\<exists>t. vgic_irq_enable i s = Inr ((), s\<lparr>trace := t\<rparr>)" and "\<exists>t. vgic_irq_disable i s = Inr ((), s\<lparr>trace := t\<rparr>)"
    using gic_irq_enable_trace gic_irq_disable_trace by (simp_all add: vgic_irq_enable_def vgic_irq_disable_def)
qed

lemma irq_trace [simp]:
  "irq_desc (s\<lparr>trace := t\<rparr>) = irq_desc s" "irq_ok (s\<lparr>trace := t\<rparr>) = irq_ok s" "enabled_at (s\<lparr>trace := t\<rparr>) = enabled_at s"
proof -
  show d: "irq_desc (s\<lparr>trace := t\<rparr>) = irq_desc s"
    by (rule irq_desc_cong) simp_all
  show "irq_ok (s\<lparr>trace := t\<rparr>) = irq_ok s"
    by (rule ext)+ (auto simp: irq_ok_def split: option.split)
  show "enabled_at (s\<lparr>trace := t\<rparr>) = enabled_at s"
    by (rule ext)+ (simp add: enabled_at_def d split: irq_ptr.split)
qed

lemma irq_body_run:
  assumes ok: "irq_ok s vc i" and hw: "\<And>s. \<exists>t. hw i s = Inr ((), s\<lparr>trace := t\<rparr>)"
  shows "\<exists>t. irq_body vc e hw i b s = Inr ((), if b then (put_enabled vc i e s)\<lparr>trace := t\<rparr> else s)"
proof -
  obtain t where "hw i (put_enabled vc i e s) = Inr ((), (put_enabled vc i e s)\<lparr>trace := t\<rparr>)"
    using hw by blast
  then show ?thesis
    using vgic_irq_get_run [OF ok] set_enabled_run [OF ok, of e]
    by (intro exI [of _ t]) (simp add: irq_body_def run)
qed

lemma vgic_same_put:
  assumes "irq_ok s vc i"
  shows "vgic_same vc s ((put_enabled vc i e s)\<lparr>trace := t\<rparr>)"
  using assms
proof (cases rule: irq_ok_cases)
  case (spi v g)
  then show ?thesis
    by (auto simp: vgic_same_def put_enabled_def irq_desc_def)
qed (auto simp: vgic_same_def put_enabled_def irq_desc_def nth_update)

lemma vgic_same_refl: "vgic_same vc s s"
  by (simp add: vgic_same_def)

lemma vgic_same_trans:
  assumes s: "vgic_same vc s t" and t: "vgic_same vc t u"
  shows "vgic_same vc s u"
proof -
  have st: "t = s\<lparr>mem := mem t, trace := trace t, g_vgic_cpu := g_vgic_cpu t\<rparr>"
    and tu: "u = t\<lparr>mem := mem u, trace := trace u, g_vgic_cpu := g_vgic_cpu u\<rparr>"
    using s t by (simp_all add: vgic_same_def)
  have v: "vcpus t = vcpus s" "g_vms t = g_vms s" "g_vgic t = g_vgic s"
    by (subst st, simp)+
  then have "irq_desc t = irq_desc s"
    by (rule irq_desc_cong)
  moreover have "u = s\<lparr>mem := mem u, trace := trace u, g_vgic_cpu := g_vgic_cpu u\<rparr>"
    by (subst tu, subst st) simp
  ultimately show ?thesis
    using s t v(1) unfolding vgic_same_def by simp
qed

lemma irq_body_wp:
  assumes ok: "irq_ok s vc i" and hw: "\<And>s. \<exists>t. hw i s = Inr ((), s\<lparr>trace := t\<rparr>)"
  shows "wp (irq_body vc e hw i b) (\<lambda>_ t. vgic_same vc s t \<and>
    (\<forall>j. irq_ok s vc j \<longrightarrow> irq_ok t vc j \<and> enabled_at t vc j = (if j = i \<and> b then e else enabled_at s vc j))) s"
proof -
  obtain t where "irq_body vc e hw i b s = Inr ((), if b then (put_enabled vc i e s)\<lparr>trace := t\<rparr> else s)"
    using irq_body_run [of s vc i hw, OF ok hw] by blast
  then show ?thesis
    by (rule wpI) (simp add: vgic_same_put [OF ok] vgic_same_refl enabled_at_put [OF ok])
qed

definition irq_getc :: "nat \<Rightarrow> int \<Rightarrow> bool hcomp" where
  "irq_getc vc i = mbind (vgic_irq_get vc i) (\<lambda>p. mbind (mthe p) get_enabled)"

lemma irq_getc_run: "irq_ok s vc i \<Longrightarrow> irq_getc vc i s = Inr (enabled_at s vc i, s)"
  by (simp add: irq_getc_def run vgic_irq_get_run get_enabled_run)

interpretation set_bits: irq_bits "\<lambda>s. irq_ok s vc" "\<lambda>s. enabled_at s vc" "vgic_same vc" "irq_getc vc"
    "irq_body vc True vgic_irq_enable" True for vc
proof unfold_locales
  fix s i b
  assume ok: "irq_ok s vc i"
  then have "0 \<le> i" by (simp add: irq_ok_def)
  then show "wp (irq_body vc True vgic_irq_enable i b) (\<lambda>_ t. vgic_same vc s t \<and>
      (\<forall>j. irq_ok s vc j \<longrightarrow> irq_ok t vc j \<and> enabled_at t vc j = (if j = i \<and> b then True else enabled_at s vc j))) s"
    by (intro irq_body_wp [OF ok] hw_irq_trace)
qed (simp_all add: irq_getc_run vgic_same_refl vgic_same_trans)

interpretation clear_bits: irq_bits "\<lambda>s. irq_ok s vc" "\<lambda>s. enabled_at s vc" "vgic_same vc" "irq_getc vc"
    "irq_body vc False vgic_irq_disable" False for vc
proof unfold_locales
  fix s i b
  assume ok: "irq_ok s vc i"
  then have "0 \<le> i" by (simp add: irq_ok_def)
  then show "wp (irq_body vc False vgic_irq_disable i b) (\<lambda>_ t. vgic_same vc s t \<and>
      (\<forall>j. irq_ok s vc j \<longrightarrow> irq_ok t vc j \<and> enabled_at t vc j = (if j = i \<and> b then False else enabled_at s vc j))) s"
    by (intro irq_body_wp [OF ok] hw_irq_trace)
qed (simp_all add: irq_getc_run vgic_same_refl vgic_same_trans)

text \<open>The loops of the handlers are the loops of the table.\<close>

lemma read_enabled_loop:
  "read_enabled vc base = mfold [0..<32] (\<lambda>k v. mbind (irq_getc vc (base + int k))
     (\<lambda>b. mret (if b then v OR sext64 (push_bit k 1) else v))) 0"
  by (simp only: read_enabled_def irq_getc_def mbind_assoc)

lemma drop_bit_odd: "drop_bit k (w :: u64) AND 1 \<noteq> 0 \<longleftrightarrow> bit w k"
  by (simp add: bit_iff_odd_drop_bit and_one_eq odd_iff_mod_2_eq_one)

lemma write_enabled_loop:
  "write_enabled vc base val e hw = mfor [0..<32] (\<lambda>k. irq_body vc e hw (base + int k) (bit val k))"
  by (simp only: write_enabled_def irq_body_def drop_bit_odd)

lemma bit_fold_or:
  "bit (fold (\<lambda>k v. if P k then v OR (f k :: u64) else v) ks v0) n \<longleftrightarrow> bit v0 n \<or> (\<exists>k \<in> set ks. P k \<and> bit (f k) n)"
  by (induction ks arbitrary: v0) (auto simp: bit_or_iff)

text \<open>\<open>1 << k\<close> as a signed \<open>int\<close>: only for \<open>k = 31\<close> there are bits above bit 31.\<close>

lemma bit_shifted_one: "k < 32 \<Longrightarrow> n < 64 \<Longrightarrow> bit (sext64 (push_bit k 1)) n \<longleftrightarrow> n = k \<or> (k = 31 \<and> 31 < n)"
  unfolding bit_signed_iff bit_push_one by auto

definition enable_word :: "hyp \<Rightarrow> nat \<Rightarrow> int \<Rightarrow> u64" where
  "enable_word s vc base = fold (\<lambda>k v. if enabled_at s vc (base + int k) then v OR sext64 (push_bit k 1) else v) [0..<32] 0"

lemma bit_enable_word: "k < 32 \<Longrightarrow> bit (enable_word s vc base) k \<longleftrightarrow> enabled_at s vc (base + int k)"
  unfolding enable_word_def bit_fold_or
  using bit_shifted_one [of _ k] by (auto simp del: push_bit_of_1)

lemma read_enabled_run:
  assumes "\<forall>k < 32. irq_ok s vc (base + int k)"
  shows "read_enabled vc base s = Inr (enable_word s vc base, s)"
  unfolding read_enabled_loop enable_word_def by (rule set_bits.read_loop) (use assms in auto)

definition enable_reg :: "bool \<Rightarrow> nat \<Rightarrow> u64" where
  "enable_reg e n = (if e then GICD_ISENABLER (of_nat n) else GICD_ICENABLER (of_nat n))"

lemma unat_enable_reg: "n < 32 \<Longrightarrow> unat (enable_reg e n) = (if e then 0x100 else 0x180) + 4 * n"
  by (simp add: enable_reg_def GICD_ISENABLER_def GICD_ICENABLER_def unat_word_ariths unat_of_nat)

lemma enable_reg_branch:
  assumes "n < 32"
  shows "enable_reg e n \<noteq> GICD_CTLR" "enable_reg e n \<noteq> GICD_TYPER" "enable_reg e n \<noteq> GICD_IIDR" "enable_reg e n \<noteq> GICD_TYPER2"
    and "\<not> within (enable_reg e n) (GICD_IGROUPR 0) (GICD_IGROUPR 31)"
    and "within (enable_reg e n) (GICD_ISENABLER 0) (GICD_ISENABLER 31) \<longleftrightarrow> e"
    and "within (enable_reg e n) (GICD_ICENABLER 0) (GICD_ICENABLER 31) \<longleftrightarrow> \<not> e"
  using assms
  by (auto simp: word_unat_eq_iff word_le_nat_alt unat_enable_reg GICD_CTLR_def GICD_TYPER_def GICD_IIDR_def
      GICD_TYPER2_def GICD_IGROUPR_def GICD_ISENABLER_def GICD_ICENABLER_def)

lemma enable_reg_intid:
  assumes "n < 32"
  shows "first_intid (enable_reg e n) (if e then GICD_ISENABLER 0 else GICD_ICENABLER 0) 32 = 32 * int n"
proof -
  let ?base = "if e then GICD_ISENABLER 0 else GICD_ICENABLER 0"
  have "enable_reg e n - ?base = of_nat (4 * n)"
    by (simp add: enable_reg_def GICD_ISENABLER_def GICD_ICENABLER_def)
  moreover have "(of_nat (4 * n) :: u64) div 4 = of_nat n"
    using assms by (simp add: word_unat_eq_iff unat_div_distrib unat_of_nat unat_word_ariths)
  moreover have "sint (ucast (of_nat n * 32 :: u64) :: i32) = 32 * int n"
  proof -
    have "unat (ucast (of_nat n * 32 :: u64) :: i32) = 32 * n"
      using assms by (simp add: unat_ucast_mod unat_word_ariths unat_of_nat)
    then have "uint (ucast (of_nat n * 32 :: u64) :: i32) = 32 * int n"
      by (simp add: uint_nat)
    then show ?thesis
      using assms by (simp add: sint_uint signed_take_bit_int_eq_self)
  qed
  ultimately show ?thesis
    by (simp add: first_intid_def)
qed

definition hw_irq :: "bool \<Rightarrow> int \<Rightarrow> unit hcomp" where
  "hw_irq e = (if e then vgic_irq_enable else vgic_irq_disable)"

definition the_vm :: "hyp \<Rightarrow> nat \<Rightarrow> nat \<Rightarrow> bool" where
  "the_vm s vc v \<longleftrightarrow> vc < length (vcpus s) \<and> vcpu_vm (vcpus s ! vc) = Some v \<and> v < length (g_vms s)"

lemma the_vm_run: "the_vm s vc v \<Longrightarrow> mbind (vm_of vc) (\<lambda>v. mbind (vm_at v) f) s = f (g_vms s ! v) s"
  by (simp add: the_vm_def vm_of_def run)

lemma vgicd_write_enable:
  assumes "n < 32" and "the_vm s vc v"
  shows "vgicd_mmio_write vc (enable_reg e n) val acc s =
    mthen lock_vgic (mthen (write_enabled vc (32 * int n) val e (hw_irq e)) (mthen unlock_vgic (mret 0))) s"
  using enable_reg_branch [OF assms(1), of e] enable_reg_intid [OF assms(1), of e]
  unfolding vgicd_mmio_write_def the_vm_run [OF assms(2)] by (cases e) (auto simp: hw_irq_def)

lemma vgicd_read_enable:
  assumes "n < 32" and "the_vm s vc v"
  shows "vgicd_mmio_read vc (enable_reg e n) val acc s =
    mthen lock_vgic (mbind (read_enabled vc (32 * int n)) (\<lambda>w. mthen unlock_vgic (mthen (put_val val w) (mret 0)))) s"
  using enable_reg_branch [OF assms(1), of e] enable_reg_intid [OF assms(1), of e]
  unfolding vgicd_mmio_read_def the_vm_run [OF assms(2)] by (cases e) auto

lemma irq_lock [simp]:
  "irq_desc (g_vgic_lock_update f s) = irq_desc s" "irq_ok (g_vgic_lock_update f s) = irq_ok s"
  "enabled_at (g_vgic_lock_update f s) = enabled_at s"
proof -
  show d: "irq_desc (g_vgic_lock_update f s) = irq_desc s"
    by (rule irq_desc_cong) simp_all
  have "all_backed (g_vgic_lock_update f s) = all_backed s"
    by (rule all_backed_cong) simp
  then show "irq_ok (g_vgic_lock_update f s) = irq_ok s"
    by (intro ext) (auto simp: irq_ok_def split: option.split)
  show "enabled_at (g_vgic_lock_update f s) = enabled_at s"
    by (rule ext)+ (simp add: enabled_at_def d split: irq_ptr.split)
qed

lemma write_enabled_wp:
  assumes "\<forall>k < 32. irq_ok s vc (base + int k)"
  shows "wp (write_enabled vc base val e (hw_irq e)) (\<lambda>_ t. vgic_same vc s t \<and>
    (\<forall>j. irq_ok s vc j \<longrightarrow> irq_ok t vc j \<and> enabled_at t vc j =
       (if base \<le> j \<and> j < base + 32 \<and> bit val (nat (j - base)) then e else enabled_at s vc j))) s"
  using set_bits.write_loop [of 32 s vc base "bit val"] clear_bits.write_loop [of 32 s vc base "bit val"] assms
  by (cases e) (simp_all only: write_enabled_loop hw_irq_def if_True if_False of_nat_numeral)

lemma vgic_same_lock:
  assumes "vgic_same vc (s\<lparr>g_vgic_lock := l\<rparr>) t"
  shows "g_vgic_lock t = l" and "vgic_same vc (s\<lparr>g_vgic_lock := f l\<rparr>) (g_vgic_lock_update f t)"
proof -
  have t: "t = s\<lparr>g_vgic_lock := l, mem := mem t, trace := trace t, g_vgic_cpu := g_vgic_cpu t\<rparr>"
    using assms by (simp add: vgic_same_def)
  show "g_vgic_lock t = l"
    by (subst t) simp
  have "g_vgic_lock_update f t = s\<lparr>g_vgic_lock := f l, mem := mem t, trace := trace t, g_vgic_cpu := g_vgic_cpu t\<rparr>"
    by (subst t) simp
  then show "vgic_same vc (s\<lparr>g_vgic_lock := f l\<rparr>) (g_vgic_lock_update f t)"
    using assms unfolding vgic_same_def by simp
qed

lemma vgic_same_fields:
  assumes "vgic_same vc s t"
  shows "vcpus t = vcpus s" "g_vms t = g_vms s" "g_vgic_lock t = g_vgic_lock s"
proof -
  have t: "t = s\<lparr>mem := mem t, trace := trace t, g_vgic_cpu := g_vgic_cpu t\<rparr>"
    using assms by (simp add: vgic_same_def)
  show "vcpus t = vcpus s" "g_vms t = g_vms s" "g_vgic_lock t = g_vgic_lock s"
    by (subst t, simp)+
qed

text \<open>
  C18. The emulated enable registers of the distributor. A write to GICD_ISENABLER<n> (to
  GICD_ICENABLER<n>) returns 0 and enables (disables) for the guest exactly the interrupts whose
  bits are set in the value, among the 32 of the register; the other interrupts keep their state,
  and nothing else changes but the descriptors of this guest, the device registers and the
  counters of the lock. A read of either register afterwards returns 0 and puts into the
  destination register a value whose low 32 bits are the enable bits.
\<close>

theorem vgicd_enable_roundtrip:
  assumes lock: "spin_free (g_vgic_lock s)" and vm: "the_vm s vc v" and n: "n < 32"
    and ok: "\<forall>k < 32. irq_ok s vc (32 * int n + int k)" and r: "r < length (gpr (vreg (vcpus s ! vc)))"
  shows "wp (vgicd_mmio_write vc (enable_reg e n) val acc) (\<lambda>ret t. ret = 0 \<and>
    vgic_same vc (s\<lparr>g_vgic_lock := lock_cycle (g_vgic_lock s)\<rparr>) t \<and>
    (\<forall>j. irq_ok s vc j \<longrightarrow> enabled_at t vc j =
       (if 32 * int n \<le> j \<and> j < 32 * int n + 32 \<and> bit val (nat (j - 32 * int n)) then e else enabled_at s vc j)) \<and>
    wp (vgicd_mmio_read vc (enable_reg e' n) (Some (vc, r)) acc') (\<lambda>ret u. ret = 0 \<and>
       (\<forall>k < 32. bit (gpr (vreg (vcpus u ! vc)) ! r) k \<longleftrightarrow> enabled_at t vc (32 * int n + int k))) t) s"
proof -
  let ?l = "(g_vgic_lock s)\<lparr>ticket := ticket (g_vgic_lock s) + 1\<rparr>" and ?b = "32 * int n"
  have read: "wp (vgicd_mmio_read vc (enable_reg e' n) (Some (vc, r)) acc') (\<lambda>ret u. ret = 0 \<and>
       (\<forall>k < 32. bit (gpr (vreg (vcpus u ! vc)) ! r) k \<longleftrightarrow> enabled_at t vc (?b + int k))) t"
    if t: "vgic_same vc (s\<lparr>g_vgic_lock := lock_cycle (g_vgic_lock s)\<rparr>) t" "\<forall>k < 32. irq_ok t vc (?b + int k)" for t
  proof -
    have f: "vcpus t = vcpus s" "g_vms t = g_vms s" "spin_free (g_vgic_lock t)"
      using vgic_same_fields [OF t(1)] lock by simp_all
    then have v: "the_vm t vc v"
      using vm by (simp add: the_vm_def)
    have "vc < length (vcpus s)"
      using vm by (simp add: the_vm_def)
    with f t(2) r show ?thesis
      by (simp add: wp_def vgicd_read_enable [OF n v] run lock_vgic_def unlock_vgic_def read_enabled_run put_val_def
          bit_enable_word)
  qed
  have "wp (write_enabled vc ?b val e (hw_irq e)) (\<lambda>_ t. vgic_same vc (s\<lparr>g_vgic_lock := ?l\<rparr>) t \<and>
    (\<forall>j. irq_ok s vc j \<longrightarrow> irq_ok t vc j \<and> enabled_at t vc j =
       (if ?b \<le> j \<and> j < ?b + 32 \<and> bit val (nat (j - ?b)) then e else enabled_at s vc j))) (s\<lparr>g_vgic_lock := ?l\<rparr>)"
    using write_enabled_wp [of "s\<lparr>g_vgic_lock := ?l\<rparr>" vc ?b val e] ok unfolding irq_lock by blast
  then obtain t where "write_enabled vc ?b val e (hw_irq e) (s\<lparr>g_vgic_lock := ?l\<rparr>) = Inr ((), t)"
    and t: "vgic_same vc (s\<lparr>g_vgic_lock := ?l\<rparr>) t" "\<And>j. irq_ok s vc j \<Longrightarrow> irq_ok t vc j \<and> enabled_at t vc j =
       (if ?b \<le> j \<and> j < ?b + 32 \<and> bit val (nat (j - ?b)) then e else enabled_at s vc j)"
    by (auto dest!: wp_runD)
  then have w: "vgicd_mmio_write vc (enable_reg e n) val acc s = Inr (0, g_vgic_lock_update spin_unlock t)"
    using lock by (simp add: vgicd_write_enable [OF n vm] run lock_vgic_def unlock_vgic_def)
  have same: "vgic_same vc (s\<lparr>g_vgic_lock := lock_cycle (g_vgic_lock s)\<rparr>) (g_vgic_lock_update spin_unlock t)"
    using vgic_same_lock(2) [OF t(1), of spin_unlock] by (simp add: lock_unlock_eq)
  show ?thesis
    by (rule wpI, rule w) (use t(2) ok same read [OF same] in simp)
qed

lemma guest0_irq_ok: "irq_ok guest0 0 (32 + int k)" if "k < 32"
  using that by (simp add: irq_ok_def guest0_def hyp0_def vm0_def vcpu0_def VCPU_MAX_def VM_MAX_def all_backed_def)

theorem vgicd_enable_roundtrip_witness:
  "spin_free (g_vgic_lock guest0) \<and> the_vm guest0 0 0 \<and> irq_ok guest0 0 33 \<and>
   wp (vgicd_mmio_write 0 (GICD_ISENABLER 1) 2 \<lparr>acc_ipa = 0x8000104, acc_pc = 0, iss_sas = SAS_WORD, iss_wnr = 1\<rparr>)
     (\<lambda>ret t. ret = 0 \<and> enabled_at t 0 33) guest0"
proof -
  let ?acc = "\<lparr>acc_ipa = 0x8000104, acc_pc = 0, iss_sas = SAS_WORD, iss_wnr = 1\<rparr>"
  have a: "spin_free (g_vgic_lock guest0)" "the_vm guest0 0 0" "0 < length (gpr (vreg (vcpus guest0 ! 0)))"
    by (simp_all add: guest0_def hyp0_defs spin_free_def spinlock_init_def the_vm_def)
  have b: "\<forall>k < 32. irq_ok guest0 0 (32 * int 1 + int k)"
    using guest0_irq_ok by simp
  have i: "irq_ok guest0 0 33"
    using guest0_irq_ok [of 1] by simp
  have r: "enable_reg True 1 = GICD_ISENABLER 1" and v: "bit (2 :: u64) 1"
    by (simp_all add: enable_reg_def bit_numeral_rec)
  have "wp (vgicd_mmio_write 0 (enable_reg True 1) 2 ?acc) (\<lambda>ret t. ret = 0 \<and> enabled_at t 0 33) guest0"
    by (rule wp_mono [OF vgicd_enable_roundtrip [OF a(1,2) _ b a(3), of True 2 ?acc True ?acc]])
      (use i v in \<open>auto simp: nat_numeral_diff_1\<close>)
  with a i r show ?thesis by simp
qed

end
