(* ===== verification/Context.thy ===== *)
theory Context
  imports Gic
begin

text \<open>
  Exception entry and exit, \<open>src/vector.S\<close>: the macros that save and restore the registers of the
  interrupted program, instruction by instruction. \<open>stp\<close> and \<open>ldp\<close> move two registers; the
  guest's registers are kept at the start of its \<open>struct vcpu\<close>, the hypervisor's own on its stack.
\<close>

section \<open>The registers in \<open>struct vcpu\<close>\<close>

text \<open>
  The eight-byte slots from the start of \<open>struct vcpu\<close>: \<open>x[0]\<close> to \<open>x[30]\<close>, \<open>spsr_el2\<close>, \<open>elr_el2\<close>.
\<close>

definition reg_slot :: "nat \<Rightarrow> vcpu_reg \<Rightarrow> u64" where
  "reg_slot k r = (if k < 31 then gpr r ! k else if k = 31 then spsr_el2 r else elr_el2 r)"

definition set_slot :: "nat \<Rightarrow> u64 \<Rightarrow> vcpu_reg \<Rightarrow> vcpu_reg" where
  "set_slot k v r = (if k < 31 then r\<lparr>gpr := (gpr r)[k := v]\<rparr>
     else if k = 31 then r\<lparr>spsr_el2 := v\<rparr> else r\<lparr>elr_el2 := v\<rparr>)"

section \<open>Instructions\<close>

definition xr :: "nat \<Rightarrow> u64 hcomp" where
  "xr n = mbind (mget cpu_x) (\<lambda>xs. mnth xs n)"

definition set_xr :: "nat \<Rightarrow> u64 \<Rightarrow> unit hcomp" where
  "set_xr n v = mbind (mget cpu_x) (\<lambda>xs. mthen (mnth xs n) (mmod (cpu_x_update (\<lambda>xs. xs[n := v]))))"

text \<open>
  \<open>stp xa, xb, [x0, #16 * k]\<close>, \<open>str xa, [x0, #16 * k]\<close>, \<open>ldp xa, xb, [x0, #16 * k]\<close> and
  \<open>ldr xa, [x0, #16 * k]\<close>, where \<open>x0\<close> points to a \<open>struct vcpu\<close>.
\<close>

definition vcpu_x0 :: "nat hcomp" where
  "vcpu_x0 = mbind (xr 0) (\<lambda>p. mbind (mget (\<lambda>s. vcpu_of_ptr s p)) mthe)"

definition st_slot :: "nat \<Rightarrow> nat \<Rightarrow> unit hcomp" where
  "st_slot j n = mbind vcpu_x0 (\<lambda>vc. mbind (xr n) (\<lambda>v. upd_vcpu vc (\<lambda>c. c\<lparr>vreg := set_slot j v (vreg c)\<rparr>)))"

definition ld_slot :: "nat \<Rightarrow> u64 hcomp" where
  "ld_slot j = mbind vcpu_x0 (\<lambda>vc. mbind (vcpu_at vc) (\<lambda>v. mret (reg_slot j (vreg v))))"

definition stp_x0 :: "nat \<Rightarrow> nat \<Rightarrow> nat \<Rightarrow> unit hcomp" where
  "stp_x0 a b k = mthen (st_slot (2 * k) a) (st_slot (2 * k + 1) b)"

definition ldp_x0 :: "nat \<Rightarrow> nat \<Rightarrow> nat \<Rightarrow> unit hcomp" where
  "ldp_x0 a b k = mbind (ld_slot (2 * k)) (\<lambda>v. mbind (ld_slot (2 * k + 1)) (\<lambda>w. mthen (set_xr a v) (set_xr b w)))"

text \<open>\<open>mrs xa, r\<close> and \<open>msr r, xa\<close>.\<close>

definition mrs :: "nat \<Rightarrow> string \<Rightarrow> unit hcomp" where
  "mrs a r = mbind (read_sysreg r) (set_xr a)"

definition msr :: "string \<Rightarrow> nat \<Rightarrow> unit hcomp" where
  "msr r a = mbind (xr a) (write_sysreg r)"

text \<open>\<open>stp a, b, [sp, #-16]!\<close> and \<open>ldp a, b, [sp], #16\<close>.\<close>

definition push2 :: "u64 \<Rightarrow> u64 \<Rightarrow> unit hcomp" where
  "push2 a b = mbind (mget cpu_sp) (\<lambda>p. mthen (mmod (cpu_sp_update (\<lambda>_. p - 16)))
     (mthen (st64 (p - 16) a) (st64 (p - 8) b)))"

definition pop2 :: "(u64 \<times> u64) hcomp" where
  "pop2 = mbind (mget cpu_sp) (\<lambda>p. mbind (ld64 p) (\<lambda>a. mbind (ld64 (p + 8)) (\<lambda>b.
     mthen (mmod (cpu_sp_update (\<lambda>_. p + 16))) (mret (a, b)))))"

definition push_x :: "nat \<Rightarrow> nat \<Rightarrow> unit hcomp" where
  "push_x m n = mbind (xr m) (\<lambda>a. mbind (xr n) (\<lambda>b. push2 a b))"

definition pop_x :: "nat \<Rightarrow> nat \<Rightarrow> unit hcomp" where
  "pop_x m n = mbind pop2 (\<lambda>(a, b). mthen (set_xr m a) (set_xr n b))"

section \<open>The hypervisor's own registers\<close>

text \<open>The numbers of the register pairs that the macros go through.\<close>

definition all_pairs :: "nat list" where "all_pairs = [0..<15]"
definition mid_pairs :: "nat list" where "mid_pairs = [1..<15]"

definition hyp_context_save :: "unit hcomp" where
  "hyp_context_save =
     mthen (mfor all_pairs (\<lambda>k. push_x (2 * k + 1) (2 * k)))
     (mbind (xr 30) (push2 0))"

definition hyp_context_restore :: "unit hcomp" where
  "hyp_context_restore =
     mthen (mbind pop2 (\<lambda>(_, x30). set_xr 30 x30))
     (mfor (rev all_pairs) (\<lambda>k. pop_x (2 * k + 1) (2 * k)))"

section \<open>The guest's registers\<close>

definition vm_context_save :: "unit hcomp" where
  "vm_context_save =
     mthen (push_x 0 1)
     (mthen (mrs 0 ''tpidr_el2'')
     (mthen (mfor mid_pairs (\<lambda>k. stp_x0 (2 * k) (2 * k + 1) k))
     (mthen (mrs 1 ''spsr_el2'')
     (mthen (mrs 2 ''elr_el2'')
     (mthen (stp_x0 30 1 15)
     (mthen (st_slot 32 2)
     (mthen (pop_x 3 4)
     (stp_x0 3 4 0))))))))"

definition vm_context_restore :: "unit hcomp" where
  "vm_context_restore =
     mthen (mrs 0 ''tpidr_el2'')
     (mthen (ldp_x0 30 1 15)
     (mthen (mbind (ld_slot 32) (set_xr 2))
     (mthen (ldp_x0 3 4 0)
     (mthen (push_x 3 4)
     (mthen (msr ''spsr_el2'' 1)
     (mthen (msr ''elr_el2'' 2)
     (mthen (mfor mid_pairs (\<lambda>k. ldp_x0 (2 * k) (2 * k + 1) k))
     (pop_x 0 1))))))))"

definition eret_vm :: "unit hcomp" where
  "eret_vm = mthen vm_context_restore (emit (Instr ''eret''))"

text \<open>
  A call of C code from an entry point. \<open>m\<close> is what the function does. The compiler decides what the
  function leaves behind otherwise, which is a parameter of the model: the values of the general
  registers, and the contents of the stack frames of the function and of those it calls, which
  take up \<open>cf_size\<close> bytes below the stack pointer. What \<open>m\<close> reads does not lie in these frames.
\<close>

record cframe =
  cf_x :: "u64 list"
  cf_size :: nat
  cf_mem :: memory

definition clobber :: "u64 \<Rightarrow> cframe \<Rightarrow> memory \<Rightarrow> memory" where
  "clobber sp f m = (\<lambda>a. if unat (a - (sp - of_nat (cf_size f))) < cf_size f then cf_mem f a else m a)"

definition c_call :: "cframe \<Rightarrow> unit hcomp \<Rightarrow> unit hcomp" where
  "c_call f m = mthen m (mmod (\<lambda>s. s\<lparr>cpu_x := cf_x f, mem := clobber (cpu_sp s) f (mem s)\<rparr>))"

section \<open>What the macros do\<close>

lemma clobber_outside: "a \<notin> span (sp - of_nat (cf_size f)) (cf_size f) \<Longrightarrow> clobber sp f m a = m a"
  by (simp add: clobber_def)

text \<open>A smaller region below the stack pointer is a part of a larger one.\<close>

lemma span_below:
  assumes "a \<in> span (sp - of_nat k) k" and "k \<le> n"
  shows "a \<in> span (sp - of_nat n) n"
proof (cases "n < 2 ^ 64")
  case True
  have "a - (sp - of_nat n) = (a - (sp - of_nat k)) + of_nat (n - k)"
    using assms(2) by (simp add: of_nat_diff)
  from unat_offset [OF this] assms True show ?thesis by simp
next
  case False
  then show ?thesis using unsigned_less [of "a - (sp - of_nat n)", where 'a = nat] by simp
qed

definition put_vreg :: "nat \<Rightarrow> vcpu_reg \<Rightarrow> hyp \<Rightarrow> hyp" where
  "put_vreg vc r s = s\<lparr>vcpus := (vcpus s)[vc := (vcpus s ! vc)\<lparr>vreg := r\<rparr>]\<rparr>"

text \<open>
  \<open>on_vcpu s vc\<close>: the register \<open>tpidr_el2\<close> of the executing processor holds the pointer to the
  vcpu \<open>vc\<close>, and the processor and the vcpu have their 31 general registers.
\<close>

definition on_vcpu :: "hyp \<Rightarrow> nat \<Rightarrow> bool" where
  "on_vcpu s vc \<longleftrightarrow> vc < length (vcpus s) \<and> length (vcpus s) \<le> VCPU_MAX \<and> length (cpu_x s) = 31 \<and>
     length (gpr (vreg (vcpus s ! vc))) = 31 \<and>
     (\<forall>t. dev s t (Sysreg (pcpu s) ''tpidr_el2'') = vcpu_ptr s vc)"

lemma vcpu_ptr_inj: "i < VCPU_MAX \<Longrightarrow> j < VCPU_MAX \<Longrightarrow> vcpu_ptr s i = vcpu_ptr s j \<longleftrightarrow> i = j"
proof -
  assume "i < VCPU_MAX" and "j < VCPU_MAX"
  then have "unat (of_nat i * sizeof_vcpu :: u64) = i * 568" and "unat (of_nat j * sizeof_vcpu :: u64) = j * 568"
    by (simp_all add: VCPU_MAX_def sizeof_vcpu_def unat_word_ariths unat_of_nat)
  moreover have "vcpu_ptr s i = vcpu_ptr s j \<longleftrightarrow> (of_nat i * sizeof_vcpu :: u64) = of_nat j * sizeof_vcpu"
    by (simp add: vcpu_ptr_def)
  ultimately have "vcpu_ptr s i = vcpu_ptr s j \<longleftrightarrow> i * 568 = j * 568"
    by (simp only: word_unat_eq_iff)
  then show ?thesis by simp
qed

lemma vcpu_of_ptr_at:
  assumes "vc < length (vcpus s)" and "length (vcpus s) \<le> VCPU_MAX"
  shows "vcpu_of_ptr s (vcpu_ptr s vc) = Some vc"
proof -
  have "vcpu_ptr s i = vcpu_ptr s vc \<longleftrightarrow> i = vc" if "i < length (vcpus s)" for i
    using that assms vcpu_ptr_inj by simp
  then have "vcpu_of_ptr s (vcpu_ptr s vc) = List.find (\<lambda>i. i = vc) [0..<length (vcpus s)]"
    unfolding vcpu_of_ptr_def by (intro find_cong) simp_all
  also have "\<dots> = Some vc"
    using assms(1) by (simp add: find_Some_iff exI [of _ vc])
  finally show ?thesis .
qed

lemma vcpu_of_ptr_cong:
  "img s = img t \<Longrightarrow> length (vcpus s) = length (vcpus t) \<Longrightarrow> vcpu_of_ptr s = vcpu_of_ptr t"
  by (rule ext) (simp add: vcpu_of_ptr_def vcpu_ptr_def)

lemma vcpu_ptr_cong: "img s = img t \<Longrightarrow> vcpu_ptr s = vcpu_ptr t"
  by (rule ext) (simp add: vcpu_ptr_def)

lemma vcpu_ptr_updates [simp]:
  "vcpu_ptr (s\<lparr>cpu_x := a\<rparr>) = vcpu_ptr s" "vcpu_ptr (s\<lparr>cpu_sp := b\<rparr>) = vcpu_ptr s"
  "vcpu_ptr (s\<lparr>mem := m\<rparr>) = vcpu_ptr s" "vcpu_ptr (s\<lparr>trace := e\<rparr>) = vcpu_ptr s"
  "vcpu_ptr (put_vreg vc r s) = vcpu_ptr s"
  by (rule vcpu_ptr_cong, simp add: put_vreg_def)+

lemma vcpu_of_ptr_updates [simp]:
  "vcpu_of_ptr (s\<lparr>cpu_x := a\<rparr>) = vcpu_of_ptr s" "vcpu_of_ptr (s\<lparr>cpu_sp := b\<rparr>) = vcpu_of_ptr s"
  "vcpu_of_ptr (s\<lparr>mem := m\<rparr>) = vcpu_of_ptr s" "vcpu_of_ptr (s\<lparr>trace := e\<rparr>) = vcpu_of_ptr s"
  "vcpu_of_ptr (put_vreg vc r s) = vcpu_of_ptr s"
  by (rule vcpu_of_ptr_cong, simp_all add: put_vreg_def)+

lemma run_xr [run]:
  "xr n s = (if n < length (cpu_x s) then Inr (cpu_x s ! n, s) else Inl Out_Of_Bounds)"
  "set_xr n v s = (if n < length (cpu_x s) then Inr ((), s\<lparr>cpu_x := (cpu_x s)[n := v]\<rparr>) else Inl Out_Of_Bounds)"
  by (simp_all add: xr_def set_xr_def run)

lemma run_slots:
  assumes "vcpu_of_ptr s (cpu_x s ! 0) = Some vc" and "vc < length (vcpus s)" and "length (cpu_x s) = 31"
  shows "n < 31 \<Longrightarrow> st_slot j n s = Inr ((), put_vreg vc (set_slot j (cpu_x s ! n) (vreg (vcpus s ! vc))) s)"
    and "ld_slot j s = Inr (reg_slot j (vreg (vcpus s ! vc)), s)"
  using assms by (simp_all add: st_slot_def ld_slot_def vcpu_x0_def run put_vreg_def)

lemma put_vreg_put [simp]: "put_vreg vc r (put_vreg vc r' s) = put_vreg vc r s"
  by (cases "vc < length (vcpus s)") (simp_all add: put_vreg_def list_update_beyond)

lemma put_vreg_simps [simp]:
  "vc < length (vcpus s) \<Longrightarrow> vreg (vcpus (put_vreg vc r s) ! vc) = r"
  "length (vcpus (put_vreg vc r s)) = length (vcpus s)"
  "cpu_x (put_vreg vc r s) = cpu_x s" "cpu_sp (put_vreg vc r s) = cpu_sp s"
  "mem (put_vreg vc r s) = mem s" "trace (put_vreg vc r s) = trace s"
  "dev (put_vreg vc r s) = dev s" "pcpu (put_vreg vc r s) = pcpu s"
  by (simp_all add: put_vreg_def)

lemma put_vreg_commute [simp]:
  "(put_vreg vc r s)\<lparr>cpu_x := a\<rparr> = put_vreg vc r (s\<lparr>cpu_x := a\<rparr>)"
  "(put_vreg vc r s)\<lparr>cpu_sp := b\<rparr> = put_vreg vc r (s\<lparr>cpu_sp := b\<rparr>)"
  "(put_vreg vc r s)\<lparr>mem := m\<rparr> = put_vreg vc r (s\<lparr>mem := m\<rparr>)"
  "(put_vreg vc r s)\<lparr>trace := e\<rparr> = put_vreg vc r (s\<lparr>trace := e\<rparr>)"
  by (simp_all add: put_vreg_def)

lemma all_backed_hyp [simp]:
  "all_backed (put_vreg vc r s) = all_backed s"
  "all_backed (s\<lparr>cpu_x := a\<rparr>) = all_backed s"
  "all_backed (s\<lparr>cpu_sp := b\<rparr>) = all_backed s"
  by (rule all_backed_cong, simp add: put_vreg_def)+

lemma push_x_run:
  assumes "all_backed s (cpu_sp s - 16) 8" and "all_backed s (cpu_sp s - 8) 8" and "m < length (cpu_x s)" "n < length (cpu_x s)"
  shows "push_x m n s = Inr ((), s\<lparr>cpu_sp := cpu_sp s - 16,
    mem := wr64 (wr64 (mem s) (cpu_sp s - 16) (cpu_x s ! m)) (cpu_sp s - 8) (cpu_x s ! n)\<rparr>)"
  using assms by (simp add: push_x_def push2_def run)

lemma pop_x_run:
  assumes "all_backed s (cpu_sp s) 8" and "all_backed s (cpu_sp s + 8) 8" and "m < length (cpu_x s)" "n < length (cpu_x s)"
  shows "pop_x m n s = Inr ((), s\<lparr>cpu_sp := cpu_sp s + 16,
    cpu_x := (cpu_x s)[m := rd64 (mem s) (cpu_sp s), n := rd64 (mem s) (cpu_sp s + 8)]\<rparr>)"
  using assms by (simp add: pop_x_def pop2_def run)

text \<open>The loops over the registers x2 to x29.\<close>

lemma gpr_set_slot:
  "Suc (2 * k) < 31 \<Longrightarrow>
   set_slot (Suc (2 * k)) b (set_slot (2 * k) a r) = r\<lparr>gpr := (gpr r)[2 * k := a, Suc (2 * k) := b]\<rparr>"
  by (simp add: set_slot_def)

definition mix :: "nat \<Rightarrow> u64 list \<Rightarrow> u64 list \<Rightarrow> u64 list" where
  "mix n xs ys = map (\<lambda>i. if 2 \<le> i \<and> i < 2 * n then xs ! i else ys ! i) [0..<31]"

lemma mix_nth [simp]:
  "length (mix n xs ys) = 31" "i < 31 \<Longrightarrow> mix n xs ys ! i = (if 2 \<le> i \<and> i < 2 * n then xs ! i else ys ! i)"
  by (simp_all add: mix_def)

lemma mix_1: "length ys = 31 \<Longrightarrow> mix 1 xs ys = ys"
  by (rule nth_equalityI) auto

lemma mix_Suc: "1 \<le> n \<Longrightarrow> Suc n \<le> 15 \<Longrightarrow>
    (mix n xs ys)[2 * n := xs ! (2 * n), Suc (2 * n) := xs ! Suc (2 * n)] = mix (Suc n) xs ys"
  by (rule nth_equalityI) (auto simp: nth_list_update less_Suc_eq)

lemma save_loop:
  assumes "vcpu_of_ptr s (cpu_x s ! 0) = Some vc" and "vc < length (vcpus s)" and "length (cpu_x s) = 31"
    and "length (gpr (vreg (vcpus s ! vc))) = 31" and "1 \<le> n" "n \<le> 15"
  shows "mfor [1..<n] (\<lambda>k. stp_x0 (2 * k) (2 * k + 1) k) s =
    Inr ((), put_vreg vc ((vreg (vcpus s ! vc))\<lparr>gpr := mix n (cpu_x s) (gpr (vreg (vcpus s ! vc)))\<rparr>) s)"
  using assms(5,6)
proof (induction n rule: dec_induct)
  case base
  then show ?case using mix_1 [OF assms(4)] by (simp add: run put_vreg_def)
next
  case (step n)
  let ?r = "vreg (vcpus s ! vc)" and ?g = "\<lambda>n. mix n (cpu_x s) (gpr (vreg (vcpus s ! vc)))"
  have l: "[1..<Suc n] = [1..<n] @ [n]"
    using step.hyps by simp
  have n: "2 * n < 31" "Suc (2 * n) < 31"
    using step.prems by simp_all
  let ?s = "put_vreg vc (?r\<lparr>gpr := ?g n\<rparr>) s"
  have "stp_x0 (2 * n) (2 * n + 1) n ?s =
      Inr ((), put_vreg vc (set_slot (Suc (2 * n)) (cpu_x s ! Suc (2 * n)) (set_slot (2 * n) (cpu_x s ! (2 * n)) (?r\<lparr>gpr := ?g n\<rparr>))) s)"
    using assms(1-3) n by (simp add: stp_x0_def run run_slots)
  also have "\<dots> = Inr ((), put_vreg vc (?r\<lparr>gpr := ?g (Suc n)\<rparr>) s)"
    using n step by (simp only: gpr_set_slot) (simp add: mix_Suc)
  finally show ?case
    using step.IH step.prems unfolding l mfor_append by (simp add: run)
qed

lemma restore_loop:
  assumes "vcpu_of_ptr s (cpu_x s ! 0) = Some vc" and "vc < length (vcpus s)" and "length (cpu_x s) = 31"
    and "1 \<le> n" "n \<le> 15"
  shows "mfor [1..<n] (\<lambda>k. ldp_x0 (2 * k) (2 * k + 1) k) s =
    Inr ((), s\<lparr>cpu_x := mix n (gpr (vreg (vcpus s ! vc))) (cpu_x s)\<rparr>)"
  using assms(4,5)
proof (induction n rule: dec_induct)
  case base
  then show ?case using mix_1 [OF assms(3)] by (simp add: run)
next
  case (step n)
  let ?r = "vreg (vcpus s ! vc)" and ?g = "\<lambda>n. mix n (gpr (vreg (vcpus s ! vc))) (cpu_x s)"
  have l: "[1..<Suc n] = [1..<n] @ [n]"
    using step.hyps by simp
  have n: "2 * n < 31" "Suc (2 * n) < 31"
    using step.prems by simp_all
  have "ldp_x0 (2 * n) (2 * n + 1) n (s\<lparr>cpu_x := ?g n\<rparr>) =
      Inr ((), s\<lparr>cpu_x := (?g n)[2 * n := gpr ?r ! (2 * n), Suc (2 * n) := gpr ?r ! Suc (2 * n)]\<rparr>)"
    using assms(1-3) n by (simp add: ldp_x0_def run run_slots reg_slot_def)
  then show ?case
    using step unfolding l mfor_append by (simp add: run mix_Suc)
qed

text \<open>The register values that the entry code reads, and the two words it parks on the stack.\<close>

abbreviation sysreg_at :: "hyp \<Rightarrow> io list \<Rightarrow> string \<Rightarrow> u64" where
  "sysreg_at s t r \<equiv> dev s t (Sysreg (pcpu s) r)"

definition entry_trace :: "hyp \<Rightarrow> io list" where
  "entry_trace s = Rd (Sysreg (pcpu s) ''tpidr_el2'') # trace s"

definition saved_regs :: "hyp \<Rightarrow> vcpu_reg" where
  "saved_regs s = \<lparr>gpr = cpu_x s, spsr_el2 = sysreg_at s (entry_trace s) ''spsr_el2'',
     elr_el2 = sysreg_at s (Rd (Sysreg (pcpu s) ''spsr_el2'') # entry_trace s) ''elr_el2''\<rparr>"

definition parked :: "memory \<Rightarrow> u64 \<Rightarrow> u64 list \<Rightarrow> memory" where
  "parked m sp xs = wr64 (wr64 m (sp - 16) (xs ! 0)) (sp - 8) (xs ! 1)"

lemma stack_slots_disjoint: "span (p - 16) 8 \<inter> span (p - 8) 8 = {}"
proof -
  have "\<not> unat (b - (p - 16)) < 8" if b: "unat (b - (p - 8)) < 8" for b :: u64
    using unat_offset [of "b - (p - 16)" "b - (p - 8)" 8] b by simp
  then show ?thesis by auto
qed

lemma parked_rd:
  "rd64 (parked m sp xs) (sp - 16) = xs ! 0" "rd64 (parked m sp xs) (sp - 8) = xs ! 1"
  by (simp_all add: parked_def rd_wr_le_other rd_wr_le_same stack_slots_disjoint)

lemma save_gprs:
  assumes "length xs = 31" "length gs = 31"
  shows "(mix 15 (xs[0 := p]) gs)[30 := xs ! 30, 0 := xs ! 0, Suc 0 := xs ! Suc 0] = xs"
  using assms by (intro nth_equalityI) (auto simp: nth_list_update less_Suc_eq)

lemma vm_context_save_run:
  assumes v: "on_vcpu s vc" and b: "all_backed s (cpu_sp s - 16) 8" "all_backed s (cpu_sp s - 8) 8"
  shows "vm_context_save s = Inr ((), put_vreg vc (saved_regs s)
    (s\<lparr>mem := parked (mem s) (cpu_sp s) (cpu_x s),
       trace := Rd (Sysreg (pcpu s) ''elr_el2'') # Rd (Sysreg (pcpu s) ''spsr_el2'') # entry_trace s,
       cpu_x := (cpu_x s)[0 := vcpu_ptr s vc, 1 := spsr_el2 (saved_regs s), 2 := elr_el2 (saved_regs s),
         3 := cpu_x s ! 0, 4 := cpu_x s ! 1]\<rparr>))"
proof -
  let ?x = "cpu_x s" and ?r = "vreg (vcpus s ! vc)" and ?p = "vcpu_ptr s vc"
  have len: "length ?x = 31" "length (gpr ?r) = 31" "vc < length (vcpus s)"
    and tp: "\<And>t. dev s t (Sysreg (pcpu s) ''tpidr_el2'') = ?p" and ptr: "vcpu_of_ptr s ?p = Some vc"
    using v vcpu_of_ptr_at by (auto simp: on_vcpu_def)
  let ?s2 = "s\<lparr>mem := parked (mem s) (cpu_sp s) ?x, cpu_sp := cpu_sp s - 16, cpu_x := ?x[0 := ?p], trace := entry_trace s\<rparr>"
  have 1: "mthen (push_x 0 1) (mrs 0 ''tpidr_el2'') s = Inr ((), ?s2)"
    using b len tp by (simp add: run push_x_run mrs_def parked_def entry_trace_def)
  let ?s3 = "put_vreg vc (?r\<lparr>gpr := mix 15 (?x[0 := ?p]) (gpr ?r)\<rparr>) ?s2"
  have 2: "mfor mid_pairs (\<lambda>k. stp_x0 (2 * k) (2 * k + 1) k) ?s2 = Inr ((), ?s3)"
    using save_loop [of ?s2 vc 15] len ptr unfolding mid_pairs_def by simp
  let ?spsr = "spsr_el2 (saved_regs s)" and ?elr = "elr_el2 (saved_regs s)"
  let ?y = "?x[0 := ?p, 1 := ?spsr, 2 := ?elr]"
  let ?t = "Rd (Sysreg (pcpu s) ''elr_el2'') # Rd (Sysreg (pcpu s) ''spsr_el2'') # entry_trace s"
  let ?s4 = "?s3\<lparr>trace := ?t, cpu_x := ?y\<rparr>"
  have 3: "mthen (mrs 1 ''spsr_el2'') (mrs 2 ''elr_el2'') ?s3 = Inr ((), ?s4)"
    using len by (simp add: run mrs_def saved_regs_def)
  let ?r5 = "?r\<lparr>gpr := (mix 15 (?x[0 := ?p]) (gpr ?r))[30 := ?x ! 30], spsr_el2 := ?spsr, elr_el2 := ?elr\<rparr>"
  have 4: "mthen (stp_x0 30 1 15) (st_slot 32 2) ?s4 = Inr ((), put_vreg vc ?r5 ?s4)"
    using len ptr by (simp add: stp_x0_def run run_slots set_slot_def)
  have 5: "pop_x 3 4 (put_vreg vc ?r5 ?s4) = Inr ((), put_vreg vc ?r5 (?s4\<lparr>cpu_sp := cpu_sp s, cpu_x := ?y[3 := ?x ! 0, 4 := ?x ! 1]\<rparr>))"
    using len b parked_rd [of "mem s" "cpu_sp s" ?x] by (simp add: pop_x_run)
  have 6: "stp_x0 3 4 0 (put_vreg vc ?r5 (?s4\<lparr>cpu_sp := cpu_sp s, cpu_x := ?y[3 := ?x ! 0, 4 := ?x ! 1]\<rparr>)) =
      Inr ((), put_vreg vc (?r5\<lparr>gpr := (gpr ?r5)[0 := ?x ! 0, Suc 0 := ?x ! 1]\<rparr>)
        (s\<lparr>mem := parked (mem s) (cpu_sp s) ?x, trace := ?t, cpu_x := ?y[3 := ?x ! 0, 4 := ?x ! 1]\<rparr>))"
    using len ptr by (simp add: stp_x0_def run run_slots set_slot_def)
  have 7: "?r5\<lparr>gpr := (gpr ?r5)[0 := ?x ! 0, Suc 0 := ?x ! 1]\<rparr> = saved_regs s"
    using save_gprs [OF len(1,2)] by (simp add: saved_regs_def)
  have "vm_context_save s = mthen (mthen (push_x 0 1) (mrs 0 ''tpidr_el2''))
      (mthen (mfor mid_pairs (\<lambda>k. stp_x0 (2 * k) (2 * k + 1) k))
      (mthen (mthen (mrs 1 ''spsr_el2'') (mrs 2 ''elr_el2'')) (mthen (mthen (stp_x0 30 1 15) (st_slot 32 2))
      (mthen (pop_x 3 4) (stp_x0 3 4 0))))) s"
    by (simp only: vm_context_save_def mbind_assoc)
  then show ?thesis
    by (simp only: mbind_run 1 2 3 4 5 6 7)
qed

lemma restore_gprs:
  assumes "length gs = 31" "length xs = 31" and "xs ! 30 = gs ! 30"
  shows "(mix 15 gs xs)[0 := gs ! 0, Suc 0 := gs ! Suc 0] = gs"
proof (rule nth_equalityI)
  fix i
  assume "i < length ((mix 15 gs xs)[0 := gs ! 0, Suc 0 := gs ! Suc 0])"
  then have "i < 30 \<or> i = 30" by auto
  then show "(mix 15 gs xs)[0 := gs ! 0, Suc 0 := gs ! Suc 0] ! i = gs ! i"
    using assms by (auto simp: nth_list_update less_Suc_eq)
qed (simp add: assms)

lemma vm_context_restore_run:
  assumes v: "on_vcpu s vc" and r: "vreg (vcpus s ! vc) = r"
    and b: "all_backed s (cpu_sp s - 16) 8" "all_backed s (cpu_sp s - 8) 8"
  shows "vm_context_restore s = Inr ((), s\<lparr>mem := parked (mem s) (cpu_sp s) (gpr r),
     trace := Wr (Sysreg (pcpu s) ''elr_el2'') (elr_el2 r) # Wr (Sysreg (pcpu s) ''spsr_el2'') (spsr_el2 r) #
       entry_trace s, cpu_x := gpr r\<rparr>)"
proof -
  let ?x = "cpu_x s" and ?p = "vcpu_ptr s vc"
  have len: "length ?x = 31" "length (gpr r) = 31" "vc < length (vcpus s)"
    and tp: "\<And>t. dev s t (Sysreg (pcpu s) ''tpidr_el2'') = ?p" and ptr: "vcpu_of_ptr s ?p = Some vc"
    using v r vcpu_of_ptr_at by (auto simp: on_vcpu_def)
  let ?y = "?x[0 := ?p, 30 := gpr r ! 30, 1 := spsr_el2 r, 2 := elr_el2 r, 3 := gpr r ! 0, 4 := gpr r ! 1]"
  let ?s2 = "s\<lparr>trace := entry_trace s, cpu_x := ?y\<rparr>"
  have 1: "mthen (mrs 0 ''tpidr_el2'') (mthen (ldp_x0 30 1 15) (mthen (mbind (ld_slot 32) (set_xr 2)) (ldp_x0 3 4 0))) s =
      Inr ((), ?s2)"
    using len ptr tp r by (simp add: run mrs_def ldp_x0_def run_slots reg_slot_def entry_trace_def)
  let ?t = "Wr (Sysreg (pcpu s) ''elr_el2'') (elr_el2 r) # Wr (Sysreg (pcpu s) ''spsr_el2'') (spsr_el2 r) # entry_trace s"
  let ?s3 = "s\<lparr>cpu_sp := cpu_sp s - 16, mem := parked (mem s) (cpu_sp s) (gpr r), trace := ?t, cpu_x := ?y\<rparr>"
  have 2: "mthen (push_x 3 4) (mthen (msr ''spsr_el2'' 1) (msr ''elr_el2'' 2)) ?s2 = Inr ((), ?s3)"
    using len b by (simp add: run push_x_run msr_def parked_def)
  let ?s4 = "?s3\<lparr>cpu_x := mix 15 (gpr r) ?y\<rparr>"
  have 3: "mfor mid_pairs (\<lambda>k. ldp_x0 (2 * k) (2 * k + 1) k) ?s3 = Inr ((), ?s4)"
    using restore_loop [of ?s3 vc 15] len ptr r unfolding mid_pairs_def by simp
  have 4: "(mix 15 (gpr r) ?y)[0 := gpr r ! 0, Suc 0 := gpr r ! Suc 0] = gpr r"
    using len by (intro restore_gprs) simp_all
  have 5: "pop_x 0 1 ?s4 = Inr ((), s\<lparr>mem := parked (mem s) (cpu_sp s) (gpr r), trace := ?t, cpu_x := gpr r\<rparr>)"
    using len b parked_rd [of "mem s" "cpu_sp s" "gpr r"] 4 by (simp add: pop_x_run)
  have "vm_context_restore s =
      mthen (mthen (mrs 0 ''tpidr_el2'') (mthen (ldp_x0 30 1 15) (mthen (mbind (ld_slot 32) (set_xr 2)) (ldp_x0 3 4 0))))
      (mthen (mthen (push_x 3 4) (mthen (msr ''spsr_el2'' 1) (msr ''elr_el2'' 2)))
      (mthen (mfor mid_pairs (\<lambda>k. ldp_x0 (2 * k) (2 * k + 1) k)) (pop_x 0 1))) s"
    by (simp only: vm_context_restore_def mbind_assoc)
  then show ?thesis
    by (simp only: mbind_run 1 2 3 5)
qed

text \<open>
  The hypervisor's frame on its own stack: word \<open>j\<close> below the stack pointer \<open>sp\<close> is at
  \<open>sp - 8 * j\<close>; register \<open>n\<close> below 30 is word \<open>n + 1\<close>, and x30 is word 31.
\<close>

definition stack_word :: "u64 \<Rightarrow> nat \<Rightarrow> u64" where
  "stack_word sp j = sp - of_nat (8 * j)"

definition frame :: "memory \<Rightarrow> u64 \<Rightarrow> nat \<Rightarrow> u64 list \<Rightarrow> bool" where
  "frame m sp n xs \<longleftrightarrow> (\<forall>i < n. rd64 m (stack_word sp (Suc i)) = xs ! i)"

lemma stack_words_disjoint:
  assumes "i \<noteq> j" "i \<le> 32" "j \<le> 32"
  shows "span (stack_word sp i) 8 \<inter> span (stack_word sp j) 8 = {}"
proof -
  have *: "\<not> unat (b - stack_word sp k) < 8" if "unat (b - stack_word sp l) < 8" "l < k" "k \<le> 32" for b k l
  proof -
    have "b - stack_word sp k = (b - stack_word sp l) + of_nat (8 * (k - l))"
      using that by (simp add: stack_word_def of_nat_diff algebra_simps)
    from unat_offset [OF this] that show ?thesis by simp
  qed
  then show ?thesis
    using assms by (auto simp: linorder_neq_iff)
qed

lemma frame_wr_other: "n < j \<Longrightarrow> j \<le> 32 \<Longrightarrow> frame (wr64 m (stack_word sp j) v) sp n xs = frame m sp n xs"
  by (auto simp: frame_def rd_wr_le_other stack_words_disjoint)

lemma frame_wr: "n < 32 \<Longrightarrow> frame (wr64 m (stack_word sp (Suc n)) v) sp (Suc n) xs \<longleftrightarrow> frame m sp n xs \<and> xs ! n = v"
  using frame_wr_other [of n "Suc n" m sp v xs]
  by (auto simp: frame_def less_Suc_eq rd_wr_le_same)

lemma wr_stack_outside:
  "b \<notin> span (stack_word sp n) (8 * n) \<Longrightarrow> 1 \<le> j \<Longrightarrow> j \<le> n \<Longrightarrow> n \<le> 32 \<Longrightarrow> wr64 m (stack_word sp j) v b = m b"
proof -
  assume b: "b \<notin> span (stack_word sp n) (8 * n)" and j: "1 \<le> j" "j \<le> n" "n \<le> 32"
  have "\<not> unat (b - stack_word sp j) < 8"
  proof
    assume l: "unat (b - stack_word sp j) < 8"
    have "b - stack_word sp n = (b - stack_word sp j) + of_nat (8 * (n - j))"
      using j by (simp add: stack_word_def of_nat_diff algebra_simps)
    from unat_offset [OF this] l b j show False by simp
  qed
  then show ?thesis by (simp add: wr_le_apply)
qed

lemma all_backed_sub:
  assumes "all_backed s a n" and "b = a + of_nat k" and "k + j \<le> n"
  shows "all_backed s b j"
proof -
  have "backed s (a + of_nat (k + i))" if "i < j" for i
    using assms(1,3) that unfolding all_backed_def by (metis add_le_cancel_left less_le_trans nat_add_left_cancel_less)
  then show ?thesis by (simp add: all_backed_def assms(2) algebra_simps)
qed

lemma stack_word_backed:
  "all_backed s (stack_word sp 32) 256 \<Longrightarrow> 1 \<le> j \<Longrightarrow> j \<le> 32 \<Longrightarrow> all_backed s (stack_word sp j) 8"
proof -
  assume b: "all_backed s (stack_word sp 32) 256" and j: "1 \<le> j" "j \<le> 32"
  have "stack_word sp j = stack_word sp 32 + of_nat (8 * (32 - j))"
    using j by (simp add: stack_word_def of_nat_diff)
  moreover have "8 * (32 - j) + 8 \<le> 256"
    using j by simp
  ultimately show ?thesis by (rule all_backed_sub [OF b])
qed

lemma wr_le_commute:
  assumes "span a 8 \<inter> span b 8 = {}"
  shows "wr64 (wr64 m b w) a v = wr64 (wr64 m a v) b w"
proof
  fix c
  have "\<not> (unat (c - a) < 8 \<and> unat (c - b) < 8)"
    using assms by auto
  then show "wr64 (wr64 m b w) a v c = wr64 (wr64 m a v) b w c"
    by (auto simp: wr_le_apply)
qed

lemma save_frame_loop:
  assumes len: "length (cpu_x s) = 31" and b: "all_backed s (stack_word (cpu_sp s) 32) 256" and "n \<le> 15"
  shows "\<exists>m. mfor [0..<n] (\<lambda>k. push_x (2 * k + 1) (2 * k)) s = Inr ((), s\<lparr>cpu_sp := stack_word (cpu_sp s) (2 * n), mem := m\<rparr>) \<and>
    frame m (cpu_sp s) (2 * n) (cpu_x s) \<and> (\<forall>a. a \<notin> span (stack_word (cpu_sp s) 32) 256 \<longrightarrow> m a = mem s a)"
  using assms(3)
proof (induction n)
  case 0
  have "s\<lparr>cpu_sp := cpu_sp s, mem := mem s\<rparr> = s" by simp
  then show ?case
    by (intro exI [of _ "mem s"]) (simp add: run frame_def stack_word_def)
next
  case (Suc n)
  let ?sp = "cpu_sp s" and ?x = "cpu_x s"
  obtain m where m: "mfor [0..<n] (\<lambda>k. push_x (2 * k + 1) (2 * k)) s = Inr ((), s\<lparr>cpu_sp := stack_word ?sp (2 * n), mem := m\<rparr>)"
    and f: "frame m ?sp (2 * n) ?x" and o: "\<And>a. a \<notin> span (stack_word ?sp 32) 256 \<Longrightarrow> m a = mem s a"
    using Suc by auto
  let ?m = "wr64 (wr64 m (stack_word ?sp (Suc (Suc (2 * n)))) (?x ! Suc (2 * n))) (stack_word ?sp (Suc (2 * n))) (?x ! (2 * n))"
  let ?m' = "wr64 (wr64 m (stack_word ?sp (Suc (2 * n))) (?x ! (2 * n))) (stack_word ?sp (Suc (Suc (2 * n)))) (?x ! Suc (2 * n))"
  have a: "stack_word ?sp (2 * n) - 16 = stack_word ?sp (Suc (Suc (2 * n)))" "stack_word ?sp (2 * n) - 8 = stack_word ?sp (Suc (2 * n))"
    by (simp_all add: stack_word_def)
  have bk: "all_backed s (stack_word ?sp (Suc (Suc (2 * n)))) 8" "all_backed s (stack_word ?sp (Suc (2 * n))) 8"
    using Suc.prems by (auto intro!: stack_word_backed [OF b])
  have "push_x (2 * n + 1) (2 * n) (s\<lparr>cpu_sp := stack_word ?sp (2 * n), mem := m\<rparr>) = Inr ((), s\<lparr>cpu_sp := stack_word ?sp (2 * Suc n), mem := ?m\<rparr>)"
    using Suc.prems len bk a by (simp add: push_x_run)
  moreover have "[0..<Suc n] = [0..<n] @ [n]" by simp
  ultimately have "mfor [0..<Suc n] (\<lambda>k. push_x (2 * k + 1) (2 * k)) s = Inr ((), s\<lparr>cpu_sp := stack_word ?sp (2 * Suc n), mem := ?m\<rparr>)"
    using m by (simp only: mfor_append mbind_run mfor.simps) (simp add: run)
  moreover have "frame ?m ?sp (2 * Suc n) ?x"
  proof -
    have "?m = ?m'"
      using Suc.prems by (intro wr_le_commute stack_words_disjoint) simp_all
    then show ?thesis using f Suc.prems by (simp add: frame_wr)
  qed
  moreover have "?m a = mem s a" if "a \<notin> span (stack_word ?sp 32) 256" for a
    using that Suc.prems o by (simp add: wr_stack_outside [of _ _ 32])
  ultimately show ?case by blast
qed

lemma hyp_context_save_run:
  assumes len: "length (cpu_x s) = 31" and b: "all_backed s (stack_word (cpu_sp s) 32) 256"
  shows "\<exists>m. hyp_context_save s = Inr ((), s\<lparr>cpu_sp := stack_word (cpu_sp s) 32, mem := m\<rparr>) \<and>
    frame m (cpu_sp s) 31 (cpu_x s) \<and> (\<forall>a. a \<notin> span (stack_word (cpu_sp s) 32) 256 \<longrightarrow> m a = mem s a)"
proof -
  let ?sp = "cpu_sp s" and ?x = "cpu_x s"
  obtain m where m: "mfor all_pairs (\<lambda>k. push_x (2 * k + 1) (2 * k)) s = Inr ((), s\<lparr>cpu_sp := stack_word ?sp 30, mem := m\<rparr>)"
    and f: "frame m ?sp 30 ?x" and o: "\<And>a. a \<notin> span (stack_word ?sp 32) 256 \<Longrightarrow> m a = mem s a"
    using save_frame_loop [OF len b, of 15] unfolding all_pairs_def by auto
  let ?m = "wr64 (wr64 m (stack_word ?sp 32) 0) (stack_word ?sp 31) (?x ! 30)"
  have a: "stack_word ?sp 30 - 16 = stack_word ?sp 32" "stack_word ?sp 30 - 8 = stack_word ?sp 31"
    by (simp_all add: stack_word_def)
  have bk: "all_backed s (stack_word ?sp 32) 8" "all_backed s (stack_word ?sp 31) 8"
    by (auto intro!: stack_word_backed [OF b])
  have "mbind (xr 30) (push2 0) (s\<lparr>cpu_sp := stack_word ?sp 30, mem := m\<rparr>) = Inr ((), s\<lparr>cpu_sp := stack_word ?sp 32, mem := ?m\<rparr>)"
    using len bk a by (simp add: run push2_def)
  then have "hyp_context_save s = Inr ((), s\<lparr>cpu_sp := stack_word ?sp 32, mem := ?m\<rparr>)"
    unfolding hyp_context_save_def using m by (simp only: mbind_run)
  moreover have "frame ?m ?sp 31 ?x"
    using f frame_wr [of 30 "wr64 m (stack_word ?sp 32) 0" ?sp "?x ! 30" ?x] frame_wr_other [of 30 32 m ?sp 0 ?x] by simp
  moreover have "?m a = mem s a" if "a \<notin> span (stack_word ?sp 32) 256" for a
    using that o by (simp add: wr_stack_outside [of _ _ 32])
  ultimately show ?thesis by blast
qed

text \<open>The registers x30 and from \<open>2 * n\<close> to x29 have been restored.\<close>

definition top_from :: "nat \<Rightarrow> u64 list \<Rightarrow> u64 list \<Rightarrow> u64 list" where
  "top_from n xs ys = map (\<lambda>i. if 2 * n \<le> i then xs ! i else ys ! i) [0..<31]"

lemma top_from_nth [simp]:
  "length (top_from n xs ys) = 31" "i < 31 \<Longrightarrow> top_from n xs ys ! i = (if 2 * n \<le> i then xs ! i else ys ! i)"
  by (simp_all add: top_from_def)

lemma top_from_15: "length ys = 31 \<Longrightarrow> ys[30 := xs ! 30] = top_from 15 xs ys"
proof (rule nth_equalityI)
  fix i
  assume "length ys = 31" and i: "i < length (ys[30 := xs ! 30])"
  then have "i < 30 \<or> i = 30" by auto
  with i show "ys[30 := xs ! 30] ! i = top_from 15 xs ys ! i"
    by (auto simp: nth_list_update)
qed simp

lemma top_from_step: "n < 15 \<Longrightarrow> (top_from (Suc n) xs ys)[Suc (2 * n) := xs ! Suc (2 * n), 2 * n := xs ! (2 * n)] = top_from n xs ys"
  by (rule nth_equalityI) (auto simp: nth_list_update less_Suc_eq)

lemma restore_frame_loop:
  assumes b: "all_backed s (stack_word sp 32) 256" and f: "frame (mem s) sp 31 xs" and n: "n \<le> 15"
  shows "mfor (rev [0..<n]) (\<lambda>k. pop_x (2 * k + 1) (2 * k)) (s\<lparr>cpu_sp := stack_word sp (2 * n), cpu_x := top_from n xs ys\<rparr>) =
    Inr ((), s\<lparr>cpu_sp := sp, cpu_x := top_from 0 xs ys\<rparr>)"
  using n
proof (induction n)
  case 0
  then show ?case by (simp add: run stack_word_def)
next
  case (Suc n)
  have a: "stack_word sp (2 * Suc n) + 16 = stack_word sp (2 * n)" "stack_word sp (2 * Suc n) + 8 = stack_word sp (Suc (2 * n))"
    by (simp_all add: stack_word_def algebra_simps)
  have bk: "all_backed s (stack_word sp (2 * Suc n)) 8" "all_backed s (stack_word sp (Suc (2 * n))) 8"
    using Suc.prems by (auto intro!: stack_word_backed [OF b])
  have r: "rd64 (mem s) (stack_word sp (2 * Suc n)) = xs ! Suc (2 * n)" "rd64 (mem s) (stack_word sp (Suc (2 * n))) = xs ! (2 * n)"
    using f Suc.prems by (simp_all add: frame_def)
  have "pop_x (2 * n + 1) (2 * n) (s\<lparr>cpu_sp := stack_word sp (2 * Suc n), cpu_x := top_from (Suc n) xs ys\<rparr>) =
      Inr ((), s\<lparr>cpu_sp := stack_word sp (2 * n), cpu_x := top_from n xs ys\<rparr>)"
    using Suc.prems bk r a top_from_step [of n xs ys] by (simp add: pop_x_run)
  with Suc show ?case by (simp add: mbind_run)
qed

lemma hyp_context_restore_run:
  assumes b: "all_backed s (stack_word sp 32) 256" and f: "frame (mem s) sp 31 xs" and sp: "cpu_sp s = stack_word sp 32"
    and len: "length (cpu_x s) = 31" "length xs = 31"
  shows "hyp_context_restore s = Inr ((), s\<lparr>cpu_sp := sp, cpu_x := xs\<rparr>)"
proof -
  have a: "stack_word sp 32 + 16 = stack_word sp 30" "stack_word sp 32 + 8 = stack_word sp 31"
    by (simp_all add: stack_word_def)
  have bk: "all_backed s (stack_word sp 32) 8" "all_backed s (stack_word sp 31) 8"
    by (auto intro!: stack_word_backed [OF b])
  from f have "30 < (31 :: nat) \<longrightarrow> rd64 (mem s) (stack_word sp (Suc 30)) = xs ! 30"
    unfolding frame_def by (rule spec)
  then have "rd64 (mem s) (stack_word sp 31) = xs ! 30"
    by simp
  then have 1: "mbind pop2 (\<lambda>(_, x30). set_xr 30 x30) s =
      Inr ((), s\<lparr>cpu_sp := stack_word sp (2 * 15), cpu_x := top_from 15 xs (cpu_x s)\<rparr>)"
    using bk sp a len top_from_15 [OF len(1)] by (simp add: run pop2_def)
  have "top_from 0 xs (cpu_x s) = xs"
    using len by (intro nth_equalityI) auto
  then show ?thesis
    using restore_frame_loop [OF b f, of 15 "cpu_x s"] 1
    unfolding hyp_context_restore_def all_pairs_def by (simp only: mbind_run)
qed

end
