(* ===== verification/Vcpu.thy ===== *)
theory Vcpu
  imports Vgic Context
begin

text \<open>
  Virtual processors, \<open>src/vcpu.c\<close>: their creation, the system registers that a vcpu gets when it
  first runs, and the switch of a physical processor to its vcpu.
\<close>

definition SPSR_EL2_MODE_EL1H :: u32 where "SPSR_EL2_MODE_EL1H = 5"
definition SPSR_EL2_F :: u32 where "SPSR_EL2_F = push_bit 6 1"
definition SPSR_EL2_I :: u32 where "SPSR_EL2_I = push_bit 7 1"
definition SPSR_EL2_A :: u32 where "SPSR_EL2_A = push_bit 8 1"
definition SPSR_EL2_D :: u32 where "SPSR_EL2_D = push_bit 9 1"
definition MPIDR_RES1 :: u32 where "MPIDR_RES1 = push_bit 31 1"

definition vcpu_init :: "unit hcomp" where
  "vcpu_init = mmod (g_vcpus_lock_update (\<lambda>_. spinlock_init))"

definition vcpu_alloc :: "nat option hcomp" where
  "vcpu_alloc = locked_alloc vcpus vcpus_update (\<lambda>v. vstate v = UNUSED) (vstate_update (\<lambda>_. CREATED))
     g_vcpus_lock g_vcpus_lock_update"

text \<open>The masks are \<open>int\<close> constants; the register values are their sign extensions.\<close>

definition new_vcpu :: "nat \<Rightarrow> int \<Rightarrow> u64 \<Rightarrow> nat option hcomp" where
  "new_vcpu v vcpuid entry =
     mbind vcpu_alloc (\<lambda>p.
     case p of
       None \<Rightarrow> mret None
     | Some i \<Rightarrow>
         mthen (upd_vcpu i (\<lambda>c. c\<lparr>vcpu_vm := Some v, vcpu_cpuid := vcpuid, vcpu_name := ''vcpu'',
           vreg := (vreg c)\<lparr>elr_el2 := entry,
             spsr_el2 := sext64 (SPSR_EL2_MODE_EL1H OR SPSR_EL2_F OR SPSR_EL2_I OR SPSR_EL2_A OR SPSR_EL2_D)\<rparr>,
           vsys := (vsys c)\<lparr>mpidr_el1 := sext64 (of_int vcpuid OR MPIDR_RES1), midr_el1 := 0x410fd081,
             sctlr_el1 := 0x30C50830, cntfrq_el0 := 62500000\<rparr>\<rparr>))
         (mbind (vcpu_at i) (\<lambda>c. mbind (vm_gic_state_init (vcpu_gic c)) (\<lambda>g.
          mthen (upd_vcpu i (vcpu_gic_update (\<lambda>_. g)))
         (mbind (new_vgic_cpu vcpuid) (\<lambda>vg.
          mthen (upd_vcpu i (vcpu_vgic_update (\<lambda>_. vg))) (mret (Some i))))))))"

definition free_vcpu :: "nat option \<Rightarrow> unit hcomp" where
  "free_vcpu p = mret ()"

definition vcpu_ready :: "nat option \<Rightarrow> unit hcomp" where
  "vcpu_ready p = mbind (mthe p) (\<lambda>i. upd_vcpu i (vstate_update (\<lambda>_. READY)))"

definition save_sysreg :: "nat \<Rightarrow> unit hcomp" where
  "save_sysreg i =
     mbind (read_sysreg ''spsr_el1'') (\<lambda>v. mthen (upd_vcpu i (vsys_update (spsr_el1_update (\<lambda>_. v))))
     (mbind (read_sysreg ''elr_el1'') (\<lambda>v. mthen (upd_vcpu i (vsys_update (elr_el1_update (\<lambda>_. v))))
     (mbind (read_sysreg ''mpidr_el1'') (\<lambda>v. mthen (upd_vcpu i (vsys_update (mpidr_el1_update (\<lambda>_. v))))
     (mbind (read_sysreg ''midr_el1'') (\<lambda>v. mthen (upd_vcpu i (vsys_update (midr_el1_update (\<lambda>_. v))))
     (mbind (read_sysreg ''sp_el0'') (\<lambda>v. mthen (upd_vcpu i (vsys_update (sp_el0_update (\<lambda>_. v))))
     (mbind (read_sysreg ''sp_el1'') (\<lambda>v. mthen (upd_vcpu i (vsys_update (sp_el1_update (\<lambda>_. v))))
     (mbind (read_sysreg ''ttbr0_el1'') (\<lambda>v. mthen (upd_vcpu i (vsys_update (ttbr0_el1_update (\<lambda>_. v))))
     (mbind (read_sysreg ''ttbr1_el1'') (\<lambda>v. mthen (upd_vcpu i (vsys_update (ttbr1_el1_update (\<lambda>_. v))))
     (mbind (read_sysreg ''tcr_el1'') (\<lambda>v. mthen (upd_vcpu i (vsys_update (tcr_el1_update (\<lambda>_. v))))
     (mbind (read_sysreg ''vbar_el1'') (\<lambda>v. mthen (upd_vcpu i (vsys_update (vbar_el1_update (\<lambda>_. v))))
     (mbind (read_sysreg ''sctlr_el1'') (\<lambda>v. mthen (upd_vcpu i (vsys_update (sctlr_el1_update (\<lambda>_. v))))
     (mbind (read_sysreg ''cntv_ctl_el0'') (\<lambda>v. mthen (upd_vcpu i (vsys_update (cntv_ctl_el0_update (\<lambda>_. v))))
     (mbind (read_sysreg ''cntv_tval_el0'') (\<lambda>v. upd_vcpu i (vsys_update (cntv_tval_el0_update (\<lambda>_. v))))))))))))))))))))))))))))"

definition restore_sysreg :: "nat \<Rightarrow> unit hcomp" where
  "restore_sysreg i = mbind (vcpu_at i) (\<lambda>c. let y = vsys c in
     mfor [(''spsr_el1'', spsr_el1 y), (''elr_el1'', elr_el1 y),
       (''vmpidr_el2'', mpidr_el1 y), (''vpidr_el2'', midr_el1 y),
       (''sp_el0'', sp_el0 y), (''sp_el1'', sp_el1 y), (''ttbr0_el1'', ttbr0_el1 y), (''ttbr1_el1'', ttbr1_el1 y),
       (''tcr_el1'', tcr_el1 y), (''vbar_el1'', vbar_el1 y), (''sctlr_el1'', sctlr_el1 y),
       (''cntv_ctl_el0'', cntv_ctl_el0 y), (''cntv_tval_el0'', cntv_tval_el0 y), (''cntfrq_el0'', cntfrq_el0 y)]
       (\<lambda>(r, v). write_sysreg r v))"

text \<open>The dump prints what \<open>save_sysreg\<close> has stored; its text is not modelled.\<close>

definition vcpu_dump :: "nat option \<Rightarrow> unit hcomp" where
  "vcpu_dump p = (case p of None \<Rightarrow> mret () | Some i \<Rightarrow> save_sysreg i)"

definition switch_to_vcpu :: "nat \<Rightarrow> unit hcomp" where
  "switch_to_vcpu i =
     mbind (mget (\<lambda>s. vcpu_ptr s i)) (\<lambda>p.
     mthen (write_sysreg ''tpidr_el2'' p)
     (mbind cpuid (\<lambda>id. mbind (vcpu_at i) (\<lambda>c.
      if int id \<noteq> vcpu_cpuid c then mfail (Panic ''vcpu cpuid mismatch'')
      else
        mthen (upd_vcpu i (vstate_update (\<lambda>_. RUNNING)))
        (mbind (mthe (vcpu_vm c)) (\<lambda>v. mbind (vm_at v) (\<lambda>vm.
         mthen (write_sysreg ''vttbr_el2'' (stage2_pt vm))
        (mthen tlb_flush
        (mthen (restore_sysreg i)
        (mthen (gic_restore_state (vcpu_gic c))
        (mthen isb eret_vm)))))))))))"

definition enter_vcpu :: "unit hcomp" where
  "enter_vcpu =
     mbind cpuid (\<lambda>id. mbind (vcpu_at id) (\<lambda>c.
     if vstate c \<noteq> READY then mfail (Panic ''vcpu not ready'')
     else mbind (mthe (vcpu_vm c)) (\<lambda>v. mthen (vm_at v) (switch_to_vcpu id))))"

end
