(* ===== verification/Virtio.thy ===== *)
theory Virtio
  imports S2_Trap Lib
begin

text \<open>
  The emulated disk: \<open>src/ramdisk.c\<close>, the image in memory, and \<open>src/virtio_dev.c\<close>, the legacy
  virtio-mmio block device in front of it. The rings are structures in guest memory that the
  device reads and writes through physical addresses.
\<close>

section \<open>The disk image (\<open>src/ramdisk.c\<close>)\<close>

definition FSIMG_SIZE :: u64 where "FSIMG_SIZE = 1000"
definition BLOCK_SIZE :: u64 where "BLOCK_SIZE = 1024"

definition ramdisk_init :: "unit hcomp" where
  "ramdisk_init = mmod (\<lambda>s. s\<lparr>ramdisk_start := fs_img_start (img s), ramdisk_size := fs_img_size (img s)\<rparr>)"

definition ramdisk_rw :: "u64 \<Rightarrow> u64 \<Rightarrow> u16 \<Rightarrow> int hcomp" where
  "ramdisk_rw blk_num buf_addr is_write =
     (if blk_num \<ge> FSIMG_SIZE then mret (-1)
      else mbind (mget ramdisk_start) (\<lambda>start.
        let disk_addr = start + blk_num * BLOCK_SIZE in
        mthen (if is_write \<noteq> 0 then memmove disk_addr buf_addr BLOCK_SIZE
               else memmove buf_addr disk_addr BLOCK_SIZE) (mret 0)))"

section \<open>Registers and structures (\<open>include/virtio.h\<close>)\<close>

definition VIRTIO0 :: u64 where "VIRTIO0 = 0x0a000000"
definition VIRTIO0_SIZE :: u64 where "VIRTIO0_SIZE = 0x10000"
definition VIRTIO_MMIO_MAGIC_VALUE :: u64 where "VIRTIO_MMIO_MAGIC_VALUE = 0x000"
definition VIRTIO_MMIO_VERSION :: u64 where "VIRTIO_MMIO_VERSION = 0x004"
definition VIRTIO_MMIO_DEVICE_ID :: u64 where "VIRTIO_MMIO_DEVICE_ID = 0x008"
definition VIRTIO_MMIO_VENDOR_ID :: u64 where "VIRTIO_MMIO_VENDOR_ID = 0x00c"
definition VIRTIO_MMIO_DEVICE_FEATURES :: u64 where "VIRTIO_MMIO_DEVICE_FEATURES = 0x010"
definition VIRTIO_MMIO_DRIVER_FEATURES :: u64 where "VIRTIO_MMIO_DRIVER_FEATURES = 0x020"
definition VIRTIO_MMIO_GUEST_PAGE_SIZE :: u64 where "VIRTIO_MMIO_GUEST_PAGE_SIZE = 0x028"
definition VIRTIO_MMIO_QUEUE_SEL :: u64 where "VIRTIO_MMIO_QUEUE_SEL = 0x030"
definition VIRTIO_MMIO_QUEUE_NUM_MAX :: u64 where "VIRTIO_MMIO_QUEUE_NUM_MAX = 0x034"
definition VIRTIO_MMIO_QUEUE_NUM :: u64 where "VIRTIO_MMIO_QUEUE_NUM = 0x038"
definition VIRTIO_MMIO_QUEUE_ALIGN :: u64 where "VIRTIO_MMIO_QUEUE_ALIGN = 0x03c"
definition VIRTIO_MMIO_QUEUE_PFN :: u64 where "VIRTIO_MMIO_QUEUE_PFN = 0x040"
definition VIRTIO_MMIO_QUEUE_READY :: u64 where "VIRTIO_MMIO_QUEUE_READY = 0x044"
definition VIRTIO_MMIO_QUEUE_NOTIFY :: u64 where "VIRTIO_MMIO_QUEUE_NOTIFY = 0x050"
definition VIRTIO_MMIO_INTERRUPT_STATUS :: u64 where "VIRTIO_MMIO_INTERRUPT_STATUS = 0x060"
definition VIRTIO_MMIO_INTERRUPT_ACK :: u64 where "VIRTIO_MMIO_INTERRUPT_ACK = 0x064"
definition VIRTIO_MMIO_STATUS :: u64 where "VIRTIO_MMIO_STATUS = 0x070"
definition VIRTIO0_IRQ :: u16 where "VIRTIO0_IRQ = 48"
definition VRING_DESC_F_NEXT :: u16 where "VRING_DESC_F_NEXT = 1"
definition VIRTIO_BLK_T_OUT :: u32 where "VIRTIO_BLK_T_OUT = 1"

lemmas virtio_regs = VIRTIO_MMIO_MAGIC_VALUE_def VIRTIO_MMIO_VERSION_def VIRTIO_MMIO_DEVICE_ID_def
  VIRTIO_MMIO_VENDOR_ID_def VIRTIO_MMIO_DEVICE_FEATURES_def VIRTIO_MMIO_DRIVER_FEATURES_def
  VIRTIO_MMIO_GUEST_PAGE_SIZE_def VIRTIO_MMIO_QUEUE_SEL_def VIRTIO_MMIO_QUEUE_NUM_MAX_def
  VIRTIO_MMIO_QUEUE_NUM_def VIRTIO_MMIO_QUEUE_ALIGN_def VIRTIO_MMIO_QUEUE_PFN_def
  VIRTIO_MMIO_QUEUE_READY_def VIRTIO_MMIO_QUEUE_NOTIFY_def VIRTIO_MMIO_INTERRUPT_STATUS_def
  VIRTIO_MMIO_INTERRUPT_ACK_def VIRTIO_MMIO_STATUS_def

text \<open>A descriptor: its address, length, flags and link are at the offsets 0, 8, 12 and 14.\<close>

record virtq_desc =
  desc_addr :: u64
  desc_len :: u32
  desc_flags :: u16
  desc_next :: u16

definition desc_ptr :: "u64 \<Rightarrow> u16 \<Rightarrow> u64" where
  "desc_ptr desc i = desc + ucast i * 16"

definition ld_desc :: "u64 \<Rightarrow> virtq_desc hcomp" where
  "ld_desc p = mbind (ld64 p) (\<lambda>a. mbind (ld32 (p + 8)) (\<lambda>l. mbind (ld16 (p + 12)) (\<lambda>f. mbind (ld16 (p + 14)) (\<lambda>n.
     mret \<lparr>desc_addr = a, desc_len = l, desc_flags = f, desc_next = n\<rparr>))))"

definition avail_idx_ptr :: "u64 \<Rightarrow> u64" where "avail_idx_ptr avail = avail + 2"
definition avail_ring_ptr :: "u64 \<Rightarrow> u64 \<Rightarrow> u64" where "avail_ring_ptr avail i = avail + 4 + i * 2"
definition used_idx_ptr :: "u64 \<Rightarrow> u64" where "used_idx_ptr used = used + 2"
definition used_ring_ptr :: "u64 \<Rightarrow> u64 \<Rightarrow> u64" where "used_ring_ptr used i = used + 4 + i * 8"

text \<open>The remainder of C's \<open>%\<close> on unsigned integers.\<close>

definition umod :: "u64 \<Rightarrow> u64 \<Rightarrow> ('s, u64) comp" where
  "umod x n = (if n = 0 then mfail Div_By_Zero else mret (x mod n))"

section \<open>The device (\<open>src/virtio_dev.c\<close>)\<close>

definition virtio_guest_to_host :: "u64 \<Rightarrow> u64 hcomp" where
  "virtio_guest_to_host ipa =
     mbind cur_vcpu (\<lambda>vc. mbind (vm_of vc) (\<lambda>v. mbind (vm_at v) (\<lambda>vm. ipa2pa (stage2_pt vm) ipa)))"

definition vq_ring_init :: "u64 \<Rightarrow> unit hcomp" where
  "vq_ring_init ipa =
     mthen (mmod (g_vq_update (\<lambda>q. q\<lparr>virtq_lock := spinlock_init, vring_ipa := ipa\<rparr>)))
     (mbind (virtio_guest_to_host ipa) (\<lambda>pa.
      mmod (g_vq_update (\<lambda>q. q\<lparr>vring_pa := pa, vq_avail := pa + vring_num q * 16, vq_desc := pa,
        vq_used := pa + PAGE_SIZE\<rparr>))))"

definition virtio_signal_vq :: "unit hcomp" where
  "virtio_signal_vq = gic_set_pending_irq VIRTIO0_IRQ"

definition sync_synchronize :: "('a machine_scheme, unit) comp" where
  "sync_synchronize = emit (Instr ''dmb ish'')"

definition used_elem_ptr :: "u64 hcomp" where
  "used_elem_ptr = mbind (mget g_vq) (\<lambda>q.
     mbind (ld16 (used_idx_ptr (vq_used q))) (\<lambda>idx.
     mbind (umod (ucast idx) (vring_num q)) (\<lambda>k. mret (used_ring_ptr (vq_used q) k))))"

definition vqueue_set_used_elem :: "u16 \<Rightarrow> u16 \<Rightarrow> unit hcomp" where
  "vqueue_set_used_elem desc_idx len =
     mbind used_elem_ptr (\<lambda>p. mthen (st32 p (ucast desc_idx))
     (mbind used_elem_ptr (\<lambda>p. mthen (st32 (p + 4) (ucast len))
     (mthen sync_synchronize
     (mbind (mget g_vq) (\<lambda>q. mbind (ld16 (used_idx_ptr (vq_used q))) (\<lambda>idx.
      mthen (st16 (used_idx_ptr (vq_used q)) (idx + 1)) sync_synchronize)))))))"

definition virtq_available :: "bool hcomp" where
  "virtq_available = mbind (mget g_vq) (\<lambda>q.
     mbind (ld16 (avail_idx_ptr (vq_avail q))) (\<lambda>idx. mret (avail_idx q \<noteq> idx)))"

definition virt_desc_test_flag :: "u64 \<Rightarrow> u16 \<Rightarrow> bool hcomp" where
  "virt_desc_test_flag p flags = mbind (ld16 (p + 12)) (\<lambda>f. mret (f AND flags \<noteq> 0))"

definition next_desc :: "u64 \<Rightarrow> u16 \<Rightarrow> u16 \<Rightarrow> u16 hcomp" where
  "next_desc desc i vmax =
     mbind (virt_desc_test_flag (desc_ptr desc i) VRING_DESC_F_NEXT) (\<lambda>more.
     if \<not> more then mret vmax
     else mbind (ld16 (desc_ptr desc i + 14)) (\<lambda>next. mret (if next < vmax then next else vmax)))"

text \<open>
  The loop that copies a descriptor chain into an array of \<open>vring_num\<close> elements, with a 16-bit index.
  A chain that has not ended after $2^{16}$ steps has come back to a descriptor it has seen, so that
  the loop never ends, unless the index has reached the end of the array before. (For a size of
  exactly $2^{16}$ the limit \<open>vmax\<close> is 0 and every chain ends after one descriptor.)
\<close>

primrec desc_chain :: "nat \<Rightarrow> u16 \<Rightarrow> u16 \<Rightarrow> virtq_desc list \<Rightarrow> virtq_desc list hcomp" where
  "desc_chain 0 vmax i ds = mfail Diverge"
| "desc_chain (Suc n) vmax i ds =
     mbind (mget g_vq) (\<lambda>q.
     mthen (massert (length ds < unat (vring_num q)) Out_Of_Bounds)
     (mbind (ld_desc (desc_ptr (vq_desc q) i)) (\<lambda>d.
      mbind (next_desc (vq_desc q) i vmax) (\<lambda>i'.
      if i' \<noteq> vmax then desc_chain n vmax i' (ds @ [d]) else mret (ds @ [d])))))"

definition chain_fuel :: "virt_queue \<Rightarrow> nat" where
  "chain_fuel q = Suc (min (unat (vring_num q)) (2 ^ 16))"

definition virtio_blk_process_desc :: "u16 \<Rightarrow> u16 hcomp" where
  "virtio_blk_process_desc desc_idx =
     mbind (mget g_vq) (\<lambda>q.
     mbind (desc_chain (chain_fuel q) (ucast (vring_num q)) desc_idx []) (\<lambda>desc.
     if length desc \<noteq> 3 then mret (of_nat (length desc))
     else
       mbind (virtio_guest_to_host (desc_addr (desc ! 0))) (\<lambda>req.
       mbind (ld64 (req + 8)) (\<lambda>sector.
       let blk_num = sector div (BLOCK_SIZE div 512) in
       mbind (ld32 req) (\<lambda>ty.
       let is_write = (if ty = VIRTIO_BLK_T_OUT then 1 else 0) in
       mbind (virtio_guest_to_host (desc_addr (desc ! 1))) (\<lambda>buf_addr.
       mbind (ramdisk_rw blk_num buf_addr is_write) (\<lambda>ret.
       mbind (virtio_guest_to_host (desc_addr (desc ! 2))) (\<lambda>status_pa.
       mthen (st8 status_pa (if ret = 0 then 0 else 0xee))
       (mret (of_nat (length desc)))))))))))"

definition lock_virtq :: "unit hcomp" where
  "lock_virtq = mlock (\<lambda>s. virtq_lock (g_vq s)) (\<lambda>f. g_vq_update (virtq_lock_update f))"

definition unlock_virtq :: "unit hcomp" where
  "unlock_virtq = munlock (\<lambda>f. g_vq_update (virtq_lock_update f))"

text \<open>One request: the head of its chain is taken from the ring of available chains.\<close>

definition process_avail :: "unit hcomp" where
  "process_avail =
     mbind (mget g_vq) (\<lambda>q.
     mbind (umod (ucast (avail_idx q)) (vring_num q)) (\<lambda>k.
     mbind (ld16 (avail_ring_ptr (vq_avail q) k)) (\<lambda>desc_idx.
     mbind (virtio_blk_process_desc desc_idx) (\<lambda>len.
     mthen (vqueue_set_used_elem desc_idx len)
     (mmod (g_vq_update (avail_idx_update (\<lambda>i. i + 1))))))))"

definition virtio_blk_req_handler :: "unit hcomp" where
  "virtio_blk_req_handler =
     mbind (mget g_vq) (\<lambda>q. mthen (ld16 (avail_idx_ptr (vq_avail q)))
     (mthen lock_virtq
     (mbind (mget poll_bound) (\<lambda>n.
      mthen (mwhile n virtq_available process_avail)
     (mthen unlock_virtq virtio_signal_vq)))))"

definition virtio_mmio_read :: "nat \<Rightarrow> u64 \<Rightarrow> reg_ptr \<Rightarrow> mmio_access \<Rightarrow> int hcomp" where
  "virtio_mmio_read vc off val acc =
     (if off = VIRTIO_MMIO_MAGIC_VALUE then mthen (put_val val 0x74726976) (mret 0)
      else if off = VIRTIO_MMIO_VERSION then mthen (put_val val 1) (mret 0)
      else if off = VIRTIO_MMIO_DEVICE_ID then mthen (put_val val 2) (mret 0)
      else if off = VIRTIO_MMIO_VENDOR_ID then mthen (put_val val 0x554d4551) (mret 0)
      else if off = VIRTIO_MMIO_DEVICE_FEATURES then mthen (put_val val 0) (mret 0)
      else if off = VIRTIO_MMIO_QUEUE_NUM_MAX then mthen (put_val val 64) (mret 0)
      else if off = VIRTIO_MMIO_QUEUE_PFN \<or> off = VIRTIO_MMIO_QUEUE_READY \<or>
        off = VIRTIO_MMIO_INTERRUPT_STATUS \<or> off = VIRTIO_MMIO_STATUS then mret 0
      else mfail (Panic ''[virtio_mmio_read] Invalid/Unsupported offset''))"

definition virtio_mmio_write :: "nat \<Rightarrow> u64 \<Rightarrow> u64 \<Rightarrow> mmio_access \<Rightarrow> int hcomp" where
  "virtio_mmio_write vc off val acc =
     (if off = VIRTIO_MMIO_DRIVER_FEATURES then mret 0
      else if off = VIRTIO_MMIO_GUEST_PAGE_SIZE then
        (if val \<noteq> PAGE_SIZE then mfail (Panic ''[virtio_mmio_write]: invalid page size'')
         else mthen (mmod (guest_pagesz_update (\<lambda>_. val))) (mret 0))
      else if off = VIRTIO_MMIO_QUEUE_SEL then mthen (mmod (g_queue_sel_update (\<lambda>_. val))) (mret 0)
      else if off = VIRTIO_MMIO_QUEUE_NUM then
        mthen (mmod (g_vq_update (vring_num_update (\<lambda>_. val)))) (mret 0)
      else if off = VIRTIO_MMIO_QUEUE_ALIGN then mret 0
      else if off = VIRTIO_MMIO_QUEUE_PFN then mthen (vq_ring_init (push_bit 12 val)) (mret 0)
      else if off = VIRTIO_MMIO_QUEUE_READY then mret 0
      else if off = VIRTIO_MMIO_QUEUE_NOTIFY then mthen virtio_blk_req_handler (mret 0)
      else if off = VIRTIO_MMIO_INTERRUPT_ACK \<or> off = VIRTIO_MMIO_STATUS then mret 0
      else mfail (Panic ''[virtio_mmio_write]: Invalid/Unsupported offset''))"

definition virtio_mmio_init :: "nat \<Rightarrow> unit hcomp" where
  "virtio_mmio_init v = s2_pt_trap v VIRTIO0 VIRTIO0_SIZE Virtio_mmio"

end
