(* ===== verification/Uart.thy ===== *)
theory Uart
  imports Gic
begin

text \<open>
  The PL011 serial port, \<open>src/uart.c\<close>. Its registers are volatile 32-bit accesses; the loops
  that wait for the port are bounded by \<open>poll_bound\<close>.
\<close>

definition UARTBASE :: u64 where "UARTBASE = 0x09000000"
definition UART_DR :: u64 where "UART_DR = 0x00"
definition UART_FR :: u64 where "UART_FR = 0x18"
definition FR_RXFE :: u32 where "FR_RXFE = 0x10"
definition FR_TXFF :: u32 where "FR_TXFF = 0x20"
definition UART_LCRH :: u64 where "UART_LCRH = 0x2c"
definition LCRH_FEN :: u32 where "LCRH_FEN = 0x10"
definition LCRH_WLEN_8BIT :: u32 where "LCRH_WLEN_8BIT = 0x60"
definition UART_CR :: u64 where "UART_CR = 0x30"
definition UART_IMSC :: u64 where "UART_IMSC = 0x38"
definition INT_RX_ENABLE :: u32 where "INT_RX_ENABLE = 0x10"
definition UART_MIS :: u64 where "UART_MIS = 0x40"
definition UART_ICR :: u64 where "UART_ICR = 0x44"

definition uart_reg :: "u64 \<Rightarrow> loc" where
  "uart_reg r = Mmio32 (UARTBASE + r)"

definition uart_r :: "u64 \<Rightarrow> ('a machine_scheme, u32) comp" where
  "uart_r r = mbind (dev_read (uart_reg r)) (\<lambda>v. mret (ucast v))"

definition uart_w :: "u64 \<Rightarrow> u32 \<Rightarrow> ('a machine_scheme, unit) comp" where
  "uart_w r v = emit (Wr (uart_reg r) (ucast v))"

definition cpu_relax :: "('a machine_scheme, unit) comp" where
  "cpu_relax = emit (Instr ''yield'')"

definition uart_putc :: "u8 \<Rightarrow> ('a machine_scheme, unit) comp" where
  "uart_putc c =
     mthen (mbind (mget poll_bound) (\<lambda>n.
        mwhile n (mbind (uart_r UART_FR) (\<lambda>f. mret (f AND FR_TXFF \<noteq> 0))) cpu_relax))
     (uart_w UART_DR (ucast c))"

text \<open>The characters of a string up to its NUL byte.\<close>

definition uart_puts :: "u8 list \<Rightarrow> ('a machine_scheme, unit) comp" where
  "uart_puts s = mfor s uart_putc"

definition uart_getc :: "('a machine_scheme, int) comp" where
  "uart_getc = mbind (uart_r UART_FR) (\<lambda>f.
     if f AND FR_RXFE \<noteq> 0 then mret (-1) else mbind (uart_r UART_DR) (\<lambda>c. mret (sint c)))"

definition uartintr :: "('a machine_scheme, unit) comp" where
  "uartintr = mbind (uart_r UART_MIS) (\<lambda>status.
     mthen (if status AND INT_RX_ENABLE \<noteq> 0 then
              mbind (mget poll_bound) (\<lambda>n. mwhile n (mbind uart_getc (\<lambda>c. mret (\<not> c < 0))) (mret ()))
            else mret ())
     (uart_w UART_ICR (push_bit 4 1)))"

definition clear_uart_interrupt :: "('a machine_scheme, unit) comp" where
  "clear_uart_interrupt = uart_w UART_ICR 0xFFFF"

definition uart_get_interrupt_status :: "('a machine_scheme, u32) comp" where
  "uart_get_interrupt_status = uart_r UART_MIS"

definition uart_init :: "('a machine_scheme, unit) comp" where
  "uart_init =
     mthen (uart_w UART_CR 0)
     (mthen (uart_w UART_IMSC 0)
     (mthen (uart_w UART_LCRH (LCRH_FEN OR LCRH_WLEN_8BIT))
     (mthen (uart_w UART_CR 0x301)
      (uart_w UART_IMSC (push_bit 4 1)))))"

section \<open>Lemmas\<close>

text \<open>The characters sent to the port, oldest first.\<close>

fun sent :: "io list \<Rightarrow> u8 list" where
  "sent [] = []"
| "sent (Wr (Mmio32 a) v # t) = (if a = UARTBASE + UART_DR then sent t @ [ucast v] else sent t)"
| "sent (e # t) = sent t"

text \<open>
  A history extended by \<open>k\<close> rounds of polling, and a port that is ready to send: from every history,
  the transmit queue has room after fewer rounds than \<open>poll_bound\<close>.
\<close>

primrec polled :: "nat \<Rightarrow> io list \<Rightarrow> io list" where
  "polled 0 t = t"
| "polled (Suc k) t = polled k (Instr ''yield'' # Rd (uart_reg UART_FR) # t)"

definition uart_full :: "'a machine_scheme \<Rightarrow> io list \<Rightarrow> bool" where
  "uart_full s t \<longleftrightarrow> (ucast (dev s t (uart_reg UART_FR)) :: u32) AND FR_TXFF \<noteq> 0"

definition uart_ready :: "'a machine_scheme \<Rightarrow> bool" where
  "uart_ready s \<longleftrightarrow> (\<forall>t. \<exists>k < poll_bound s. \<not> uart_full s (polled k t))"

lemma sent_polled [simp]: "sent (polled k t) = sent t"
  by (induction k arbitrary: t) (simp_all add: uart_reg_def)

lemma uart_wait_run:
  assumes "k < n" and "\<not> uart_full s (polled k (trace s))"
  shows "\<exists>j. mwhile n (mbind (uart_r UART_FR) (\<lambda>f. mret (f AND FR_TXFF \<noteq> 0))) cpu_relax s =
    Inr ((), s\<lparr>trace := Rd (uart_reg UART_FR) # polled j (trace s)\<rparr>)"
  using assms
proof (induction n arbitrary: k s)
  case (Suc n)
  show ?case
  proof (cases "uart_full s (trace s)")
    case False
    then show ?thesis by (intro exI [of _ 0]) (simp add: uart_full_def uart_r_def run)
  next
    case True
    then obtain j where k: "k = Suc j" using Suc.prems(2) by (cases k) simp_all
    let ?s = "s\<lparr>trace := Instr ''yield'' # Rd (uart_reg UART_FR) # trace s\<rparr>"
    have "\<exists>i. mwhile n (mbind (uart_r UART_FR) (\<lambda>f. mret (f AND FR_TXFF \<noteq> 0))) cpu_relax ?s =
        Inr ((), ?s\<lparr>trace := Rd (uart_reg UART_FR) # polled i (trace ?s)\<rparr>)"
      using Suc.prems k by (intro Suc.IH [of j]) (simp_all add: uart_full_def)
    then obtain i where w: "mwhile n (mbind (uart_r UART_FR) (\<lambda>f. mret (f AND FR_TXFF \<noteq> 0))) cpu_relax ?s =
        Inr ((), s\<lparr>trace := Rd (uart_reg UART_FR) # polled (Suc i) (trace s)\<rparr>)"
      by auto
    have c: "mbind (uart_r UART_FR) (\<lambda>f. mret (f AND FR_TXFF \<noteq> 0)) s = Inr (True, s\<lparr>trace := Rd (uart_reg UART_FR) # trace s\<rparr>)"
      and b: "cpu_relax (s\<lparr>trace := Rd (uart_reg UART_FR) # trace s\<rparr>) = Inr ((), ?s)"
      using True by (simp_all add: uart_full_def uart_r_def cpu_relax_def run)
    show ?thesis
      using w by (intro exI [of _ "Suc i"]) (simp only: mwhile.simps
        mbind_run [where m = "mbind (uart_r UART_FR) (\<lambda>f. mret (f AND FR_TXFF \<noteq> 0))", OF c] mbind_run [where m = cpu_relax, OF b] if_True)
  qed
qed simp

lemma uart_putc_run:
  assumes "uart_ready s"
  shows "\<exists>t. uart_putc c s = Inr ((), s\<lparr>trace := t\<rparr>) \<and> sent t = sent (trace s) @ [c]"
proof -
  obtain j where w: "mwhile (poll_bound s) (mbind (uart_r UART_FR) (\<lambda>f. mret (f AND FR_TXFF \<noteq> 0))) cpu_relax s =
      Inr ((), s\<lparr>trace := Rd (uart_reg UART_FR) # polled j (trace s)\<rparr>)"
    using assms uart_wait_run [of _ "poll_bound s" s] unfolding uart_ready_def by blast
  have "ucast (ucast (ucast c :: u32) :: u64) = c"
    by (rule bit_word_eqI) (auto simp: bit_simps dest: bit_imp_le_length)
  then have "sent (Wr (uart_reg UART_DR) (zext64 (ucast c)) # Rd (uart_reg UART_FR) # polled j (trace s)) =
      sent (trace s) @ [c]"
    by (simp add: uart_reg_def)
  with w show ?thesis by (auto simp: uart_putc_def uart_w_def run)
qed

lemma uart_ready_trace [simp]: "uart_ready (s\<lparr>trace := t\<rparr>) = uart_ready s"
  by (simp add: uart_ready_def uart_full_def)

lemma uart_puts_run:
  assumes "uart_ready s"
  shows "\<exists>t. uart_puts cs s = Inr ((), s\<lparr>trace := t\<rparr>) \<and> sent t = sent (trace s) @ cs"
  using assms
proof (induction cs arbitrary: s)
  case Nil
  then show ?case by (auto simp: uart_puts_def run intro: exI [of _ "trace s"])
next
  case (Cons c cs)
  obtain t where t: "uart_putc c s = Inr ((), s\<lparr>trace := t\<rparr>)" "sent t = sent (trace s) @ [c]"
    using uart_putc_run [OF Cons.prems] by blast
  obtain t' where "uart_puts cs (s\<lparr>trace := t\<rparr>) = Inr ((), s\<lparr>trace := t'\<rparr>)" "sent t' = sent t @ cs"
    using Cons.IH [of "s\<lparr>trace := t\<rparr>"] Cons.prems by auto
  with t show ?case by (auto simp: uart_puts_def run)
qed

end
