(* ===== verification/Vm.thy ===== *)
theory Vm
  imports Vcpu Virtio Uart
begin

text \<open>
  Virtual machines, \<open>src/vm.c\<close>: \<open>create_vm\<close> builds the vcpus, the stage-2 translation of the
  guest's memory and the emulated devices of one guest. The loops of the function run over the
  offsets of the guest's pages.
\<close>

definition VM_NAME_LEN :: nat where "VM_NAME_LEN = 64"

text \<open>
  The values of the loop variable \<open>p\<close> from \<open>lo\<close> in steps of a page below \<open>hi\<close>, and its value
  after the loop. Only for limits above $2^{64} - 4096$ would \<open>p\<close> wrap around, after $2^{52}$
  iterations; no loop gets there, because the translation of the guest has 48 bits and \<open>pagemap\<close>
  panics, at the latest after $2^{36}$ pages, when it finds the entry in use.
\<close>

definition page_count :: "u64 \<Rightarrow> u64 \<Rightarrow> nat" where
  "page_count lo hi = (unat hi - unat lo + 4095) div 4096"

definition page_offsets :: "u64 \<Rightarrow> u64 \<Rightarrow> u64 list" where
  "page_offsets lo hi = map (\<lambda>k. lo + of_nat k * PAGE_SIZE) [0..<page_count lo hi]"

definition after_pages :: "u64 \<Rightarrow> u64 \<Rightarrow> u64" where
  "after_pages lo hi = lo + of_nat (page_count lo hi) * PAGE_SIZE"

text \<open>The bodies of the three loops that map the image, the zeroed rest and the RAM.\<close>

definition map_guest_page :: "nat \<Rightarrow> u64 \<Rightarrow> u64 \<Rightarrow> unit hcomp" where
  "map_guest_page v ipa page = mbind (vm_at v) (\<lambda>vm.
     pagemap (stage2_pt vm) ipa page PAGE_SIZE (S2PTE_NORMAL OR S2PTE_RW))"

definition map_file_page :: "nat \<Rightarrow> u64 \<Rightarrow> u64 \<Rightarrow> u64 \<Rightarrow> u64 \<Rightarrow> unit hcomp" where
  "map_file_page v start filesz entry p =
     mbind alloc_page (\<lambda>page.
     if page = 0 then mfail (Panic ''[create_vm] no mem 2'')
     else
       let sz = (if filesz - p < PAGE_SIZE then filesz - p else PAGE_SIZE) in
       mthen (memcpy page (start + p) sz) (map_guest_page v (entry + p) page))"

definition map_zero_page :: "nat \<Rightarrow> u64 \<Rightarrow> u64 \<Rightarrow> unit hcomp" where
  "map_zero_page v entry p =
     mbind alloc_page (\<lambda>page.
     if page = 0 then mfail (Panic ''[create_vm] no mem 3'')
     else mthen (memset page 0 PAGE_SIZE) (map_guest_page v (entry + p) page))"

definition map_ram_page :: "nat \<Rightarrow> u64 \<Rightarrow> u64 \<Rightarrow> unit hcomp" where
  "map_ram_page v entry p =
     mbind alloc_page (\<lambda>page.
     if page = 0 then mfail (Panic ''[create_vm] no mem 3'')
     else map_guest_page v (entry + p) page)"

definition new_vcpu_at :: "nat \<Rightarrow> nat \<Rightarrow> u64 \<Rightarrow> unit hcomp" where
  "new_vcpu_at v k entry =
     mbind (new_vcpu v (int k) entry) (\<lambda>p. mbind (vm_at v) (\<lambda>vm.
     mthen (massert (k < length (vm_vcpus vm)) Out_Of_Bounds)
     (upd_vm v (vm_vcpus_update (\<lambda>cs. cs[k := p])))))"

text \<open>The part of \<open>create_vm\<close> that maps the guest's memory and the serial port.\<close>

definition map_guest :: "nat \<Rightarrow> guest \<Rightarrow> u64 \<Rightarrow> u64 \<Rightarrow> unit hcomp" where
  "map_guest v g entry ram =
     (let filesz = guest_end g - guest_start g;
          p1 = after_pages 0 filesz; p2 = after_pages p1 (guest_size g) in
      mthen (mfor (page_offsets 0 filesz) (map_file_page v (guest_start g) filesz entry))
      (mthen (mfor (page_offsets p1 (guest_size g)) (map_zero_page v entry))
      (mthen (mfor (page_offsets p2 ram) (map_ram_page v entry))
      (mbind (vm_at v) (\<lambda>vm. pagemap (stage2_pt vm) UARTBASE UARTBASE PAGE_SIZE (S2PTE_DEVICE OR S2PTE_RW))))))"

definition create_vm :: "vmconfig option \<Rightarrow> unit hcomp" where
  "create_vm cfg =
     (case cfg of
        None \<Rightarrow> mfail (Panic ''vmcfg is NULL'')
      | Some cfg \<Rightarrow>
        (case guest_img cfg of
           None \<Rightarrow> mfail (Panic ''vmcfg is NULL'')
         | Some g \<Rightarrow>
           mbind allocvm (\<lambda>p.
           case p of
             None \<Rightarrow> mfail (Panic ''alloc vm failed'')
           | Some v \<Rightarrow>
               mthen (upd_vm v (nvcpu_update (\<lambda>_. cfg_nvcpu cfg)))
               (mthen (massert (length (guest_name g) < VM_NAME_LEN) Out_Of_Bounds)
               (mthen (upd_vm v (vm_name_update (\<lambda>_. guest_name g)))
               (mthen (new_vcpu_at v 0 (entrypoint cfg))
               (mthen (mfor [1..<nat (cfg_nvcpu cfg)] (\<lambda>i. new_vcpu_at v i 0))
               (mbind alloc_page (\<lambda>pt.
                mthen (upd_vm v (stage2_pt_update (\<lambda>_. pt)))
               (if pt = 0 then mfail (Panic ''[create_vm] no mem'')
                else
                  mthen (map_guest v g (entrypoint cfg) (ram_size cfg))
                  (mthen (virtio_mmio_init v)
                  (mbind (new_vgic v) (\<lambda>vg.
                   mthen (upd_vm v (vm_vgic_update (\<lambda>_. Some vg)))
                  (mbind (vm_at v) (\<lambda>vm. mbind (mnth (vm_vcpus vm) 0) vcpu_ready)))))))))))))))"

end
