(* ===== verification/Psci.thy ===== *)
theory Psci
  imports Vcpu
begin

text \<open>
  The PSCI calls of a guest, \<open>src/psci.c\<close>. Bringing up a vcpu makes it ready and asks the
  firmware to start the physical processor of the same number.
\<close>

definition PSCI_VERSION :: u32 where "PSCI_VERSION = 0x84000000"
definition PSCI_CPU_SUSPEND_SMC32 :: u32 where "PSCI_CPU_SUSPEND_SMC32 = 0x84000001"
definition PSCI_CPU_SUSPEND_SMC64 :: u32 where "PSCI_CPU_SUSPEND_SMC64 = 0xc4000001"
definition PSCI_CPU_OFF :: u32 where "PSCI_CPU_OFF = 0x84000002"
definition PSCI_CPU_ON_SMC32 :: u32 where "PSCI_CPU_ON_SMC32 = 0x84000003"
definition PSCI_CPU_ON_SMC64 :: u32 where "PSCI_CPU_ON_SMC64 = 0xc4000003"
definition PSCI_AFFINITY_INFO_SMC32 :: u32 where "PSCI_AFFINITY_INFO_SMC32 = 0x84000004"
definition PSCI_AFFINITY_INFO_SMC64 :: u32 where "PSCI_AFFINITY_INFO_SMC64 = 0xc4000004"
definition PSCI_FEATURES :: u32 where "PSCI_FEATURES = 0x8400000A"
definition PSCI_VERSION_0_2 :: int where "PSCI_VERSION_0_2 = 2"
definition PSCI_E_SUCCESS :: int where "PSCI_E_SUCCESS = 0"
definition PSCI_E_NOT_SUPPORTED :: int where "PSCI_E_NOT_SUPPORTED = -1"

definition SMC_FID_MASK :: u64 where "SMC_FID_MASK = 0xff000000"

definition is_smc32_stdsrvc_fid :: "u64 \<Rightarrow> bool" where
  "is_smc32_stdsrvc_fid fid \<longleftrightarrow> fid AND SMC_FID_MASK = 0x84000000"

definition is_smc64_stdsrvc_fid :: "u64 \<Rightarrow> bool" where
  "is_smc64_stdsrvc_fid fid \<longleftrightarrow> fid AND SMC_FID_MASK = 0xc4000000"

definition is_smc_stdsrvc_fid :: "u64 \<Rightarrow> bool" where
  "is_smc_stdsrvc_fid fid \<longleftrightarrow> is_smc64_stdsrvc_fid fid \<or> is_smc32_stdsrvc_fid fid"

definition is_psci_fid :: "u64 \<Rightarrow> bool" where
  "is_psci_fid fid \<longleftrightarrow> is_smc_stdsrvc_fid fid \<and> fid AND 0xffe0 = 0"

definition psci_call :: "u32 \<Rightarrow> u64 \<Rightarrow> u64 \<Rightarrow> u64 \<Rightarrow> ('a machine_scheme, u64) comp" where
  "psci_call func cpu entry ctxid = dev_read (Smc func cpu entry ctxid)"

definition psci_cpu_on :: "nat \<Rightarrow> u64 \<Rightarrow> u64 \<Rightarrow> u64 \<Rightarrow> int hcomp" where
  "psci_cpu_on vc x1 x2 x3 =
     mbind (vm_of vc) (\<lambda>v. mbind (vm_at v) (\<lambda>vm.
     mbind (mnth (vm_vcpus vm) (unat x1)) (\<lambda>target.
     mbind (mthe target) (\<lambda>t.
     mthen (upd_vcpu t (vreg_update (elr_el2_update (\<lambda>_. x2))))
     (mthen (vcpu_ready target)
     (mbind (mget (\<lambda>s. start_addr (img s))) (\<lambda>start.
      mbind (psci_call PSCI_CPU_ON_SMC64 x1 start 0) (\<lambda>r. mret (sint r)))))))))"

definition psci_features_handler :: "u32 \<Rightarrow> int" where
  "psci_features_handler fid =
     (if fid \<in> {PSCI_VERSION, PSCI_CPU_OFF, PSCI_CPU_SUSPEND_SMC32, PSCI_CPU_SUSPEND_SMC64,
        PSCI_CPU_ON_SMC32, PSCI_CPU_ON_SMC64, PSCI_AFFINITY_INFO_SMC32, PSCI_AFFINITY_INFO_SMC64, PSCI_FEATURES}
      then PSCI_E_SUCCESS else PSCI_E_NOT_SUPPORTED)"

definition psci_handler :: "nat \<Rightarrow> u32 \<Rightarrow> u64 \<Rightarrow> u64 \<Rightarrow> u64 \<Rightarrow> int hcomp" where
  "psci_handler vc fid x1 x2 x3 =
     (if fid = PSCI_VERSION then mret PSCI_VERSION_0_2
      else if fid = PSCI_CPU_ON_SMC64 then psci_cpu_on vc x1 x2 x3
      else if fid = PSCI_FEATURES then mret (psci_features_handler (ucast x1))
      else mfail (Panic ''Unsupported smc_fid''))"

end
