(* ===== verification/Timer.thy ===== *)
theory Timer
  imports Gic
begin

text \<open>
  Time: \<open>src/timer.c\<close> and the register helpers of \<open>src/sysreg.c\<close>. \<open>do_muldiv64\<close> computes
  \<open>a * b / c\<close> with 64-bit arithmetic only.
\<close>

section \<open>Conversions\<close>

definition CNTFRQ_MASK :: u64 where "CNTFRQ_MASK = 0xffffffff"
definition NS_PER_SECOND :: u32 where "NS_PER_SECOND = 1000000000"
definition PHYSICAL_TIMER_IRQ :: u32 where "PHYSICAL_TIMER_IRQ = 30"
definition CNTV_CTL_ENABLE :: u64 where "CNTV_CTL_ENABLE = 1"
definition CNTV_CTL_IMASK :: u64 where "CNTV_CTL_IMASK = 2"

definition do_muldiv64 :: "u64 \<Rightarrow> u32 \<Rightarrow> u32 \<Rightarrow> u64" where
  "do_muldiv64 a b c =
     (let low = ucast a :: u32; high = ucast (drop_bit 32 a) :: u32;
          rl = zext64 low * zext64 b;
          rh = zext64 high * zext64 b + drop_bit 32 rl;
          res_high = ucast (rh div zext64 c) :: u32;
          rh = push_bit 32 (rh mod zext64 c);
          rl = rl AND 0xffffffff;
          res_low = ucast ((rh + rl) div zext64 c) :: u32
      in push_bit 32 (zext64 res_high) OR zext64 res_low)"

definition muldiv64 :: "u64 \<Rightarrow> u32 \<Rightarrow> u32 \<Rightarrow> u64" where
  "muldiv64 a b c = (if c \<noteq> 0 then do_muldiv64 a b c else 0)"

definition nstime_to_count :: "u64 \<Rightarrow> u64 hcomp" where
  "nstime_to_count nstime = mbind (mget g_freq) (\<lambda>f. mret (muldiv64 nstime (ucast f) NS_PER_SECOND))"

definition count_to_time_ns :: "u64 \<Rightarrow> u64 hcomp" where
  "count_to_time_ns count = mbind (mget g_freq) (\<lambda>f. mret (muldiv64 count NS_PER_SECOND (ucast f)))"

section \<open>The physical timer\<close>

definition enable_timer :: "('a machine_scheme, unit) comp" where
  "enable_timer = mbind (read_sysreg ''cntp_ctl_el0'') (\<lambda>c.
     write_sysreg ''cntp_ctl_el0'' ((c OR CNTV_CTL_ENABLE) AND NOT CNTV_CTL_IMASK))"

definition disable_timer :: "('a machine_scheme, unit) comp" where
  "disable_timer = mbind (read_sysreg ''cntp_ctl_el0'') (\<lambda>c.
     write_sysreg ''cntp_ctl_el0'' ((c AND NOT CNTV_CTL_ENABLE) OR CNTV_CTL_IMASK))"

definition reload_timer :: "unit hcomp" where
  "reload_timer = mbind (mget g_freq) (\<lambda>f. write_sysreg ''cntp_tval_el0'' (f div 10000))"

definition setup_timer :: "unit hcomp" where
  "setup_timer =
     mthen (gic_irq_enable PHYSICAL_TIMER_IRQ)
     (mbind (read_sysreg ''cntfrq_el0'') (\<lambda>f.
      mthen (mmod (g_freq_update (\<lambda>_. f)))
     (mthen disable_timer (mthen reload_timer enable_timer))))"

definition freq_init :: "unit hcomp" where
  "freq_init = mbind (read_sysreg ''cntfrq_el0'') (\<lambda>f.
     mthen (mmod (g_freq_update (\<lambda>_. f))) (mmod (g_freq_update (\<lambda>f. f AND CNTFRQ_MASK))))"

section \<open>Register helpers (\<open>src/sysreg.c\<close>)\<close>

definition get_syscount :: "('a machine_scheme, u64) comp" where
  "get_syscount = mbind (read_sysreg ''cntpct_el0'') (\<lambda>c. mthen isb (mret c))"

definition daif_info :: "('a machine_scheme, unit) comp" where
  "daif_info = mthen (read_sysreg ''DAIF'') (mret ())"

definition record_system_registers :: "('a machine_scheme, unit) comp" where
  "record_system_registers = mthen (read_sysreg ''CurrentEL'') (mthen (read_sysreg ''vbar_el2'') (mret ()))"

text \<open>The dump reads the registers and the fields it prints; its text is not modelled.\<close>

definition vm_reg_dump :: "unit hcomp" where
  "vm_reg_dump =
     mbind cur_vcpu (\<lambda>vc.
     mthen (mfor [''sp_el0'', ''sp_el1'', ''elr_el1'', ''par_el1'', ''sctlr_el1'', ''far_el1'', ''far_el2'',
              ''esr_el1'', ''esr_el2'', ''hpfar_el2''] (\<lambda>r. mthen (read_sysreg r) (mret ())))
     (mbind (vm_of vc) (\<lambda>v. mthen (vm_at v)
     (mbind (vcpu_at vc) (\<lambda>c. mthen (massert (31 \<le> length (gpr (vreg c))) Out_Of_Bounds) (mret ()))))))"

section \<open>Exactness of \<open>do_muldiv64\<close>\<close>

text \<open>The long division in base $2^{32}$.\<close>

lemma long_division:
  assumes "0 < (c :: nat)"
  shows "(h * 2 ^ 32 + l) div c = h div c * 2 ^ 32 + (h mod c * 2 ^ 32 + l) div c"
proof -
  have "h * 2 ^ 32 + l = c * (h div c * 2 ^ 32) + (h mod c * 2 ^ 32 + l)"
    using mult_div_mod_eq [of c h] by (metis add.assoc distrib_right mult.assoc)
  then show ?thesis using assms by (metis add.assoc div_mult_self3 less_not_refl2 mult.commute)
qed

lemma low_quotient_less:
  assumes "0 < (c :: nat)" and "l < 2 ^ 32"
  shows "(h mod c * 2 ^ 32 + l) div c < 2 ^ 32"
proof -
  have "h mod c * 2 ^ 32 + l < (h mod c + 1) * 2 ^ 32" using assms(2) by simp
  also have "\<dots> \<le> c * 2 ^ 32" using assms(1) by (intro mult_le_mono1) (simp add: Suc_leI)
  finally show ?thesis using assms(1) by (simp add: div_less_iff_less_mult mult.commute)
qed

lemma mul32_less: "a < 2 ^ 32 \<Longrightarrow> b < 2 ^ 32 \<Longrightarrow> r < 2 ^ 32 \<Longrightarrow> a * b + r < (2 :: nat) ^ 64"
proof -
  assume "a < 2 ^ 32" "b < 2 ^ 32" "r < 2 ^ 32"
  then have "a * b \<le> (2 ^ 32 - 1) * (2 ^ 32 - 1)" by (intro mult_le_mono) simp_all
  with \<open>r < 2 ^ 32\<close> show ?thesis by simp
qed

lemma unat_join: "unat (push_bit 32 (zext64 h) OR zext64 l) = unat h * 2 ^ 32 + unat l"
proof -
  have "push_bit 32 (zext64 h) AND zext64 l = 0"
    by (rule bit_word_eqI) (auto simp: bit_simps dest: bit_imp_le_length)
  then have "push_bit 32 (zext64 h) OR zext64 l = push_bit 32 (zext64 h) + zext64 l"
    by (simp add: disjunctive_add_eq_or)
  moreover have "unat (push_bit 32 (zext64 h)) = unat h * 2 ^ 32"
    using unsigned_less [of h, where 'a = nat]
    by (simp add: push_bit_eq_mult unat_word_ariths unat_ucast_up)
  moreover have "unat h * 2 ^ 32 + unat l < 2 ^ 64"
    using unsigned_less [of h, where 'a = nat] unsigned_less [of l, where 'a = nat] by simp
  ultimately show ?thesis by (simp add: unat_word_ariths unat_ucast_up)
qed

lemma unat_quotient: "unat (ucast (w div zext64 c) :: u32) = unat w div unat c mod 2 ^ 32"
  by (subst unat_ucast_mod) (simp add: unat_div_distrib unat_ucast_up)

lemma join_mod: "l < 2 ^ 32 \<Longrightarrow> h mod 2 ^ 32 * 2 ^ 32 + l = (h * 2 ^ 32 + l) mod (2 :: nat) ^ 64"
proof -
  assume l: "l < 2 ^ 32"
  have "(h * 2 ^ 32 + l) mod (2 ^ 32 * 2 ^ 32) = 2 ^ 32 * ((h * 2 ^ 32 + l) div 2 ^ 32 mod 2 ^ 32) + (h * 2 ^ 32 + l) mod 2 ^ 32"
    by (rule mod_mult2_eq)
  with l show ?thesis by simp
qed

text \<open>
  C33. For a non-zero divisor \<open>do_muldiv64\<close> returns the quotient of the exact 96-bit product,
  reduced modulo $2^{64}$; no intermediate result overflows, so the only loss is that of the
  final result.
\<close>

theorem do_muldiv64_exact:
  assumes "c \<noteq> 0"
  shows "unat (do_muldiv64 a b c) = unat a * unat b div unat c mod 2 ^ 64"
proof -
  define L H :: u32 where "L = ucast a" and "H = ucast (drop_bit 32 a)"
  define RL RH where "RL = zext64 L * zext64 b" and "RH = zext64 H * zext64 b + drop_bit 32 RL"
  define rl rh where "rl = unat L * unat b" and "rh = unat H * unat b + rl div 2 ^ 32"
  let ?c = "unat c" and ?l = "rl mod 2 ^ 32"
  have c: "0 < ?c" "?c < 2 ^ 32"
    using assms unsigned_less [of c, where 'a = nat] by (simp_all add: unat_gt_0)
  have a: "unat a = unat H * 2 ^ 32 + unat L"
    using unsigned_less [of a, where 'a = nat]
    by (simp add: H_def L_def unat_ucast_mod drop_bit_eq_div unat_div_distrib)
  have w: "unat H < 2 ^ 32" "unat L < 2 ^ 32" "unat b < 2 ^ 32"
    using unsigned_less [of H, where 'a = nat] unsigned_less [of L, where 'a = nat]
      unsigned_less [of b, where 'a = nat] by simp_all
  have rl: "rl < 2 ^ 64" using mul32_less [OF w(2,3), of 0] by (simp add: rl_def)
  have rh: "rh < 2 ^ 64" using mul32_less [OF w(1,3), of "rl div 2 ^ 32"] rl by (simp add: rh_def)
  have RL: "unat RL = rl" using rl by (simp add: RL_def unat_word_ariths unat_ucast_up rl_def)
  have RH: "unat RH = rh"
    using rh by (simp add: RH_def unat_word_ariths unat_ucast_up drop_bit_eq_div unat_div_distrib RL rh_def)
  have l: "unat (RL AND 0xffffffff) = ?l"
    unfolding masks by (simp only: take_bit_eq_mask [symmetric] unsigned_take_bit_eq RL) (simp add: take_bit_eq_mod)
  have "unat a * unat b = rh * 2 ^ 32 + ?l"
    unfolding a rh_def by (simp add: rl_def distrib_right add_mult_distrib)
  then have q: "unat a * unat b div ?c = rh div ?c * 2 ^ 32 + (rh mod ?c * 2 ^ 32 + ?l) div ?c"
    by (simp only:) (rule long_division [OF c(1)])
  have lo: "(rh mod ?c * 2 ^ 32 + ?l) div ?c < 2 ^ 32" by (rule low_quotient_less [OF c(1)]) simp
  have "rh mod ?c < 2 ^ 32" using mod_less_divisor [OF c(1), of rh] c(2) by simp
  then have "rh mod ?c * 2 ^ 32 + ?l < 2 ^ 64" by simp
  then have "unat (push_bit 32 (RH mod zext64 c) + (RL AND 0xffffffff)) = rh mod ?c * 2 ^ 32 + ?l"
    by (simp add: unat_word_ariths push_bit_eq_mult unat_mod_distrib unat_ucast_up RH l)
  then have R: "unat (ucast ((push_bit 32 (RH mod zext64 c) + (RL AND 0xffffffff)) div zext64 c) :: u32) =
      (rh mod ?c * 2 ^ 32 + ?l) div ?c"
    using lo by (simp add: unat_quotient)
  have "unat (ucast (RH div zext64 c) :: u32) = rh div ?c mod 2 ^ 32"
    by (simp add: unat_quotient RH)
  moreover have "do_muldiv64 a b c = push_bit 32 (zext64 (ucast (RH div zext64 c))) OR
      zext64 (ucast ((push_bit 32 (RH mod zext64 c) + (RL AND 0xffffffff)) div zext64 c))"
    by (simp only: do_muldiv64_def Let_def RH_def RL_def H_def L_def)
  ultimately have "unat (do_muldiv64 a b c) = rh div ?c mod 2 ^ 32 * 2 ^ 32 + (rh mod ?c * 2 ^ 32 + ?l) div ?c"
    using R by (simp only: unat_join)
  also have "\<dots> = unat a * unat b div ?c mod 2 ^ 64"
    unfolding q by (rule join_mod [OF lo])
  finally show ?thesis .
qed

theorem do_muldiv64_exact_witness: "unat (do_muldiv64 1000 1000000000 62500000) = 16000"
  using do_muldiv64_exact [of 62500000 1000 1000000000] by simp

end
