(* ===== verification/Trap.thy ===== *)
theory Trap
  imports Psci Virtio Timer Uart
begin

text \<open>
  Exceptions, \<open>src/trap.c\<close>: the handlers of the hypervisor's own interrupts and of the traps of a
  guest, and the entry points of \<open>src/vector.S\<close> that surround them. Here the function pointers of
  the emulated memory regions get their targets.
\<close>

section \<open>Emulated memory\<close>

definition call_read :: "mmio_handler \<Rightarrow> read_handler" where
  "call_read h = (case h of Virtio_mmio \<Rightarrow> virtio_mmio_read | Vgicd_mmio \<Rightarrow> vgicd_mmio_read
     | Vgicr_mmio \<Rightarrow> vgicr_mmio_read)"

definition call_write :: "mmio_handler \<Rightarrow> write_handler" where
  "call_write h = (case h of Virtio_mmio \<Rightarrow> virtio_mmio_write | Vgicd_mmio \<Rightarrow> vgicd_mmio_write
     | Vgicr_mmio \<Rightarrow> vgicr_mmio_write)"

section \<open>Constants (\<open>include/aarch64.h\<close>, \<open>include/smcc.h\<close>)\<close>

text \<open>\<open>ESR_EC_MASK\<close> is an \<open>int\<close> constant with its top bit set; as a 64-bit mask it is sign-extended.\<close>

definition ESR_EC_MASK :: u64 where "ESR_EC_MASK = sext64 (push_bit 26 0x3f)"
definition ESR_ISS_MASK :: u64 where "ESR_ISS_MASK = 0x1ffffff"
definition DA_ISS_SAS_MASK :: u64 where "DA_ISS_SAS_MASK = push_bit 22 3"
definition DA_ISS_SRT_MASK :: u64 where "DA_ISS_SRT_MASK = push_bit 16 0x1f"
definition DA_ISS_FnV_MASK :: u64 where "DA_ISS_FnV_MASK = push_bit 10 1"
definition DA_ISS_WnR_MASK :: u64 where "DA_ISS_WnR_MASK = push_bit 6 1"
definition HPFAR_FIPA_MASK :: u64 where "HPFAR_FIPA_MASK = 0xffffffffff0"
definition ESR_EC_WFx :: u64 where "ESR_EC_WFx = 0x1"
definition ESR_EC_HVC64 :: u64 where "ESR_EC_HVC64 = 0x16"
definition ESR_EC_DALEL :: u64 where "ESR_EC_DALEL = 0x24"
definition SMCC_FID_FN_NUM_MSK :: u32 where "SMCC_FID_FN_NUM_MSK = 0xFFFF"
definition SMCC64_FID_STD_SRVC :: u64 where "SMCC64_FID_STD_SRVC = 0xc4000000"
definition WFI_POLL_TIMEOUT_NS :: u64 where "WFI_POLL_TIMEOUT_NS = 10000"
definition UART_IRQ :: u64 where "UART_IRQ = 33"

section \<open>Exceptions of the hypervisor itself\<close>

definition el2_sync_handler :: "unit hcomp" where
  "el2_sync_handler =
     mthen (mfor [''far_el2'', ''elr_el2'', ''esr_el2'', ''spsr_el2''] (\<lambda>r. mthen (read_sysreg r) (mret ())))
     (mfail Diverge)"

definition el2_irq_handler :: "unit hcomp" where
  "el2_irq_handler =
     mthen (mfor [''far_el2'', ''elr_el2'', ''esr_el2'', ''spsr_el2''] (\<lambda>r. mthen (read_sysreg r) (mret ())))
     (mbind (read_sysreg ''icc_iar1_el1'') (\<lambda>irq.
      mthen (if irq = UART_IRQ then
               mthen uart_get_interrupt_status
               (mthen clear_uart_interrupt (mthen uart_get_interrupt_status (mret ())))
             else if irq = ucast PHYSICAL_TIMER_IRQ then
               mthen disable_timer (mthen reload_timer enable_timer)
             else mret ())
      (write_sysreg ''icc_eoir1_el1'' irq)))"

section \<open>Synchronous traps of a guest\<close>

definition sas_of :: "u32 \<Rightarrow> syndrome_access_size" where
  "sas_of n = (if n = 0 then SAS_BYTE else if n = 1 then SAS_HALFWORD else if n = 2 then SAS_WORD else SAS_DOUBLEWORD)"

definition advance_pc :: "nat \<Rightarrow> unit hcomp" where
  "advance_pc vc = upd_vcpu vc (vreg_update (elr_el2_update (\<lambda>pc. pc + 4)))"

definition fault_ipa :: "u64 \<Rightarrow> u64 \<Rightarrow> u64" where
  "fault_ipa hpfar far = push_bit 8 (hpfar AND HPFAR_FIPA_MASK) OR (far AND (PAGE_SIZE - 1))"

definition data_abort_handler :: "nat \<Rightarrow> u64 \<Rightarrow> int hcomp" where
  "data_abort_handler vc esr =
     (let iss = esr AND ESR_ISS_MASK in
      mbind (read_sysreg ''far_el2'') (\<lambda>far.
      mbind (read_sysreg ''hpfar_el2'') (\<lambda>hpfar.
      mbind (read_sysreg ''elr_el2'') (\<lambda>elr.
      let iss_srt = ucast (drop_bit 16 (iss AND DA_ISS_SRT_MASK)) :: u32;
          iss_fnv = ucast (drop_bit 10 (iss AND DA_ISS_FnV_MASK)) :: u32;
          iss_sas = ucast (drop_bit 22 (iss AND DA_ISS_SAS_MASK)) :: u32;
          iss_wnr = ucast (drop_bit 6 (iss AND DA_ISS_WnR_MASK)) :: u32 in
      if iss_fnv \<noteq> 0 then mret (-1)
      else
        mbind (mmio_emulate call_read call_write vc (unat iss_srt)
                 \<lparr>acc_ipa = fault_ipa hpfar far, acc_pc = elr, iss_sas = sas_of iss_sas, iss_wnr = iss_wnr\<rparr>) (\<lambda>ret.
        if ret < 0 then mret (-1) else mthen (advance_pc vc) (mret 0))))))"

text \<open>
  The loop polls the list registers until one is pending or the time is over; it is bounded by
  \<open>poll_bound\<close>.
\<close>

definition now_ns :: "u64 hcomp" where
  "now_ns = mbind get_syscount count_to_time_ns"

primrec wfx_poll :: "nat \<Rightarrow> u64 \<Rightarrow> unit hcomp" where
  "wfx_poll 0 end_time = mfail Diverge"
| "wfx_poll (Suc n) end_time = mbind gic_has_pending_lr (\<lambda>pending.
     if pending then mret ()
     else mbind now_ns (\<lambda>cur_time. if cur_time < end_time then wfx_poll n end_time else mret ()))"

definition wfx_emulate_handler :: "nat \<Rightarrow> u64 \<Rightarrow> int hcomp" where
  "wfx_emulate_handler vc esr =
     mbind now_ns (\<lambda>t. mbind (mget poll_bound) (\<lambda>n.
     mthen (wfx_poll n (t + WFI_POLL_TIMEOUT_NS)) (mthen (advance_pc vc) (mret 0))))"

definition standard_service_call :: "nat \<Rightarrow> int hcomp" where
  "standard_service_call vc =
     mbind (vcpu_at vc) (\<lambda>c.
     mbind (mnth (gpr (vreg c)) 0) (\<lambda>smc_fid. mbind (mnth (gpr (vreg c)) 1) (\<lambda>x1.
     mbind (mnth (gpr (vreg c)) 2) (\<lambda>x2. mbind (mnth (gpr (vreg c)) 3) (\<lambda>x3.
     if is_psci_fid smc_fid then psci_handler vc (ucast smc_fid) x1 x2 x3
     else mfail (Panic ''Unknown smc fid''))))))"

text \<open>The result is a \<open>long\<close> in x0 and truncated to the \<open>int\<close> that is returned.\<close>

definition syscall_handler :: "nat \<Rightarrow> int hcomp" where
  "syscall_handler vc =
     mbind (vcpu_at vc) (\<lambda>c. mbind (mnth (gpr (vreg c)) 0) (\<lambda>fid.
     if fid AND zext64 (NOT SMCC_FID_FN_NUM_MSK) = SMCC64_FID_STD_SRVC then
       mbind (standard_service_call vc) (\<lambda>ret.
       mthen (upd_vcpu vc (vreg_update (gpr_update (\<lambda>x. x[0 := of_int ret]))))
       (mret (sint (of_int ret :: i32))))
     else mfail (Panic ''Unknown/Unsupported system monitor call fid'')))"

definition hvc_handler :: "nat \<Rightarrow> u64 \<Rightarrow> int hcomp" where
  "hvc_handler vc esr = syscall_handler vc"

definition smc_handler :: "nat \<Rightarrow> u64 \<Rightarrow> int hcomp" where
  "smc_handler vc esr = mbind (syscall_handler vc) (\<lambda>ret. mthen (advance_pc vc) (mret ret))"

definition get_sync_trap_handler :: "u64 \<Rightarrow> (nat \<Rightarrow> u64 \<Rightarrow> int hcomp) option" where
  "get_sync_trap_handler esr =
     (let ec = drop_bit 26 (esr AND ESR_EC_MASK) in
      if ec = ESR_EC_WFx then Some wfx_emulate_handler
      else if ec = ESR_EC_HVC64 then Some hvc_handler
      else if ec = ESR_EC_DALEL then Some data_abort_handler
      else None)"

definition lower_el_sync_handler :: "unit hcomp" where
  "lower_el_sync_handler =
     mbind cur_vcpu (\<lambda>vc.
     mbind (read_sysreg ''esr_el2'') (\<lambda>esr.
     case get_sync_trap_handler esr of
       Some handler \<Rightarrow>
         mbind (handler vc esr) (\<lambda>ret.
         if ret \<noteq> 0 then mthen vm_reg_dump (mfail (Panic ''[lower_el_sync_handler]: sync trap handler failed''))
         else mret ())
     | None \<Rightarrow> mthen vm_reg_dump (mfail (Panic ''ERROR: invalid/unsupported exception class''))))"

section \<open>Interrupts while a guest runs\<close>

definition lower_el_irq_handler :: "unit hcomp" where
  "lower_el_irq_handler =
     mbind cur_vcpu (\<lambda>vc.
     mthen (read_sysreg ''mpidr_el1'')
     (mthen (gicr_rd 0 GICR_ICPENDR0)
     (mthen (gicd_rd (GICD_ICPENDR (UART_IRQ div 32)))
     (mthen (vgic_used_lr_update vc)
     (mbind gic_read_iar (\<lambda>iar.
      let pirq = iar AND 0xffffff; virq = pirq in
      mthen (gic_guest_eoi pirq 1)
     (mthen (vgic_inject_virq vc pirq virq 1) isb)))))))"

section \<open>Entry points (\<open>src/vector.S\<close>)\<close>

text \<open>The argument is what the called C function leaves in the general registers and in its stack frames.\<close>

definition el2_irq :: "cframe \<Rightarrow> unit hcomp" where
  "el2_irq f = mthen hyp_context_save
     (mthen (c_call f el2_irq_handler) (mthen hyp_context_restore (emit (Instr ''eret''))))"

definition el2_sync :: "cframe \<Rightarrow> unit hcomp" where
  "el2_sync f = mthen hyp_context_save
     (mthen (c_call f el2_sync_handler) (mthen hyp_context_restore (emit (Instr ''eret''))))"

definition sync_exception_from_lower_el :: "cframe \<Rightarrow> unit hcomp" where
  "sync_exception_from_lower_el f = mthen vm_context_save (mthen (c_call f lower_el_sync_handler) eret_vm)"

definition irq_exception_from_lower_el :: "cframe \<Rightarrow> unit hcomp" where
  "irq_exception_from_lower_el f = mthen vm_context_save (mthen (c_call f lower_el_irq_handler) eret_vm)"

end
