(* ===== verification/Calltrace.thy ===== *)
theory Calltrace
  imports Vcpu Timer
begin

text \<open>
  Stacks and stack traces: \<open>src/sp_init.c\<close>, which gives every physical processor its EL2 stack, and
  \<open>src/calltrace.c\<close>, which follows the frame pointers of the hypervisor and of a guest. The trace
  functions return the pairs of return address and frame pointer that they print.
\<close>

section \<open>Stacks (\<open>src/sp_init.c\<close>)\<close>

definition SP_MAGIC :: u64 where "SP_MAGIC = 0xDEADBEEFDEAD0000"

definition set_stack :: "nat \<Rightarrow> u64 \<Rightarrow> u64 \<Rightarrow> unit hcomp" where
  "set_stack c tp bt = mbind (mget g_sp_top) (\<lambda>ts. mbind (mget g_sp_bottom) (\<lambda>bs.
     mthen (massert (c < length ts \<and> c < length bs) Out_Of_Bounds)
     (mmod (\<lambda>s. s\<lparr>g_sp_top := ts[c := tp], g_sp_bottom := bs[c := bt]\<rparr>))))"

definition primary_stack_init :: "unit hcomp" where
  "primary_stack_init =
     mbind (mget img) (\<lambda>i.
     mthen (set_stack 0 (primary_stack_start i) (primary_stack_end i))
     (st64 (primary_stack_start i) (SP_MAGIC OR 0)))"

definition secondary_stacks_init :: "unit hcomp" where
  "secondary_stacks_init = mfor [1..<PCPU_NUM] (\<lambda>c.
     mbind alloc_page (\<lambda>p.
     if p = 0 then mfail (Panic ''[secondary_stacks_init]: no enough memory'')
     else mthen (set_stack c p (p + PAGE_SIZE))
       (mthen (st64 p (SP_MAGIC OR of_nat c)) (mthen (ld64 p) (mret ())))))"

definition sp_canary_check :: "bool hcomp" where
  "sp_canary_check = mthen (mfor [0..<PCPU_NUM] (\<lambda>c.
     mbind (mget g_sp_top) (\<lambda>ts. mbind (mnth ts c) (\<lambda>tp. mbind (ld64 tp) (\<lambda>w.
     if w \<noteq> SP_MAGIC OR of_nat c then mfail (Panic ''[sp_canary_check]: el2 stack is collapsed'')
     else mret ()))))) (mret True)"

section \<open>Call traces (\<open>src/calltrace.c\<close>)\<close>

definition RAM_SIZE :: u64 where "RAM_SIZE = 0x10000000"

definition is_pa_valid :: "u64 \<Rightarrow> bool hcomp" where
  "is_pa_valid pa = mbind (mget img) (\<lambda>i. mret (pa \<ge> txt_start i \<and> pa < ram_start i + RAM_SIZE))"

primrec hyper_frames :: "nat \<Rightarrow> u64 \<Rightarrow> u64 \<Rightarrow> u64 \<Rightarrow> (u64 \<times> u64) list hcomp" where
  "hyper_frames 0 tp bt fp = mfail Diverge"
| "hyper_frames (Suc n) tp bt fp =
     mbind (ld64 (fp + 8)) (\<lambda>lr. mbind (ld64 fp) (\<lambda>fp'.
     if fp' > bt \<or> fp' < tp then mret [(lr - 4, fp)]
     else mbind (hyper_frames n tp bt fp') (\<lambda>rest. mret ((lr - 4, fp) # rest))))"

definition dump_hyper_calltrace :: "u64 \<Rightarrow> u64 \<Rightarrow> (u64 \<times> u64) list hcomp" where
  "dump_hyper_calltrace fp lr =
     mbind cpuid (\<lambda>c. mbind (mget g_sp_bottom) (\<lambda>bs. mbind (mnth bs c) (\<lambda>bt.
     mbind (mget g_sp_top) (\<lambda>ts. mbind (mnth ts c) (\<lambda>tp.
     if tp = 0 \<or> bt = 0 then mfail (Panic ''[dump_hyper_calltrace]: invalid stack'')
     else mbind (mget poll_bound) (\<lambda>n. hyper_frames n tp bt fp))))))"

definition SPSR_EL2_MODE_EL1 :: u64 where "SPSR_EL2_MODE_EL1 = 4"
definition SCTLR_EL1_M :: u64 where "SCTLR_EL1_M = 1"

definition guest_pa :: "nat \<Rightarrow> bool \<Rightarrow> bool \<Rightarrow> u64 \<Rightarrow> u64 hcomp" where
  "guest_pa vc mmu is_el0 a =
     (if mmu then vm_va_to_pa a is_el0
      else mbind (vm_of vc) (\<lambda>v. mbind (vm_at v) (\<lambda>vm. ipa2pa (stage2_pt vm) a)))"

primrec vm_frames :: "nat \<Rightarrow> nat \<Rightarrow> bool \<Rightarrow> bool \<Rightarrow> u64 \<Rightarrow> (u64 \<times> u64) list hcomp" where
  "vm_frames 0 vc mmu is_el0 fp = mret []"
| "vm_frames (Suc n) vc mmu is_el0 fp =
     mbind (guest_pa vc mmu is_el0 (fp + 8)) (\<lambda>pa. mbind (is_pa_valid pa) (\<lambda>ok.
     if \<not> ok then mret []
     else mbind (ld64 pa) (\<lambda>lr.
       mbind (guest_pa vc mmu is_el0 fp) (\<lambda>pa. mbind (is_pa_valid pa) (\<lambda>ok.
       if \<not> ok then mret [(lr - 4, fp)]
       else mbind (ld64 pa) (\<lambda>fp'. mbind (vm_frames n vc mmu is_el0 fp') (\<lambda>rest. mret ((lr - 4, fp) # rest))))))))"

definition dump_vm_calltrace :: "(u64 \<times> u64) list hcomp" where
  "dump_vm_calltrace =
     mbind cur_vcpu (\<lambda>vc. mbind (vcpu_at vc) (\<lambda>c.
     if vstate c \<noteq> RUNNING then mret []
     else
       let trap_from_el1 = (spsr_el2 (vreg c) AND SPSR_EL2_MODE_EL1 \<noteq> 0); is_el0 = \<not> trap_from_el1 in
       mbind (read_sysreg ''sctlr_el1'') (\<lambda>sctlr.
       let mmu = (sctlr AND SCTLR_EL1_M \<noteq> 0) in
       mthen (if mmu then mthen (read_sysreg ''ttbr0_el1'') (mthen (read_sysreg ''ttbr1_el1'') (mret ())) else mret ())
       (mbind (mnth (gpr (vreg c)) 29) (\<lambda>fp. mthen (mnth (gpr (vreg c)) 30)
       (mbind (vm_of vc) (\<lambda>v. mthen (vm_at v) (mthen cpuid
        (vm_frames 5 vc mmu is_el0 fp)))))))))"

end
