(* ===== verification/Init.thy ===== *)
theory Init
  imports Vm Trap Calltrace
begin

text \<open>
  Start-up, \<open>src/boot.S\<close>, \<open>src/init.c\<close> and \<open>src/guest.c\<close>: the initialisation of the primary and
  of a secondary processor up to the entry into the guest.
\<close>

definition RAM_PAGE_NUM :: u64 where "RAM_PAGE_NUM = RAM_SIZE div 4096"
definition BITMAP_SIZE :: nat where "BITMAP_SIZE = unat ((RAM_PAGE_NUM + BIT_PER_LONG - 1) div BIT_PER_LONG)"

text \<open>The guest images and the configuration of the one guest.\<close>

definition guest_xv6 :: "image \<Rightarrow> guest list" where
  "guest_xv6 i = [\<lparr>guest_name = ''xv6'', guest_start = xv6_start i, guest_size = xv6_size i, guest_end = xv6_end i\<rparr>,
     \<lparr>guest_name = [], guest_start = 0, guest_size = 0, guest_end = 0\<rparr>,
     \<lparr>guest_name = [], guest_start = 0, guest_size = 0, guest_end = 0\<rparr>]"

definition GUEST_IMAGE :: nat where "GUEST_IMAGE = 0"

definition xv6_vmcfg :: "image \<Rightarrow> vmconfig" where
  "xv6_vmcfg i = \<lparr>guest_img = Some (guest_xv6 i ! GUEST_IMAGE), fdt_img = None, initrd_img = None,
     cfg_nvcpu = 4, ram_size = 128 * 1024 * 1024, entrypoint = 0x40000000\<rparr>"

definition enable_uart_irq_el2 :: "unit hcomp" where
  "enable_uart_irq_el2 = mthen (gic_set_target_by_affinity (ucast UART_IRQ) 0) (gic_irq_enable (ucast UART_IRQ))"

definition HCR_VM :: u32 where "HCR_VM = push_bit 0 1"
definition HCR_SWIO :: u32 where "HCR_SWIO = push_bit 1 1"
definition HCR_IMO :: u32 where "HCR_IMO = push_bit 4 1"
definition HCR_TWI :: u32 where "HCR_TWI = push_bit 13 1"
definition HCR_TWE :: u32 where "HCR_TWE = push_bit 14 1"
definition HCR_TSC :: u32 where "HCR_TSC = push_bit 19 1"
definition HCR_RW :: u32 where "HCR_RW = push_bit 31 1"

definition hcr_setup :: "('a machine_scheme, unit) comp" where
  "hcr_setup = mthen (write_sysreg ''hcr_el2''
     (sext64 (HCR_VM OR HCR_SWIO OR HCR_IMO OR HCR_RW OR HCR_TSC OR HCR_TWI OR HCR_TWE))) isb"

definition primary_cpuid_set :: "('a machine_scheme, unit) comp" where
  "primary_cpuid_set = write_sysreg ''tpidr_el2'' 0"

text \<open>
  The loop after \<open>enter_vcpu\<close> is debugging code that is only reached if \<open>enter_vcpu\<close> returned,
  which \<open>eret\<close> prevents; control is in the guest when \<open>vmm_init_primary\<close> ends here.
\<close>

definition vmm_init_primary :: "unit hcomp" where
  "vmm_init_primary =
     mthen primary_stack_init
     (mthen uart_init
     (mthen primary_cpuid_set
     (mbind (mget (\<lambda>s. ram_start (img s))) (\<lambda>ram.
      mthen (page_allocator_init (Some (replicate BITMAP_SIZE 0)) RAM_PAGE_NUM ram)
     (mthen record_system_registers
     (mthen secondary_stacks_init
     (mthen gicv3_init
     (mthen vgic_init
     (mthen vcpu_init
     (mthen freq_init
     (mthen enable_uart_irq_el2
     (mthen hcr_setup
     (mthen stage2_mmu_init
     (mthen ramdisk_init
     (mbind (mget (\<lambda>s. xv6_vmcfg (img s))) (\<lambda>cfg.
      mthen (create_vm (Some cfg)) enter_vcpu))))))))))))))))"

definition vmm_init_secondary :: "unit hcomp" where
  "vmm_init_secondary =
     mthen cpuid
     (mthen uart_init
     (mbind (mget (\<lambda>s. vector_table (img s))) (\<lambda>vt.
      mthen (write_sysreg ''vbar_el2'' vt)
     (mthen init_gicv3_percpu
     (mthen hcr_setup
     (mthen stage2_mmu_init enter_vcpu))))))"

text \<open>The first instructions of a processor.\<close>

definition start :: "unit hcomp" where
  "start =
     mbind (read_sysreg ''mpidr_el1'') (\<lambda>m.
     let x1 = m AND 0xff in
     mthen (write_sysreg ''tpidr_el2'' x1)
     (mthen (emit (Instr ''msr spsel, #1''))
     (mbind (mget g_sp_bottom) (\<lambda>bs. mbind (mnth bs (unat x1)) (\<lambda>sp.
      mthen (mmod (cpu_sp_update (\<lambda>_. sp)))
     (mbind (mget (\<lambda>s. vector_table (img s))) (\<lambda>vt.
      mthen (write_sysreg ''vbar_el2'' vt)
     (mthen isb
     (if x1 = 0 then vmm_init_primary else vmm_init_secondary)))))))))"

end
