(* ===== verification/Exceptions.thy ===== *)
theory Exceptions
  imports Trap
begin

text \<open>
  What the exception handlers of \<open>src/trap.c\<close> and the entry points of \<open>src/vector.S\<close> do together.
  The locale \<open>guest_exit\<close> is the contract between an entry point and the handler it calls; it is
  interpreted on the handler of interrupts and on the handler of synchronous traps for the traps of
  \<open>wfi\<close> and for loads from the emulated disk. Hypervisor calls and the interrupts of the hypervisor
  itself follow.
\<close>

section \<open>Delivery of interrupts\<close>

lemma wp_registers [wps]:
  "wp (read_sysreg r) Q s = Q (sysreg_at s (trace s) r) (s\<lparr>trace := Rd (Sysreg (pcpu s) r) # trace s\<rparr>)"
  "wp (write_sysreg r v) R s = R () (s\<lparr>trace := Wr (Sysreg (pcpu s) r) v # trace s\<rparr>)"
  "wp isb R s = R () (s\<lparr>trace := Instr ''isb'' # trace s\<rparr>)"
  by (simp_all add: wp_def run)

lemma cur_vcpu_run:
  assumes "on_vcpu s vc"
  shows "cur_vcpu s = Inr (vc, s\<lparr>trace := entry_trace s\<rparr>)"
  using assms vcpu_of_ptr_at [of vc s]
  by (simp add: cur_vcpu_def run on_vcpu_def entry_trace_def)

text \<open>
  A list register is held when it is marked as used and its interrupt is pending or active.
  \<open>delivered s c t\<close> says how the handler takes the interface \<open>c\<close> from state \<open>s\<close> to \<open>t\<close>: after
  some reads it acknowledges an interrupt and drops its priority. If there is a list register that
  is not held, one such register is written with the interrupt; otherwise none is written. The
  registers that are marked afterwards are those that were held and the one written.
\<close>

definition lr_held :: "hyp \<Rightarrow> nat \<Rightarrow> nat \<Rightarrow> bool" where
  "lr_held s c i \<longleftrightarrow> bit (lr_marks s c) i \<and> \<not> lr_is_inactive (lr_value s i)"

definition delivered :: "hyp \<Rightarrow> nat \<Rightarrow> hyp \<Rightarrow> bool" where
  "delivered s c t \<longleftrightarrow> (\<exists>rs m irq slot.
     set rs \<subseteq> range Rd \<and>
     irq = ucast (dev s (rs @ trace s) (Sysreg (pcpu s) ''icc_iar1_el1'')) AND 0xffffff \<and>
     t = put_used_lr c m (s\<lparr>trace := Instr ''isb'' #
       (case slot of None \<Rightarrow> [] | Some i \<Rightarrow> [Wr (Sysreg (pcpu s) (ich_lr i)) (gic_make_lr irq irq 1)]) @
       Wr (Sysreg (pcpu s) ''icc_eoir1_el1'') (ucast irq) #
       Rd (Sysreg (pcpu s) ''icc_iar1_el1'') # rs @ trace s\<rparr>) \<and>
     (case slot of None \<Rightarrow> \<forall>i < lr_max s. lr_held s c i | Some i \<Rightarrow> i < lr_max s \<and> \<not> lr_held s c i) \<and>
     (\<forall>j < lr_max s. bit m j \<longleftrightarrow> lr_held s c j \<or> slot = Some j))"

abbreviation acknowledge_inject :: "nat \<Rightarrow> unit hcomp" where
  "acknowledge_inject vc \<equiv> mbind gic_read_iar (\<lambda>iar.
     let pirq = iar AND 0xffffff; virq = pirq in
     mthen (gic_guest_eoi pirq 1) (mthen (vgic_inject_virq vc pirq virq 1) isb))"

lemma reads_before_update:
  assumes "on_vcpu s vc"
  shows "\<exists>rs. set rs \<subseteq> range Rd \<and> lower_el_irq_handler s =
    mthen (vgic_used_lr_update vc) (acknowledge_inject vc) (s\<lparr>trace := rs @ trace s\<rparr>)"
  unfolding lower_el_irq_handler_def
  by (rule exI [of _ "[Rd (Mmio32 (gicd_addr (ucast (GICD_ICPENDR (UART_IRQ div 32))))), Rd (Mmio32 (gicr_addr 0 (ucast GICR_ICPENDR0))),
      Rd (Sysreg (pcpu s) ''mpidr_el1''), Rd (Sysreg (pcpu s) ''tpidr_el2'')]"])
    (simp add: run cur_vcpu_run [OF assms] entry_trace_def)

lemma stable_reads:
  assumes "lrs_stable s" and "set rs \<subseteq> range Rd"
  shows "lrs_stable (s\<lparr>trace := rs @ trace s\<rparr>)" "lr_value (s\<lparr>trace := rs @ trace s\<rparr>) = lr_value s"
  using assms lr_value_reads [OF assms] by (auto simp: lrs_stable_def lr_value_def)

lemma lr_update_inv_reads:
  assumes "lr_update_inv (s\<lparr>trace := rs @ trace s\<rparr>) c k t" and rs: "set rs \<subseteq> range Rd"
  obtains m rs' where "t = put_used_lr c m (s\<lparr>trace := rs' @ trace s\<rparr>)" "set rs' \<subseteq> range Rd"
    "\<And>j. bit m j \<longleftrightarrow> bit (lr_marks s c) j \<and> \<not> (j < k \<and> lr_is_inactive (lr_value (s\<lparr>trace := rs @ trace s\<rparr>) j))"
proof -
  obtain m us where "t = put_used_lr c m (s\<lparr>trace := (us @ rs) @ trace s\<rparr>)" "set us \<subseteq> range Rd"
    "\<And>j. bit m j \<longleftrightarrow> bit (lr_marks s c) j \<and> \<not> (j < k \<and> lr_is_inactive (lr_value (s\<lparr>trace := rs @ trace s\<rparr>) j))"
    using assms(1) by (auto simp: lr_update_inv_def)
  with rs show thesis by (intro that [of m "us @ rs"]) simp_all
qed

lemma acknowledge_inject_delivers:
  assumes g: "has_vgic s vc c" and rs: "set rs \<subseteq> range Rd" and m: "\<forall>j < lr_max s. bit m j \<longleftrightarrow> lr_held s c j"
  shows "wp (acknowledge_inject vc) (\<lambda>_. delivered s c) (put_used_lr c m (s\<lparr>trace := rs @ trace s\<rparr>))"
proof -
  let ?irq = "ucast (dev s (rs @ trace s) (Sysreg (pcpu s) ''icc_iar1_el1'')) AND 0xffffff :: u32"
  let ?tr = "Wr (Sysreg (pcpu s) ''icc_eoir1_el1'') (ucast ?irq) # Rd (Sysreg (pcpu s) ''icc_iar1_el1'') # rs @ trace s"
  let ?t = "put_used_lr c m (s\<lparr>trace := ?tr\<rparr>)"
  have c: "c < length (g_vgic_cpu s)" "lr_max s \<le> 16" and gt: "has_vgic ?t vc c"
    using g by (simp_all add: has_vgic_def)
  have "wp (vgic_inject_virq vc ?irq ?irq 1) (\<lambda>_. wp isb (\<lambda>_. delivered s c)) ?t"
  proof (cases "free_lr (lr_max s) m")
    case None
    with m have "delivered s c (put_used_lr c m (s\<lparr>trace := Instr ''isb'' # ?tr\<rparr>))"
      unfolding delivered_def free_lr_None
      using rs by (intro exI [of _ rs] exI [of _ m] exI [of _ ?irq] exI [of _ None]) simp
    with None c show ?thesis
      by (simp add: wp_def vgic_inject_virq_run [OF gt] run)
  next
    case (Some i)
    with m have i: "i < lr_max s" "\<not> lr_held s c i"
      by (auto simp: free_lr_Some)
    with m c have "\<forall>j < lr_max s. bit (mark_lr i m) j \<longleftrightarrow> lr_held s c j \<or> i = j"
      by auto
    with rs i have "delivered s c (put_used_lr c (mark_lr i m) (s\<lparr>trace := Instr ''isb'' #
        [Wr (Sysreg (pcpu s) (ich_lr i)) (gic_make_lr ?irq ?irq 1)] @ ?tr\<rparr>))"
      unfolding delivered_def
      by (intro exI [of _ rs] exI [of _ "mark_lr i m"] exI [of _ ?irq] exI [of _ "Some i"]) simp
    with Some c show ?thesis
      by (simp add: wp_def vgic_inject_virq_run [OF gt] run)
  qed
  then show ?thesis
    by (simp add: wps gic_read_iar_def gic_guest_eoi_def gic_eoi_def Let_def)
qed

lemma lower_el_irq_handler_run:
  assumes v: "on_vcpu s vc" and g: "has_vgic s vc c" and st: "lrs_stable s"
  shows "wp lower_el_irq_handler (\<lambda>_. delivered s c) s"
proof -
  obtain rs where rs: "set rs \<subseteq> range Rd" and h: "lower_el_irq_handler s =
    mthen (vgic_used_lr_update vc) (acknowledge_inject vc) (s\<lparr>trace := rs @ trace s\<rparr>)"
    using reads_before_update [OF v] by blast
  let ?s = "s\<lparr>trace := rs @ trace s\<rparr>"
  have g': "has_vgic ?s vc c" and st': "lrs_stable ?s" and lr: "lr_value ?s = lr_value s"
    using g stable_reads [OF st rs] by (simp_all add: has_vgic_def)
  have "wp (acknowledge_inject vc) (\<lambda>_. delivered s c) t" if t: "lr_update_inv ?s c (lr_max s) t" for t
  proof -
    obtain m rs' where t': "t = put_used_lr c m (s\<lparr>trace := rs' @ trace s\<rparr>)" and rs': "set rs' \<subseteq> range Rd"
      and m: "\<And>j. bit m j \<longleftrightarrow> bit (lr_marks s c) j \<and> \<not> (j < lr_max s \<and> lr_is_inactive (lr_value s j))"
      by (rule lr_update_inv_reads [OF t rs]) (simp only: lr)
    then show ?thesis
      unfolding t' by (intro acknowledge_inject_delivers [OF g rs']) (simp add: lr_held_def)
  qed
  with vgic_used_lr_update_run [OF g' st']
  have "wp (mthen (vgic_used_lr_update vc) (acknowledge_inject vc)) (\<lambda>_. delivered s c) ?s"
    unfolding wp_prims by (elim wp_mono) simp
  then show ?thesis
    unfolding wp_def h .
qed

section \<open>From a guest to the hypervisor and back\<close>

text \<open>The state in which a handler starts: the guest's registers are saved in its vcpu.\<close>

definition entered :: "nat \<Rightarrow> hyp \<Rightarrow> hyp" where
  "entered vc s = put_vreg vc (saved_regs s)
    (s\<lparr>mem := parked (mem s) (cpu_sp s) (cpu_x s),
       trace := Rd (Sysreg (pcpu s) ''elr_el2'') # Rd (Sysreg (pcpu s) ''spsr_el2'') # entry_trace s,
       cpu_x := (cpu_x s)[0 := vcpu_ptr s vc, 1 := spsr_el2 (saved_regs s), 2 := elr_el2 (saved_regs s),
         3 := cpu_x s ! 0, 4 := cpu_x s ! 1]\<rparr>)"

text \<open>
  \<open>resumed f vc t u\<close>: from state \<open>t\<close> the guest goes on with the registers, the program counter and
  the processor state that the vcpu \<open>vc\<close> has in \<open>t\<close>. The stack pointer and everything but the two
  words below it and the stack frames \<open>f\<close> of the C code are as in \<open>t\<close>.
\<close>

definition resumed :: "cframe \<Rightarrow> nat \<Rightarrow> hyp \<Rightarrow> hyp \<Rightarrow> bool" where
  "resumed f vc t u \<longleftrightarrow> (let r = vreg (vcpus t ! vc) in
     u = t\<lparr>mem := parked (clobber (cpu_sp t) f (mem t)) (cpu_sp t) (gpr r), cpu_x := gpr r,
       trace := Instr ''eret'' # Wr (Sysreg (pcpu t) ''elr_el2'') (elr_el2 r) #
         Wr (Sysreg (pcpu t) ''spsr_el2'') (spsr_el2 r) # entry_trace t\<rparr>)"

definition stack_ok :: "hyp \<Rightarrow> bool" where
  "stack_ok s \<longleftrightarrow> all_backed s (cpu_sp s - 16) 8 \<and> all_backed s (cpu_sp s - 8) 8"

text \<open>What the handler of an exception must leave alone: where the vcpu and the stack are.\<close>

definition same_place :: "hyp \<Rightarrow> hyp \<Rightarrow> bool" where
  "same_place s t \<longleftrightarrow> pcpu t = pcpu s \<and> dev t = dev s \<and> img t = img s \<and> backed t = backed s \<and> cpu_sp t = cpu_sp s \<and>
     length (vcpus t) = length (vcpus s) \<and>
     (\<forall>i < length (vcpus s). length (gpr (vreg (vcpus t ! i))) = length (gpr (vreg (vcpus s ! i))))"

text \<open>
  The contract of a handler of exceptions from a guest, and what the entry point around it does:
  the handler sees the guest's registers in the vcpu, and the guest goes on with what it finds there
  afterwards, whatever the C code leaves in the registers of the processor and on the stack.
\<close>

locale guest_exit =
  fixes handler :: "unit hcomp"
    and pre :: "nat \<Rightarrow> hyp \<Rightarrow> bool"
    and post :: "nat \<Rightarrow> hyp \<Rightarrow> hyp \<Rightarrow> bool"
  assumes handled: "on_vcpu s vc \<Longrightarrow> pre vc s \<Longrightarrow> wp handler (\<lambda>_. post vc s) s"
    and stays: "on_vcpu s vc \<Longrightarrow> post vc s t \<Longrightarrow> same_place s t"
begin

lemma exit_and_resume:
  assumes v: "on_vcpu s vc" and b: "stack_ok s" and xs: "length (cf_x f) = 31" and p: "pre vc (entered vc s)"
  shows "wp (mthen vm_context_save (mthen (c_call f handler) eret_vm))
    (\<lambda>_ u. \<exists>t. post vc (entered vc s) t \<and> resumed f vc t u) s"
proof -
  have e: "vm_context_save s = Inr ((), entered vc s)"
    using vm_context_save_run [OF v] b by (simp add: entered_def stack_ok_def)
  have v': "on_vcpu (entered vc s) vc" and b': "stack_ok (entered vc s)"
    using v b by (simp_all add: on_vcpu_def entered_def stack_ok_def saved_regs_def)
  let ?left = "\<lambda>t :: hyp. t\<lparr>cpu_x := cf_x f, mem := clobber (cpu_sp t) f (mem t)\<rparr>"
  have "wp (mmod ?left) (\<lambda>_. wp eret_vm (\<lambda>_ u. \<exists>t. post vc (entered vc s) t \<and> resumed f vc t u)) t"
    if t: "post vc (entered vc s) t" for t
  proof -
    note pl = stays [OF v' t]
    have "vcpu_ptr (?left t) = vcpu_ptr (entered vc s)"
      using pl by (intro vcpu_ptr_cong) (simp add: same_place_def)
    then have vt: "on_vcpu (?left t) vc"
      using v' pl xs by (simp add: on_vcpu_def same_place_def)
    have "backed t = backed (entered vc s)" "cpu_sp t = cpu_sp (entered vc s)"
      using pl by (simp_all add: same_place_def)
    then have bt: "all_backed (?left t) (cpu_sp (?left t) - 16) 8" "all_backed (?left t) (cpu_sp (?left t) - 8) 8"
      using b' by (simp_all add: stack_ok_def all_backed_def)
    have "resumed f vc t (t\<lparr>mem := parked (clobber (cpu_sp t) f (mem t)) (cpu_sp t) (gpr (vreg (vcpus t ! vc))),
        cpu_x := gpr (vreg (vcpus t ! vc)),
        trace := Instr ''eret'' # Wr (Sysreg (pcpu t) ''elr_el2'') (elr_el2 (vreg (vcpus t ! vc))) #
          Wr (Sysreg (pcpu t) ''spsr_el2'') (spsr_el2 (vreg (vcpus t ! vc))) # entry_trace t\<rparr>)"
      by (simp add: resumed_def Let_def)
    with t show ?thesis
      using vm_context_restore_run [OF vt refl bt]
      by (auto simp: wp_def run eret_vm_def entry_trace_def)
  qed
  then have "wp handler (\<lambda>_. wp (mmod ?left)
      (\<lambda>_. wp eret_vm (\<lambda>_ u. \<exists>t. post vc (entered vc s) t \<and> resumed f vc t u))) (entered vc s)"
    by (rule wp_mono [OF handled [OF v' p]])
  then show ?thesis
    by (simp add: c_call_def wps wp_of_run e del: wp_prims(4))
qed

end

text \<open>The interrupt interface of a vcpu.\<close>

abbreviation iface :: "hyp \<Rightarrow> nat \<Rightarrow> nat" where
  "iface s vc \<equiv> the (vcpu_vgic (vcpus s ! vc))"

interpretation irq_exit: guest_exit lower_el_irq_handler
  "\<lambda>vc s. has_vgic s vc (iface s vc) \<and> lrs_stable s" "\<lambda>vc s. delivered s (iface s vc)"
proof
  show "wp lower_el_irq_handler (\<lambda>_. delivered s (iface s vc)) s"
    if "on_vcpu s vc" "has_vgic s vc (iface s vc) \<and> lrs_stable s" for s vc
    using lower_el_irq_handler_run that by blast
  show "same_place s t" if "delivered s (iface s vc) t" for s vc t
    using that by (auto simp: delivered_def same_place_def put_used_lr_def)
qed

lemma guest0_on_vcpu: "on_vcpu guest0 0" "lrs_stable guest0" "stack_ok guest0"
  by (simp_all add: on_vcpu_def lrs_stable_def stack_ok_def guest0_def hyp0_defs vcpu_ptr_def image0_def VCPU_MAX_def
    all_backed_def vcpu_sys0_def)

text \<open>
  C15. An interrupt that arrives while a guest runs is acknowledged, its priority is dropped, and it
  is written as a pending interrupt with the same number to a list register that held no interrupt,
  never over one that is still pending or active; only if every list register is busy is nothing
  written. Every list register that is busy afterwards is marked as used, as it was before.
\<close>

theorem lower_el_irq_handler_delivers:
  assumes v: "on_vcpu s vc" and g: "has_vgic s vc c" and st: "lrs_stable s"
    and marked: "\<forall>i < lr_max s. \<not> lr_is_inactive (lr_value s i) \<longrightarrow> bit (lr_marks s c) i"
  shows "wp lower_el_irq_handler (\<lambda>_ t. \<exists>rs irq slot.
     trace t = Instr ''isb'' #
       (case slot of None \<Rightarrow> [] | Some i \<Rightarrow> [Wr (Sysreg (pcpu s) (ich_lr i)) (gic_make_lr irq irq 1)]) @
       Wr (Sysreg (pcpu s) ''icc_eoir1_el1'') (ucast irq) # Rd (Sysreg (pcpu s) ''icc_iar1_el1'') # rs @ trace s \<and>
     set rs \<subseteq> range Rd \<and>
     irq = ucast (dev s (rs @ trace s) (Sysreg (pcpu s) ''icc_iar1_el1'')) AND 0xffffff \<and>
     (case slot of None \<Rightarrow> \<forall>i < lr_max s. \<not> lr_is_inactive (lr_value s i)
      | Some i \<Rightarrow> i < lr_max s \<and> lr_is_inactive (lr_value s i)) \<and>
     (\<forall>i < lr_max s. \<not> lr_is_inactive (lr_value s i) \<or> slot = Some i \<longrightarrow> bit (lr_marks t c) i)) s"
proof (rule wp_mono [OF lower_el_irq_handler_run [OF v g st]])
  fix t
  have c: "c < length (g_vgic_cpu s)" using g by (simp add: has_vgic_def)
  assume "delivered s c t"
  then obtain rs m irq slot where d: "set rs \<subseteq> range Rd"
    "irq = ucast (dev s (rs @ trace s) (Sysreg (pcpu s) ''icc_iar1_el1'')) AND 0xffffff"
    "t = put_used_lr c m (s\<lparr>trace := Instr ''isb'' #
       (case slot of None \<Rightarrow> [] | Some i \<Rightarrow> [Wr (Sysreg (pcpu s) (ich_lr i)) (gic_make_lr irq irq 1)]) @
       Wr (Sysreg (pcpu s) ''icc_eoir1_el1'') (ucast irq) #
       Rd (Sysreg (pcpu s) ''icc_iar1_el1'') # rs @ trace s\<rparr>)"
    "case slot of None \<Rightarrow> \<forall>i < lr_max s. lr_held s c i | Some i \<Rightarrow> i < lr_max s \<and> \<not> lr_held s c i"
    "\<forall>j < lr_max s. bit m j \<longleftrightarrow> lr_held s c j \<or> slot = Some j"
    unfolding delivered_def by blast
  have held: "lr_held s c i \<longleftrightarrow> \<not> lr_is_inactive (lr_value s i)" if "i < lr_max s" for i
    using marked that by (auto simp: lr_held_def)
  show "\<exists>rs irq slot.
     trace t = Instr ''isb'' #
       (case slot of None \<Rightarrow> [] | Some i \<Rightarrow> [Wr (Sysreg (pcpu s) (ich_lr i)) (gic_make_lr irq irq 1)]) @
       Wr (Sysreg (pcpu s) ''icc_eoir1_el1'') (ucast irq) # Rd (Sysreg (pcpu s) ''icc_iar1_el1'') # rs @ trace s \<and>
     set rs \<subseteq> range Rd \<and>
     irq = ucast (dev s (rs @ trace s) (Sysreg (pcpu s) ''icc_iar1_el1'')) AND 0xffffff \<and>
     (case slot of None \<Rightarrow> \<forall>i < lr_max s. \<not> lr_is_inactive (lr_value s i)
      | Some i \<Rightarrow> i < lr_max s \<and> lr_is_inactive (lr_value s i)) \<and>
     (\<forall>i < lr_max s. \<not> lr_is_inactive (lr_value s i) \<or> slot = Some i \<longrightarrow> bit (lr_marks t c) i)"
    using d held c by (intro exI [of _ rs] exI [of _ irq] exI [of _ slot]) (auto split: option.splits)
qed

theorem lower_el_irq_handler_delivers_witness:
  "on_vcpu guest0 0 \<and> has_vgic guest0 0 0 \<and> lrs_stable guest0 \<and>
   wp lower_el_irq_handler (\<lambda>_ t. \<exists>i < 4. bit (lr_marks t 0) i) guest0"
proof -
  have m: "\<forall>i < lr_max guest0. \<not> lr_is_inactive (lr_value guest0 i) \<longrightarrow> bit (lr_marks guest0 0) i"
    by (simp add: guest0_simps lr_value_def lr_is_inactive_def LR_INACTIVE_def)
      (simp add: guest0_def ich_lr_def less_Suc_eq numeral_eq_Suc)
  have "wp lower_el_irq_handler (\<lambda>_ t. \<exists>i < 4. bit (lr_marks t 0) i) guest0"
    by (rule wp_mono [OF lower_el_irq_handler_delivers [OF guest0_on_vcpu(1) guest0_vgic guest0_on_vcpu(2) m]])
      (force simp: guest0_simps split: option.splits)
  then show ?thesis using guest0_on_vcpu guest0_vgic by blast
qed

lemma parked_outside: "a \<notin> span (sp - 16) 16 \<Longrightarrow> parked m sp xs a = m a"
proof -
  assume a: "a \<notin> span (sp - 16) 16"
  have "\<not> unat (a - (sp - 16)) < 8" using a by simp
  moreover have "\<not> unat (a - (sp - 8)) < 8"
    using a unat_offset [of "a - (sp - 16)" "a - (sp - 8)" 8] by auto
  ultimately show ?thesis by (simp add: parked_def wr_le_apply)
qed

text \<open>
  What the entry code and the C code leave on the stack: nothing outside the frames of the C code
  below the stack pointer, if these are not smaller than the 16 bytes of the entry code.
\<close>

lemma resumed_mem:
  assumes "16 \<le> cf_size f" and "a \<notin> span (sp - of_nat (cf_size f)) (cf_size f)"
  shows "parked (clobber sp f (parked m sp xs)) sp ys a = m a"
proof -
  have "a \<notin> span (sp - 16) 16" using span_below [of a sp 16 "cf_size f"] assms by auto
  then show ?thesis using assms(2) by (simp add: parked_outside clobber_outside)
qed

text \<open>
  C13. A guest does not notice an interrupt: whatever the C code leaves in the registers of the
  processor and in its stack frames, of 16 bytes or more, on the way back the guest's 31 general
  registers, its program counter and its saved processor state are what they were, and so are the
  stack pointer of EL2 and all memory outside these frames below it. Meanwhile an interrupt has been
  acknowledged and its priority dropped, and it has been put as a pending interrupt with the same
  number into a list register that was not held; when every list register was held, it has been
  dropped. Log messages are not part of the model.
\<close>

theorem irq_exception_transparent:
  assumes v: "on_vcpu s vc" and g: "has_vgic s vc c" and st: "lrs_stable s" and b: "stack_ok s"
    and f: "length (cf_x f) = 31" "16 \<le> cf_size f"
  shows "wp (irq_exception_from_lower_el f) (\<lambda>_ u.
     cpu_x u = cpu_x s \<and> cpu_sp u = cpu_sp s \<and>
     (\<exists>es. trace u = Instr ''eret'' # Wr (Sysreg (pcpu s) ''elr_el2'') (elr_el2 (saved_regs s)) #
        Wr (Sysreg (pcpu s) ''spsr_el2'') (spsr_el2 (saved_regs s)) # es) \<and>
     (\<forall>a. a \<notin> span (cpu_sp s - of_nat (cf_size f)) (cf_size f) \<longrightarrow> mem u a = mem s a) \<and>
     (\<exists>t. delivered (entered vc s) c t \<and> resumed f vc t u)) s"
proof -
  have vc: "vc < length (vcpus s)" and c: "iface s vc = c" "iface (entered vc s) vc = c"
    using g by (simp_all add: has_vgic_def entered_def put_vreg_def)
  have pre: "has_vgic (entered vc s) vc c \<and> lrs_stable (entered vc s)"
    using g st vc by (simp add: has_vgic_def lrs_stable_def entered_def put_vreg_def)
  have "cpu_x u = cpu_x s \<and> cpu_sp u = cpu_sp s \<and>
     (\<exists>es. trace u = Instr ''eret'' # Wr (Sysreg (pcpu s) ''elr_el2'') (elr_el2 (saved_regs s)) #
        Wr (Sysreg (pcpu s) ''spsr_el2'') (spsr_el2 (saved_regs s)) # es) \<and>
     (\<forall>a. a \<notin> span (cpu_sp s - of_nat (cf_size f)) (cf_size f) \<longrightarrow> mem u a = mem s a)"
    if d: "delivered (entered vc s) c t" and r: "resumed f vc t u" for t u
  proof -
    obtain m tr where "t = put_used_lr c m ((entered vc s)\<lparr>trace := tr\<rparr>)"
      using d unfolding delivered_def by blast
    then have "vreg (vcpus t ! vc) = saved_regs s" "cpu_sp t = cpu_sp s" "pcpu t = pcpu s"
      "mem t = parked (mem s) (cpu_sp s) (cpu_x s)"
      using vc by (simp_all add: entered_def) (simp_all add: put_used_lr_def)
    with r show ?thesis
      by (simp add: resumed_def Let_def saved_regs_def resumed_mem [OF f(2)] del: mem_span)
  qed
  then show ?thesis
    unfolding irq_exception_from_lower_el_def
    using irq_exit.exit_and_resume [OF v b f(1)] pre c by (auto elim: wp_mono)
qed

text \<open>C code that leaves 7 in every register and 9 in the 512 bytes below the stack pointer.\<close>

definition cframe0 :: cframe where
  "cframe0 = \<lparr>cf_x = replicate 31 7, cf_size = 512, cf_mem = (\<lambda>_. 9)\<rparr>"

lemma cframe0_simps [simp]: "length (cf_x cframe0) = 31" "cf_size cframe0 = 512"
  by (simp_all add: cframe0_def)

theorem irq_exception_transparent_witness:
  "on_vcpu guest0 0 \<and> has_vgic guest0 0 0 \<and> lrs_stable guest0 \<and> stack_ok guest0 \<and>
   wp (irq_exception_from_lower_el cframe0) (\<lambda>_ u. cpu_x u = cpu_x guest0) guest0"
  using irq_exception_transparent [OF guest0_on_vcpu(1) guest0_vgic guest0_on_vcpu(2,3), of cframe0]
    guest0_on_vcpu guest0_vgic
  by (auto elim: wp_mono)

section \<open>Waiting for interrupts\<close>

text \<open>The number of times a processor read the system counter.\<close>

definition polls :: "nat \<Rightarrow> io list \<Rightarrow> nat" where
  "polls c es = length (filter (\<lambda>e. e = Rd (Sysreg c ''cntpct_el0'')) es)"

lemma polls_simps [simp]: "polls c [] = 0" "polls c (Instr i # es) = polls c es"
  "polls c (Rd (Sysreg c ''cntpct_el0'') # es) = Suc (polls c es)"
  "polls c (es @ fs) = polls c es + polls c fs"
  by (simp_all add: polls_def)

lemma ich_lr_not_counter: "i < 16 \<Longrightarrow> ich_lr i \<noteq> ''cntpct_el0''"
  by (simp add: ich_lr_def less_Suc_eq numeral_eq_Suc) (elim disjE; simp)

lemma pending_lr_from_run:
  "\<exists>b es. pending_lr_from is s = Inr (b, s\<lparr>trace := es @ trace s\<rparr>) \<and> quiet es \<and> polls (pcpu s) es = 0"
proof (induction "is" arbitrary: s)
  case Nil
  then show ?case by (auto simp: run intro: exI [of _ "[]"])
next
  case (Cons i "is")
  show ?case
  proof (cases "i < 16")
    case True
    let ?e = "Rd (Sysreg (pcpu s) (ich_lr i))"
    have e: "polls (pcpu s) [?e] = 0"
      using ich_lr_not_counter [OF True] by (simp add: polls_def)
    obtain b es where "pending_lr_from is (s\<lparr>trace := ?e # trace s\<rparr>) = Inr (b, s\<lparr>trace := (es @ [?e]) @ trace s\<rparr>)"
      "quiet es" "polls (pcpu s) es = 0"
      using Cons.IH [of "s\<lparr>trace := ?e # trace s\<rparr>"] by auto
    moreover have "quiet (es @ [?e])" "polls (pcpu s) (es @ [?e]) = 0"
      using calculation e by simp_all
    moreover have "quiet [?e]" by simp
    ultimately show ?thesis
      using True e by (cases "lr_is_pending (dev s (trace s) (Sysreg (pcpu s) (ich_lr i)))")
        (auto simp: run gic_read_lr_def intro: exI [of _ "[?e]"] exI [of _ "es @ [?e]"])
  next
    case False
    with Cons.IH [of s] show ?thesis
      by (cases "lr_is_pending 0") (auto simp: run gic_read_lr_def intro: exI [of _ "[]"])
  qed
qed

text \<open>The time in nanoseconds that reading the counter after a history gives.\<close>

definition ns_at :: "hyp \<Rightarrow> io list \<Rightarrow> u64" where
  "ns_at s t = muldiv64 (dev s t (Sysreg (pcpu s) ''cntpct_el0'')) NS_PER_SECOND (ucast (g_freq s))"

lemma now_ns_run:
  "now_ns s = Inr (ns_at s (trace s), s\<lparr>trace := Instr ''isb'' # Rd (Sysreg (pcpu s) ''cntpct_el0'') # trace s\<rparr>)"
  by (simp add: now_ns_def get_syscount_def count_to_time_ns_def run ns_at_def)

text \<open>
  \<open>clock_passes s n e\<close>: once the counter has been read \<open>n\<close> times, whatever else was read, the
  time has reached \<open>e\<close>.
\<close>

definition clock_passes :: "hyp \<Rightarrow> nat \<Rightarrow> u64 \<Rightarrow> bool" where
  "clock_passes s n e \<longleftrightarrow> (\<forall>es. quiet es \<longrightarrow> n \<le> polls (pcpu s) es \<longrightarrow> e \<le> ns_at s (es @ trace s))"

lemma wfx_poll_run:
  assumes "clock_passes s n e" and "quiet es" and "polls (pcpu s) es \<le> n" and "n < k + polls (pcpu s) es"
  shows "\<exists>fs. wfx_poll k e (s\<lparr>trace := es @ trace s\<rparr>) = Inr ((), s\<lparr>trace := fs @ trace s\<rparr>) \<and> quiet fs"
  using assms(2-)
proof (induction k arbitrary: es)
  case 0
  then show ?case by simp
next
  case (Suc k)
  let ?c = "Rd (Sysreg (pcpu s) ''cntpct_el0'')"
  obtain b fs where "gic_has_pending_lr (s\<lparr>trace := es @ trace s\<rparr>) = Inr (b, s\<lparr>trace := (fs @ es) @ trace s\<rparr>)"
    and fs: "quiet fs" "polls (pcpu s) fs = 0"
    using pending_lr_from_run [of "[0..<unat (g_gic_lr_max s)]" "s\<lparr>trace := es @ trace s\<rparr>"]
    by (auto simp: gic_has_pending_lr_def run)
  note p = this(1)
  show ?case
  proof (cases "b \<or> \<not> ns_at s ((fs @ es) @ trace s) < e")
    case True
    then show ?thesis
      using Suc.prems fs
      by (cases b) (auto simp: run p now_ns_run ns_at_def intro: exI [of _ "fs @ es"] exI [of _ "Instr ''isb'' # ?c # fs @ es"])
  next
    case False
    then have "polls (pcpu s) es < n"
      using assms(1) Suc.prems fs unfolding clock_passes_def by (metis polls_simps(4) quiet_simps(4) add_0 leD not_less)
    then obtain gs where "wfx_poll k e (s\<lparr>trace := (Instr ''isb'' # ?c # fs @ es) @ trace s\<rparr>) = Inr ((), s\<lparr>trace := gs @ trace s\<rparr>)" "quiet gs"
      using Suc.IH [of "Instr ''isb'' # ?c # fs @ es"] Suc.prems fs by auto
    with False show ?thesis
      by (auto simp: run p now_ns_run ns_at_def)
  qed
qed

lemma advance_pc_run:
  assumes "vc < length (vcpus s)"
  shows "advance_pc vc s =
    Inr ((), put_vreg vc ((vreg (vcpus s ! vc))\<lparr>elr_el2 := elr_el2 (vreg (vcpus s ! vc)) + 4\<rparr>) s)"
proof -
  have c: "vreg_update (elr_el2_update (\<lambda>pc. pc + 4)) c = c\<lparr>vreg := (vreg c)\<lparr>elr_el2 := elr_el2 (vreg c) + 4\<rparr>\<rparr>"
    for c :: vcpu
    by (cases c, cases "vreg c") simp
  have "advance_pc vc s = Inr ((), s\<lparr>vcpus := (vcpus s)[vc := vreg_update (elr_el2_update (\<lambda>pc. pc + 4)) (vcpus s ! vc)]\<rparr>)"
    using assms by (simp add: advance_pc_def run)
  then show ?thesis unfolding c put_vreg_def .
qed

lemma wfx_emulate_handler_run:
  assumes "clock_passes s n (ns_at s (trace s) + WFI_POLL_TIMEOUT_NS)" and "n \<le> poll_bound s" and "0 < n"
    and vc: "vc < length (vcpus s)"
  shows "\<exists>fs. wfx_emulate_handler vc esr s = Inr (0, put_vreg vc
      ((vreg (vcpus s ! vc))\<lparr>elr_el2 := elr_el2 (vreg (vcpus s ! vc)) + 4\<rparr>) (s\<lparr>trace := fs @ trace s\<rparr>)) \<and> quiet fs"
proof -
  let ?es = "[Instr ''isb'', Rd (Sysreg (pcpu s) ''cntpct_el0'')]"
  obtain fs where "wfx_poll (poll_bound s) (ns_at s (trace s) + WFI_POLL_TIMEOUT_NS) (s\<lparr>trace := ?es @ trace s\<rparr>) =
      Inr ((), s\<lparr>trace := fs @ trace s\<rparr>)" "quiet fs"
    using wfx_poll_run [OF assms(1), of ?es "poll_bound s"] assms(2,3) by auto
  with vc show ?thesis
    by (auto simp: wfx_emulate_handler_def run now_ns_run advance_pc_run)
qed

section \<open>Synchronous traps\<close>

text \<open>
  Registers that keep their value while nothing is written, and a clock that runs: from now on
  the waiting time is over when the counter has been read \<open>n\<close> times.
\<close>

definition stable_reg :: "hyp \<Rightarrow> string \<Rightarrow> u64 \<Rightarrow> bool" where
  "stable_reg s r v \<longleftrightarrow> (\<forall>es. quiet es \<longrightarrow> sysreg_at s (es @ trace s) r = v)"

definition clock_runs :: "hyp \<Rightarrow> nat \<Rightarrow> bool" where
  "clock_runs s n \<longleftrightarrow> 0 < n \<and> n \<le> poll_bound s \<and> (\<forall>es. quiet es \<longrightarrow> polls (pcpu s) es = 0 \<longrightarrow>
     clock_passes (s\<lparr>trace := es @ trace s\<rparr>) n (ns_at s (es @ trace s) + WFI_POLL_TIMEOUT_NS))"

lemma stable_regD: "stable_reg s r v \<Longrightarrow> quiet es \<Longrightarrow> sysreg_at s (es @ trace s) r = v"
  by (simp add: stable_reg_def)

lemma stable_reg_quiet:
  assumes "stable_reg s r v" and "quiet es" and "trace t = es @ trace s" "dev t = dev s" "pcpu t = pcpu s"
  shows "stable_reg t r v"
  unfolding stable_reg_def
proof (intro allI impI)
  fix fs
  assume "quiet fs"
  with assms show "sysreg_at t (fs @ trace t) r = v"
    using stable_regD [OF assms(1), of "fs @ es"] by simp
qed

lemma clock_runs_quiet:
  assumes "clock_runs s n" and "quiet es" "polls (pcpu s) es = 0" and "trace t = es @ trace s" "dev t = dev s" "pcpu t = pcpu s"
    "g_freq t = g_freq s" "poll_bound t = poll_bound s"
  shows "clock_runs t n"
  unfolding clock_runs_def
proof (intro conjI allI impI)
  fix fs
  assume "quiet fs" and "polls (pcpu t) fs = 0"
  then have "clock_passes (s\<lparr>trace := (fs @ es) @ trace s\<rparr>) n (ns_at s ((fs @ es) @ trace s) + WFI_POLL_TIMEOUT_NS)"
    using assms unfolding clock_runs_def by (metis quiet_simps(4) polls_simps(4) add_0)
  then show "clock_passes (t\<lparr>trace := fs @ trace t\<rparr>) n (ns_at t (fs @ trace t) + WFI_POLL_TIMEOUT_NS)"
    using assms by (simp add: clock_passes_def ns_at_def)
qed (use assms in \<open>auto simp: clock_runs_def\<close>)

definition esr_class :: "u64 \<Rightarrow> u64" where
  "esr_class esr = drop_bit 26 (esr AND ESR_EC_MASK)"

lemma sync_handler_reads:
  assumes "on_vcpu s vc" and "stable_reg s ''esr_el2'' esr"
  shows "lower_el_sync_handler s =
    (case get_sync_trap_handler esr of
       Some handler \<Rightarrow>
         mbind (handler vc esr) (\<lambda>ret.
         if ret \<noteq> 0 then mthen vm_reg_dump (mfail (Panic ''[lower_el_sync_handler]: sync trap handler failed''))
         else mret ())
     | None \<Rightarrow> mthen vm_reg_dump (mfail (Panic ''ERROR: invalid/unsupported exception class'')))
    (s\<lparr>trace := [Rd (Sysreg (pcpu s) ''esr_el2''), Rd (Sysreg (pcpu s) ''tpidr_el2'')] @ trace s\<rparr>)"
  using cur_vcpu_run [OF assms(1)] stable_regD [OF assms(2), of "[Rd (Sysreg (pcpu s) ''tpidr_el2'')]"]
  by (simp add: lower_el_sync_handler_def run entry_trace_def)

definition wfx_trap :: "hyp \<Rightarrow> bool" where
  "wfx_trap s \<longleftrightarrow> (\<exists>esr n. stable_reg s ''esr_el2'' esr \<and> esr_class esr = ESR_EC_WFx \<and> clock_runs s n)"

text \<open>A trap that only reads devices and changes nothing but the registers of the guest.\<close>

definition quiet_step :: "(vcpu_reg \<Rightarrow> vcpu_reg) \<Rightarrow> nat \<Rightarrow> hyp \<Rightarrow> hyp \<Rightarrow> bool" where
  "quiet_step f vc s t \<longleftrightarrow>
     (\<exists>es. quiet es \<and> t = put_vreg vc (f (vreg (vcpus s ! vc))) (s\<lparr>trace := es @ trace s\<rparr>))"

lemma quiet_step_place:
  assumes "vc < length (vcpus s)" and "quiet_step f vc s t" and "\<And>r. length (gpr (f r)) = length (gpr r)"
  shows "same_place s t"
  using assms by (auto simp: quiet_step_def same_place_def put_vreg_def nth_list_update)

definition skip_instr :: "vcpu_reg \<Rightarrow> vcpu_reg" where
  "skip_instr r = r\<lparr>elr_el2 := elr_el2 r + 4\<rparr>"

lemma wfx_handled:
  assumes v: "on_vcpu s vc" and w: "wfx_trap s"
  shows "wp lower_el_sync_handler (\<lambda>_. quiet_step skip_instr vc s) s"
proof -
  let ?es = "[Rd (Sysreg (pcpu s) ''esr_el2''), Rd (Sysreg (pcpu s) ''tpidr_el2'')]"
  let ?s = "s\<lparr>trace := ?es @ trace s\<rparr>"
  obtain esr n where esr: "stable_reg s ''esr_el2'' esr" "esr_class esr = ESR_EC_WFx" and n: "clock_runs s n"
    using w by (auto simp: wfx_trap_def)
  have vc: "vc < length (vcpus ?s)" using v by (simp add: on_vcpu_def)
  have c: "clock_passes ?s n (ns_at ?s (trace ?s) + WFI_POLL_TIMEOUT_NS)" "n \<le> poll_bound ?s" "0 < n"
    using clock_runs_quiet [OF n, of ?es ?s] by (auto simp: clock_runs_def polls_def dest: spec [of _ "[]"])
  obtain fs where "wfx_emulate_handler vc esr ?s = Inr (0, put_vreg vc
      ((vreg (vcpus s ! vc))\<lparr>elr_el2 := elr_el2 (vreg (vcpus s ! vc)) + 4\<rparr>) (s\<lparr>trace := (fs @ ?es) @ trace s\<rparr>))"
    "quiet (fs @ ?es)"
    using wfx_emulate_handler_run [OF c vc, of esr] by auto
  moreover have "get_sync_trap_handler esr = Some wfx_emulate_handler"
    using esr(2) by (simp add: get_sync_trap_handler_def esr_class_def)
  ultimately show ?thesis
    using sync_handler_reads [OF v esr(1)] unfolding wp_def quiet_step_def skip_instr_def
    by (auto simp: run intro!: exI [of _ "fs @ ?es"])
qed

interpretation wfx_exit: guest_exit lower_el_sync_handler "\<lambda>_. wfx_trap" "quiet_step skip_instr"
proof
  show "wp lower_el_sync_handler (\<lambda>_. quiet_step skip_instr vc s) s" if "on_vcpu s vc" "wfx_trap s" for s vc
    using wfx_handled that .
  show "same_place s t" if "on_vcpu s vc" "quiet_step skip_instr vc s t" for s vc t
    by (rule quiet_step_place [OF _ that(2)]) (use that(1) in \<open>simp_all add: on_vcpu_def skip_instr_def\<close>)
qed


lemma entered_simps [simp]:
  "trace (entered vc s) = [Rd (Sysreg (pcpu s) ''elr_el2''), Rd (Sysreg (pcpu s) ''spsr_el2''),
     Rd (Sysreg (pcpu s) ''tpidr_el2'')] @ trace s"
  "dev (entered vc s) = dev s" "pcpu (entered vc s) = pcpu s" "g_freq (entered vc s) = g_freq s"
  "poll_bound (entered vc s) = poll_bound s" "cpu_sp (entered vc s) = cpu_sp s"
  "mem (entered vc s) = parked (mem s) (cpu_sp s) (cpu_x s)"
  "vc < length (vcpus s) \<Longrightarrow> vreg (vcpus (entered vc s) ! vc) = saved_regs s"
  by (simp_all add: entered_def entry_trace_def) (simp_all add: put_vreg_def)

text \<open>The guest's view of a trap: the registers, the program counter and the state it goes on with.\<close>

lemma resumed_view:
  assumes "resumed f vc t u" and "vreg (vcpus t ! vc) = r" and "cpu_sp t = sp" "pcpu t = c" "trace t = tr"
    and "mem t = parked m sp xs" and "16 \<le> cf_size f"
  shows "cpu_x u = gpr r" "cpu_sp u = sp"
    "trace u = Instr ''eret'' # Wr (Sysreg c ''elr_el2'') (elr_el2 r) # Wr (Sysreg c ''spsr_el2'') (spsr_el2 r) #
       Rd (Sysreg c ''tpidr_el2'') # tr"
    "a \<notin> span (sp - of_nat (cf_size f)) (cf_size f) \<Longrightarrow> mem u a = m a"
  using assms by (simp_all add: resumed_def Let_def entry_trace_def resumed_mem del: mem_span)

definition guest_view :: "nat \<Rightarrow> (vcpu_reg \<Rightarrow> vcpu_reg) \<Rightarrow> hyp \<Rightarrow> hyp \<Rightarrow> bool" where
  "guest_view n g s u \<longleftrightarrow> (let r = g (saved_regs s) in
     cpu_x u = gpr r \<and> cpu_sp u = cpu_sp s \<and>
     (\<exists>es. quiet es \<and> trace u = Instr ''eret'' # Wr (Sysreg (pcpu s) ''elr_el2'') (elr_el2 r) #
        Wr (Sysreg (pcpu s) ''spsr_el2'') (spsr_el2 r) # es @ trace s) \<and>
     (\<forall>a. a \<notin> span (cpu_sp s - of_nat n) n \<longrightarrow> mem u a = mem s a))"

lemma quiet_step_view:
  assumes vc: "vc < length (vcpus s)" and n: "16 \<le> cf_size f"
    and d: "quiet_step g vc (entered vc s) t" and r: "resumed f vc t u"
  shows "guest_view (cf_size f) g s u"
proof -
  let ?es = "[Rd (Sysreg (pcpu s) ''elr_el2''), Rd (Sysreg (pcpu s) ''spsr_el2''), Rd (Sysreg (pcpu s) ''tpidr_el2'')]"
  obtain es where es: "quiet es"
    and t: "t = put_vreg vc (g (saved_regs s)) ((entered vc s)\<lparr>trace := es @ trace (entered vc s)\<rparr>)"
    using d vc by (auto simp: quiet_step_def simp del: entered_simps(1))
  have "vc < length (vcpus (entered vc s))"
    using vc by (simp add: entered_def)
  then have "vreg (vcpus t ! vc) = g (saved_regs s)" "cpu_sp t = cpu_sp s" "pcpu t = pcpu s" "trace t = es @ ?es @ trace s"
    "mem t = parked (mem s) (cpu_sp s) (cpu_x s)"
    by (simp_all add: t)
  note view = resumed_view [OF r this n]
  have "quiet (Rd (Sysreg (pcpu s) ''tpidr_el2'') # es @ ?es)"
    using es by simp
  then show ?thesis
    unfolding guest_view_def Let_def
    using view by (intro conjI exI [of _ "Rd (Sysreg (pcpu s) ''tpidr_el2'') # es @ ?es"]) simp_all
qed

lemma entered_quiet:
  "stable_reg s r v \<Longrightarrow> stable_reg (entered vc s) r v" "clock_runs s n \<Longrightarrow> clock_runs (entered vc s) n"
proof -
  let ?es = "[Rd (Sysreg (pcpu s) ''elr_el2''), Rd (Sysreg (pcpu s) ''spsr_el2''), Rd (Sysreg (pcpu s) ''tpidr_el2'')]"
  show "stable_reg (entered vc s) r v" if "stable_reg s r v"
    by (rule stable_reg_quiet [OF that, of ?es]) simp_all
  show "clock_runs (entered vc s) n" if "clock_runs s n"
    by (rule clock_runs_quiet [OF that, of ?es]) (simp_all add: polls_def)
qed

text \<open>
  C16. A guest that waits for an interrupt always gets its processor back: if the clock runs, the
  trap of \<open>wfi\<close> or \<open>wfe\<close> ends, whether or not an interrupt becomes pending, and the guest goes on
  behind the instruction with all its registers as they were. Memory changes only in the stack
  frames of the C code, of 16 bytes or more, below the stack pointer. No device is written, apart from
  the serial port, where the handler may log a message: log messages are not part of the model.
\<close>

theorem wfx_trap_resumes:
  assumes v: "on_vcpu s vc" and b: "stack_ok s" and f: "length (cf_x f) = 31" "16 \<le> cf_size f"
    and esr: "stable_reg s ''esr_el2'' esr" "esr_class esr = ESR_EC_WFx" and clk: "clock_runs s n"
  shows "wp (sync_exception_from_lower_el f) (\<lambda>_ u.
     cpu_x u = cpu_x s \<and> cpu_sp u = cpu_sp s \<and>
     (\<exists>es. quiet es \<and> trace u = Instr ''eret'' # Wr (Sysreg (pcpu s) ''elr_el2'') (elr_el2 (saved_regs s) + 4) #
        Wr (Sysreg (pcpu s) ''spsr_el2'') (spsr_el2 (saved_regs s)) # es @ trace s) \<and>
     (\<forall>a. a \<notin> span (cpu_sp s - of_nat (cf_size f)) (cf_size f) \<longrightarrow> mem u a = mem s a)) s"
proof -
  have vc: "vc < length (vcpus s)" using v by (simp add: on_vcpu_def)
  have w: "wfx_trap (entered vc s)"
    using entered_quiet(1) [OF esr(1)] entered_quiet(2) [OF clk] esr(2) unfolding wfx_trap_def by blast
  show ?thesis
    unfolding sync_exception_from_lower_el_def
    by (rule wp_mono [OF wfx_exit.exit_and_resume [OF v b f(1) w]])
      (auto dest!: quiet_step_view [OF vc f(2)] simp del: mem_span simp: guest_view_def skip_instr_def saved_regs_def)
qed

text \<open>A guest that waits, on a machine whose clock advances once it has been read.\<close>

definition waiting0 :: hyp where
  "waiting0 = guest0\<lparr>dev := (\<lambda>t l. case l of Sysreg c r \<Rightarrow>
     if r = ''tpidr_el2'' then 0x40100000 else if r = ''esr_el2'' then 0x4000000
     else if r = ''cntpct_el0'' \<and> polls 0 t \<noteq> 0 then 1000000 else 0 | _ \<Rightarrow> 0), g_freq := 62500000\<rparr>"

theorem wfx_trap_resumes_witness:
  "on_vcpu waiting0 0 \<and> stable_reg waiting0 ''esr_el2'' 0x4000000 \<and> clock_runs waiting0 1 \<and>
   wp (sync_exception_from_lower_el cframe0) (\<lambda>_ u. cpu_x u = cpu_x waiting0) waiting0"
proof -
  have v: "on_vcpu waiting0 0" "stack_ok waiting0"
    using guest0_on_vcpu by (simp_all add: on_vcpu_def stack_ok_def waiting0_def all_backed_def vcpu_ptr_def guest0_def hyp0_defs image0_def)
  have esr: "stable_reg waiting0 ''esr_el2'' 0x4000000" "esr_class 0x4000000 = ESR_EC_WFx"
    by (simp_all add: stable_reg_def waiting0_def esr_class_def ESR_EC_MASK_def ESR_EC_WFx_def)
  have "muldiv64 0 NS_PER_SECOND 62500000 = 0" "muldiv64 1000000 NS_PER_SECOND 62500000 = 16000000"
    by (simp_all add: muldiv64_def do_muldiv64_def NS_PER_SECOND_def)
  then have clk: "clock_runs waiting0 1"
    by (auto simp: clock_runs_def clock_passes_def ns_at_def waiting0_def guest0_def hyp0_defs machine0_def WFI_POLL_TIMEOUT_NS_def)
  have "wp (sync_exception_from_lower_el cframe0) (\<lambda>_ u. cpu_x u = cpu_x waiting0) waiting0"
    by (rule wp_mono [OF wfx_trap_resumes [OF v _ _ esr clk]]) simp_all
  with v esr clk show ?thesis by blast
qed

section \<open>Emulated loads\<close>

text \<open>
  What a load from a register of the disk puts into the destination register, given the value it had:
  for four of the ten registers that can be read, \<open>virtio_mmio_read\<close> stores nothing.
\<close>

definition virtio_load :: "u64 \<rightharpoonup> (u64 \<Rightarrow> u64)" where
  "virtio_load = map_of ([(VIRTIO_MMIO_MAGIC_VALUE, \<lambda>_. 0x74726976), (VIRTIO_MMIO_VERSION, \<lambda>_. 1),
     (VIRTIO_MMIO_DEVICE_ID, \<lambda>_. 2), (VIRTIO_MMIO_VENDOR_ID, \<lambda>_. 0x554d4551),
     (VIRTIO_MMIO_DEVICE_FEATURES, \<lambda>_. 0), (VIRTIO_MMIO_QUEUE_NUM_MAX, \<lambda>_. 64)] @
     map (\<lambda>off. (off, \<lambda>old. old)) [VIRTIO_MMIO_QUEUE_PFN, VIRTIO_MMIO_QUEUE_READY,
       VIRTIO_MMIO_INTERRUPT_STATUS, VIRTIO_MMIO_STATUS])"

definition load_to :: "nat \<Rightarrow> (u64 \<Rightarrow> u64) \<Rightarrow> vcpu_reg \<Rightarrow> vcpu_reg" where
  "load_to r g q = q\<lparr>gpr := (gpr q)[r := g (gpr q ! r)]\<rparr>"

lemma put_val_run:
  assumes "vc < length (vcpus s)" and "r < length (gpr (vreg (vcpus s ! vc)))"
  shows "put_val (Some (vc, r)) x s = Inr ((), put_vreg vc (load_to r (\<lambda>_. x) (vreg (vcpus s ! vc))) s)"
proof -
  have c: "vreg_update (gpr_update (\<lambda>xs. xs[r := x])) c = c\<lparr>vreg := load_to r (\<lambda>_. x) (vreg c)\<rparr>" for c :: vcpu
    by (cases c, cases "vreg c") (simp add: load_to_def)
  have "put_val (Some (vc, r)) x s = Inr ((), s\<lparr>vcpus := (vcpus s)[vc := vreg_update (gpr_update (\<lambda>xs. xs[r := x])) (vcpus s ! vc)]\<rparr>)"
    using assms by (simp add: put_val_def run)
  then show ?thesis unfolding c put_vreg_def .
qed

lemma load_to_same: "put_vreg vc (load_to r (\<lambda>old. old) (vreg (vcpus s ! vc))) s = s"
  by (cases "vc < length (vcpus s)") (simp_all add: load_to_def put_vreg_def list_update_beyond)

lemma virtio_mmio_read_run:
  assumes "virtio_load off = Some g" and "vc < length (vcpus s)" and "r < length (gpr (vreg (vcpus s ! vc)))"
  shows "virtio_mmio_read vc off (Some (vc, r)) acc s = Inr (0, put_vreg vc (load_to r g (vreg (vcpus s ! vc))) s)"
  using assms(1)
  by (auto simp: virtio_load_def virtio_mmio_read_def virtio_regs run put_val_run [OF assms(2,3)] load_to_same
      split: if_splits)

text \<open>
  A load from a register of the disk: the syndrome describes a data abort whose address is valid,
  a read into register \<open>r\<close>, and the faulting address is in a region that the disk's handler serves.
\<close>

definition disk_load :: "nat \<Rightarrow> (u64 \<Rightarrow> u64) \<Rightarrow> nat \<Rightarrow> hyp \<Rightarrow> bool" where
  "disk_load r g vc s \<longleftrightarrow> (\<exists>esr hpfar far v ms m.
     stable_reg s ''esr_el2'' esr \<and> stable_reg s ''hpfar_el2'' hpfar \<and> stable_reg s ''far_el2'' far \<and>
     esr_class esr = ESR_EC_DALEL \<and> \<not> bit esr 10 \<and> \<not> bit esr 6 \<and> unat (take_bit 5 (drop_bit 16 esr)) = r \<and> r < 31 \<and>
     vcpu_vm (vcpus s ! vc) = Some v \<and> v < length (g_vms s) \<and> regions_of s v ms \<and>
     List.find (\<lambda>m. mmio_covers m (fault_ipa hpfar far)) ms = Some m \<and> mmio_read m = Some Virtio_mmio \<and>
     virtio_load (fault_ipa hpfar far - ipa_base m) = Some g)"

lemma iss_field:
  "k + n \<le> 25 \<Longrightarrow> drop_bit k ((esr AND ESR_ISS_MASK) AND push_bit k (mask n)) = take_bit n (drop_bit k esr)" for esr :: u64
proof -
  assume "k + n \<le> 25"
  moreover have m: "ESR_ISS_MASK = mask 25"
    by (simp add: ESR_ISS_MASK_def mask_eq_exp_minus_1)
  ultimately show ?thesis
    unfolding m by (intro bit_word_eqI) (auto simp: bit_simps)
qed

lemma iss_fields:
  fixes esr :: u64
  shows "(ucast (drop_bit 10 ((esr AND ESR_ISS_MASK) AND DA_ISS_FnV_MASK)) :: u32) = of_bool (bit esr 10)"
    and "(ucast (drop_bit 6 ((esr AND ESR_ISS_MASK) AND DA_ISS_WnR_MASK)) :: u32) = of_bool (bit esr 6)"
    and "unat (ucast (drop_bit 16 ((esr AND ESR_ISS_MASK) AND DA_ISS_SRT_MASK)) :: u32) = unat (take_bit 5 (drop_bit 16 esr))"
proof -
  have m: "DA_ISS_FnV_MASK = push_bit 10 (mask 1)" "DA_ISS_WnR_MASK = push_bit 6 (mask 1)" "DA_ISS_SRT_MASK = push_bit 16 (mask 5)"
    by (simp_all add: DA_ISS_FnV_MASK_def DA_ISS_WnR_MASK_def DA_ISS_SRT_MASK_def mask_eq_exp_minus_1)
  have one: "take_bit 1 (drop_bit k esr) = of_bool (bit esr k)" for k
    unfolding bit_iff_odd_drop_bit by (simp add: take_bit_Suc mod2_eq_if)
  have unsigned_of_bool_eq: "ucast (of_bool b :: u64) = (of_bool b :: u32)" for b
    by simp
  show "(ucast (drop_bit 10 ((esr AND ESR_ISS_MASK) AND DA_ISS_FnV_MASK)) :: u32) = of_bool (bit esr 10)"
    "(ucast (drop_bit 6 ((esr AND ESR_ISS_MASK) AND DA_ISS_WnR_MASK)) :: u32) = of_bool (bit esr 6)"
    unfolding m by (subst iss_field, simp, simp only: one unsigned_of_bool_eq)+
  have "unat (take_bit 5 (drop_bit 16 esr)) < 2 ^ 5"
    by (simp only: unsigned_take_bit_eq take_bit_nat_less_exp)
  then show "unat (ucast (drop_bit 16 ((esr AND ESR_ISS_MASK) AND DA_ISS_SRT_MASK)) :: u32) = unat (take_bit 5 (drop_bit 16 esr))"
    unfolding m by (subst iss_field) (simp_all add: unat_ucast_mod)
qed

lemma data_abort_load:
  assumes v: "on_vcpu s vc" and l: "disk_load r g vc s"
  shows "wp lower_el_sync_handler (\<lambda>_. quiet_step (skip_instr \<circ> load_to r g) vc s) s"
proof -
  obtain esr hpfar far v ms m where
    regs: "stable_reg s ''esr_el2'' esr" "stable_reg s ''hpfar_el2'' hpfar" "stable_reg s ''far_el2'' far" and
    esr: "esr_class esr = ESR_EC_DALEL" "\<not> bit esr 10" "\<not> bit esr 6" "unat (take_bit 5 (drop_bit 16 esr)) = r" "r < 31" and
    vm: "vcpu_vm (vcpus s ! vc) = Some v" "v < length (g_vms s)" "regions_of s v ms" and
    m: "List.find (\<lambda>m. mmio_covers m (fault_ipa hpfar far)) ms = Some m" "mmio_read m = Some Virtio_mmio"
      "virtio_load (fault_ipa hpfar far - ipa_base m) = Some g"
    using l unfolding disk_load_def by blast
  have vc: "vc < length (vcpus s)" "length (gpr (vreg (vcpus s ! vc))) = 31"
    using v by (simp_all add: on_vcpu_def)
  let ?p = "[Rd (Sysreg (pcpu s) ''esr_el2''), Rd (Sysreg (pcpu s) ''tpidr_el2'')]"
  let ?q = "[Rd (Sysreg (pcpu s) ''elr_el2''), Rd (Sysreg (pcpu s) ''hpfar_el2''), Rd (Sysreg (pcpu s) ''far_el2'')] @ ?p"
  let ?r = "vreg (vcpus s ! vc)"
  have rd: "sysreg_at s (?p @ trace s) ''far_el2'' = far" "sysreg_at s ((Rd (Sysreg (pcpu s) ''far_el2'') # ?p) @ trace s) ''hpfar_el2'' = hpfar"
    using regs(2,3) by (simp_all only: stable_regD quiet_simps)
  have e: "mmio_emulate call_read call_write vc r acc (s\<lparr>trace := ?q @ trace s\<rparr>) =
      Inr (0, put_vreg vc (load_to r g ?r) (s\<lparr>trace := ?q @ trace s\<rparr>))" if "acc_ipa acc = fault_ipa hpfar far" "iss_wnr acc = 0" for acc
  proof -
    have "regions_of (s\<lparr>trace := ?q @ trace s\<rparr>) v ms" using vm(3) by (simp add: regions_of_def)
    with mmio_emulate_run [of vc "s\<lparr>trace := ?q @ trace s\<rparr>" v ms r call_read call_write acc] that
    show ?thesis
      using vc vm m esr(5) by (simp add: call_read_def virtio_mmio_read_run)
  qed
  have "data_abort_handler vc esr (s\<lparr>trace := ?p @ trace s\<rparr>) =
      Inr (0, put_vreg vc ((skip_instr \<circ> load_to r g) ?r) (s\<lparr>trace := ?q @ trace s\<rparr>))"
    using rd esr e vc
    by (simp add: data_abort_handler_def Let_def run iss_fields advance_pc_run skip_instr_def del: drop_bit_and)
  moreover have "get_sync_trap_handler esr = Some data_abort_handler"
    using esr(1) by (simp add: get_sync_trap_handler_def esr_class_def ESR_EC_WFx_def ESR_EC_HVC64_def ESR_EC_DALEL_def)
  ultimately show ?thesis
    using sync_handler_reads [OF v regs(1)] unfolding wp_def quiet_step_def
    by (auto simp: run intro!: exI [of _ ?q])
qed

interpretation load_exit: guest_exit lower_el_sync_handler "disk_load r g" "quiet_step (skip_instr \<circ> load_to r g)" for r g
proof
  show "wp lower_el_sync_handler (\<lambda>_. quiet_step (skip_instr \<circ> load_to r g) vc s) s" if "on_vcpu s vc" "disk_load r g vc s" for s vc
    using data_abort_load that .
  show "same_place s t" if "on_vcpu s vc" "quiet_step (skip_instr \<circ> load_to r g) vc s t" for s vc t
    by (rule quiet_step_place [OF _ that(2)]) (use that(1) in \<open>simp_all add: on_vcpu_def skip_instr_def load_to_def\<close>)
qed


text \<open>
  C14. A guest's load from one of the ten registers of the emulated disk that can be read: the trap
  ends, the guest goes on behind the instruction, and every register but the destination of the load is
  as it was. For the magic value, the version, the device and vendor numbers, the features and the
  queue size, the destination holds the value that the driver expects; for the queue's page number
  and ready bit, the interrupt status and the device status, it still holds what it held before,
  because the handler stores nothing. Memory changes only in the stack frames of the C code, of 16
  bytes or more, below the stack pointer; no device is written, log messages apart, which are
  not part of the model.
\<close>

theorem disk_load_emulated:
  assumes v: "on_vcpu s vc" and b: "stack_ok s" and f: "length (cf_x f) = 31" "16 \<le> cf_size f"
    and regs: "stable_reg s ''esr_el2'' esr" "stable_reg s ''hpfar_el2'' hpfar" "stable_reg s ''far_el2'' far"
    and esr: "esr_class esr = ESR_EC_DALEL" "\<not> bit esr 10" "\<not> bit esr 6" "unat (take_bit 5 (drop_bit 16 esr)) = r" "r < 31"
    and vm: "vcpu_vm (vcpus s ! vc) = Some v" "v < length (g_vms s)" "regions_of s v ms"
    and m: "List.find (\<lambda>m. mmio_covers m (fault_ipa hpfar far)) ms = Some m" "mmio_read m = Some Virtio_mmio"
      "virtio_load (fault_ipa hpfar far - ipa_base m) = Some g"
  shows "wp (sync_exception_from_lower_el f) (\<lambda>_ u.
     cpu_x u = (cpu_x s)[r := g (cpu_x s ! r)] \<and> cpu_sp u = cpu_sp s \<and>
     (\<exists>es. quiet es \<and> trace u = Instr ''eret'' # Wr (Sysreg (pcpu s) ''elr_el2'') (elr_el2 (saved_regs s) + 4) #
        Wr (Sysreg (pcpu s) ''spsr_el2'') (spsr_el2 (saved_regs s)) # es @ trace s) \<and>
     (\<forall>a. a \<notin> span (cpu_sp s - of_nat (cf_size f)) (cf_size f) \<longrightarrow> mem u a = mem s a)) s"
proof -
  have vc: "vc < length (vcpus s)" using v by (simp add: on_vcpu_def)
  have "vcpu_vm (vcpus (entered vc s) ! vc) = Some v" "v < length (g_vms (entered vc s))" "regions_of (entered vc s) v ms"
    using vm vc by (simp_all add: entered_def put_vreg_def regions_of_def)
  then have l: "disk_load r g vc (entered vc s)"
    using entered_quiet(1) [OF regs(1)] entered_quiet(1) [OF regs(2)] entered_quiet(1) [OF regs(3)] esr m
    unfolding disk_load_def by blast
  show ?thesis
    unfolding sync_exception_from_lower_el_def
    by (rule wp_mono [OF load_exit.exit_and_resume [OF v b f(1) l]])
      (auto dest!: quiet_step_view [OF vc f(2)] simp del: mem_span simp: guest_view_def skip_instr_def load_to_def saved_regs_def)
qed

text \<open>A guest that loads the version of the disk, at the address \<open>0xa000004\<close>, into register 5.\<close>

definition loading0 :: hyp where
  "loading0 = guest0\<lparr>dev := (\<lambda>_ l. case l of Sysreg c r \<Rightarrow>
     if r = ''tpidr_el2'' then 0x40100000 else if r = ''esr_el2'' then 0x93850000
     else if r = ''hpfar_el2'' then 0xa0000 else if r = ''far_el2'' then 0x4 else 0 | _ \<Rightarrow> 0),
     g_vms := [vm0\<lparr>mmio_list := Some 0\<rparr>],
     g_mmio_info := [\<lparr>mmio_next = None, ipa_base = 0x0a000000, mmio_size = 0x10000,
       mmio_read = Some Virtio_mmio, mmio_write = Some Virtio_mmio\<rparr>]\<rparr>"

theorem disk_load_emulated_witness:
  "on_vcpu loading0 0 \<and> stack_ok loading0 \<and>
   wp (sync_exception_from_lower_el cframe0) (\<lambda>_ u. cpu_x u = (cpu_x loading0)[5 := 1]) loading0"
proof -
  have v: "on_vcpu loading0 0" "stack_ok loading0"
    using guest0_on_vcpu by (simp_all add: on_vcpu_def stack_ok_def loading0_def all_backed_def vcpu_ptr_def guest0_def hyp0_defs image0_def)
  have regs: "stable_reg loading0 ''esr_el2'' 0x93850000" "stable_reg loading0 ''hpfar_el2'' 0xa0000" "stable_reg loading0 ''far_el2'' 4"
    by (simp_all add: stable_reg_def loading0_def)
  have esr: "esr_class 0x93850000 = ESR_EC_DALEL" "\<not> bit (0x93850000 :: u64) 10" "\<not> bit (0x93850000 :: u64) 6"
    "unat (take_bit 5 (drop_bit 16 (0x93850000 :: u64))) = 5"
    by (simp_all add: esr_class_def ESR_EC_MASK_def ESR_EC_DALEL_def bit_numeral_rec)
  have vm: "vcpu_vm (vcpus loading0 ! 0) = Some 0" "0 < length (g_vms loading0)" "regions_of loading0 0 (g_mmio_info loading0)"
    by (simp_all add: loading0_def guest0_def hyp0_defs regions_of_def) (auto intro!: exI [of _ "[0]"])
  have f: "fault_ipa 0xa0000 4 = 0xa000004"
    by (simp add: fault_ipa_def HPFAR_FIPA_MASK_def PAGE_SIZE_def)
  have m: "List.find (\<lambda>m. mmio_covers m (fault_ipa 0xa0000 4)) (g_mmio_info loading0) = Some (g_mmio_info loading0 ! 0)"
    "mmio_read (g_mmio_info loading0 ! 0) = Some Virtio_mmio"
    "virtio_load (fault_ipa 0xa0000 4 - ipa_base (g_mmio_info loading0 ! 0)) = Some (\<lambda>_. 1)"
    by (simp_all add: loading0_def f mmio_covers_def virtio_load_def virtio_regs)
  have "wp (sync_exception_from_lower_el cframe0) (\<lambda>_ u. cpu_x u = (cpu_x loading0)[5 := 1]) loading0"
    by (rule wp_mono [OF disk_load_emulated [OF v _ _ regs esr _ vm m]]) simp_all
  with v show ?thesis by blast
qed

section \<open>Hypervisor calls\<close>

text \<open>The state after a vcpu \<open>t\<close> has been made ready to start at \<open>entry\<close>.\<close>

definition made_ready :: "nat \<Rightarrow> u64 \<Rightarrow> hyp \<Rightarrow> hyp" where
  "made_ready t entry s = s\<lparr>vcpus := (vcpus s)[t :=
     vstate_update (\<lambda>_. READY) (vreg_update (elr_el2_update (\<lambda>_. entry)) (vcpus s ! t))]\<rparr>"

lemma psci_cpu_on_run:
  assumes "vc < length (vcpus s)" and "vcpu_vm (vcpus s ! vc) = Some v" and "v < length (g_vms s)"
    and "unat x1 < length (vm_vcpus (g_vms s ! v))" and "vm_vcpus (g_vms s ! v) ! unat x1 = Some t" and "t < length (vcpus s)"
  shows "psci_cpu_on vc x1 x2 x3 s = Inr (sint (dev s (trace s) (Smc PSCI_CPU_ON_SMC64 x1 (start_addr (img s)) 0)),
    (made_ready t x2 s)\<lparr>trace := Rd (Smc PSCI_CPU_ON_SMC64 x1 (start_addr (img s)) 0) # trace s\<rparr>)"
  using assms by (simp add: psci_cpu_on_def vm_of_def run vcpu_ready_def psci_call_def made_ready_def)

lemma hvc_is_handled: "esr_class esr = ESR_EC_HVC64 \<Longrightarrow> get_sync_trap_handler esr = Some hvc_handler"
  by (simp add: get_sync_trap_handler_def esr_class_def ESR_EC_WFx_def ESR_EC_HVC64_def ESR_EC_DALEL_def)

text \<open>
  C25. A guest starts another of its processors with the hypervisor call \<open>CPU_ON\<close>: the vcpu with
  the given number becomes ready with the given entry point, the firmware is asked to start the
  physical processor with that number at the hypervisor's own entry, and if the firmware reports
  success, the caller sees 0 in x0 and its program counter is left alone. If the firmware reports
  an error, the hypervisor stops.
\<close>

theorem hvc_cpu_on:
  assumes v: "on_vcpu s vc" and esr: "stable_reg s ''esr_el2'' esr" "esr_class esr = ESR_EC_HVC64"
    and x: "gpr (vreg (vcpus s ! vc)) ! 0 = ucast PSCI_CPU_ON_SMC64" "gpr (vreg (vcpus s ! vc)) ! 1 = of_nat k"
      "gpr (vreg (vcpus s ! vc)) ! 2 = entry"
    and vm: "vcpu_vm (vcpus s ! vc) = Some w" "w < length (g_vms s)"
    and t: "k < length (vm_vcpus (g_vms s ! w))" "length (vm_vcpus (g_vms s ! w)) < 2 ^ 64"
      "vm_vcpus (g_vms s ! w) ! k = Some t" "t < length (vcpus s)" "t \<noteq> vc"
    and smc: "smc = Smc PSCI_CPU_ON_SMC64 (of_nat k) (start_addr (img s)) 0"
    and es: "es = [Rd (Sysreg (pcpu s) ''esr_el2''), Rd (Sysreg (pcpu s) ''tpidr_el2'')]"
  shows "if dev s (es @ trace s) smc = 0
    then \<exists>u. lower_el_sync_handler s = Inr ((), u) \<and> trace u = Rd smc # es @ trace s \<and>
      vstate (vcpus u ! t) = READY \<and> vreg (vcpus u ! t) = (vreg (vcpus s ! t))\<lparr>elr_el2 := entry\<rparr> \<and>
      vreg (vcpus u ! vc) = (vreg (vcpus s ! vc))\<lparr>gpr := (gpr (vreg (vcpus s ! vc)))[0 := 0]\<rparr> \<and>
      (\<forall>i < length (vcpus s). i \<noteq> vc \<longrightarrow> i \<noteq> t \<longrightarrow> vcpus u ! i = vcpus s ! i) \<and> mem u = mem s
    else (ucast (dev s (es @ trace s) smc) :: i32) \<noteq> 0 \<longrightarrow> (\<exists>e. lower_el_sync_handler s = Inl e)"
proof -
  let ?s = "s\<lparr>trace := es @ trace s\<rparr>"
  have vc: "vc < length (vcpus s)" "length (gpr (vreg (vcpus s ! vc))) = 31"
    using v by (simp_all add: on_vcpu_def)
  have k: "unat (of_nat k :: u64) = k"
    using t by (simp add: unat_of_nat)
  have on: "psci_cpu_on vc (of_nat k) entry x3 ?s = Inr (sint (dev s (es @ trace s) smc),
      (made_ready t entry ?s)\<lparr>trace := Rd smc # es @ trace s\<rparr>)" for x3
    using psci_cpu_on_run [of vc ?s w "of_nat k" t entry x3] vc vm t k smc by simp
  have fid: "(zext64 PSCI_CPU_ON_SMC64) AND zext64 (NOT SMCC_FID_FN_NUM_MSK) = SMCC64_FID_STD_SRVC"
    "is_psci_fid (zext64 PSCI_CPU_ON_SMC64)" "ucast (zext64 PSCI_CPU_ON_SMC64) = PSCI_CPU_ON_SMC64"
    "PSCI_CPU_ON_SMC64 \<noteq> PSCI_VERSION"
    by (simp_all add: PSCI_CPU_ON_SMC64_def SMCC_FID_FN_NUM_MSK_def SMCC64_FID_STD_SRVC_def is_psci_fid_def
      is_smc_stdsrvc_fid_def is_smc64_stdsrvc_fid_def SMC_FID_MASK_def PSCI_VERSION_def)
  have std: "standard_service_call vc ?s = Inr (sint (dev s (es @ trace s) smc),
      (made_ready t entry ?s)\<lparr>trace := Rd smc # es @ trace s\<rparr>)"
    using vc x fid on by (simp add: standard_service_call_def run psci_handler_def)
  let ?r = "dev s (es @ trace s) smc" and ?p = "Panic ''[lower_el_sync_handler]: sync trap handler failed''"
  let ?u = "(made_ready t entry ?s)\<lparr>trace := Rd smc # es @ trace s\<rparr>"
  let ?w = "?u\<lparr>vcpus := (vcpus ?u)[vc := vreg_update (gpr_update (\<lambda>x. x[0 := of_int (sint ?r)])) (vcpus ?u ! vc)]\<rparr>"
  have low: "(scast ?r :: i32) = ucast ?r"
    by (rule bit_word_eqI) (auto simp: bit_simps)
  have "hvc_handler vc esr ?s = Inr (sint (ucast ?r :: i32), ?w)"
    using vc x fid std by (simp add: hvc_handler_def syscall_handler_def run made_ready_def low)
  then have l: "lower_el_sync_handler s =
      (if sint (ucast ?r :: i32) \<noteq> 0 then mthen vm_reg_dump (mfail ?p) ?w else Inr ((), ?w))"
    using sync_handler_reads [OF v esr(1)] hvc_is_handled [OF esr(2)] es by (simp add: run)
  show ?thesis
  proof (cases "?r = 0")
    case True
    with l have "lower_el_sync_handler s = Inr ((), ?w)" by simp
    with True vc t show ?thesis by (auto simp: made_ready_def nth_list_update)
  next
    case False
    have "\<exists>e. mthen vm_reg_dump (mfail ?p) ?w = Inl e"
      by (auto simp: run split: sum.splits)
    with l False show ?thesis by (auto simp: signed_eq_0_iff)
  qed
qed


text \<open>A guest with two vcpus that starts the second one.\<close>

definition calling0 :: hyp where
  "calling0 = guest0\<lparr>dev := (\<lambda>_ l. case l of Sysreg c r \<Rightarrow>
     if r = ''tpidr_el2'' then 0x40100000 else if r = ''esr_el2'' then 0x5a000000 else 0 | _ \<Rightarrow> 0),
     vcpus := [vcpu0\<lparr>vcpu_vm := Some 0, vreg := (vreg vcpu0)\<lparr>gpr := [0xc4000003, 1, 0x40000000] @ replicate 28 0\<rparr>\<rparr>,
       vcpu0\<lparr>vcpu_vm := Some 0\<rparr>],
     g_vms := [vm0\<lparr>vm_vcpus := [Some 0, Some 1]\<rparr>]\<rparr>"

theorem hvc_cpu_on_witness:
  "on_vcpu calling0 0 \<and> (\<exists>u. lower_el_sync_handler calling0 = Inr ((), u) \<and> vstate (vcpus u ! 1) = READY \<and>
     elr_el2 (vreg (vcpus u ! 1)) = 0x40000000)"
proof -
  have v: "on_vcpu calling0 0"
    by (simp add: on_vcpu_def calling0_def vcpu_ptr_def guest0_def hyp0_defs image0_def VCPU_MAX_def)
  have esr: "stable_reg calling0 ''esr_el2'' 0x5a000000" "esr_class 0x5a000000 = ESR_EC_HVC64"
    by (simp_all add: stable_reg_def calling0_def esr_class_def ESR_EC_MASK_def ESR_EC_HVC64_def)
  have x: "gpr (vreg (vcpus calling0 ! 0)) ! 0 = ucast PSCI_CPU_ON_SMC64"
    "gpr (vreg (vcpus calling0 ! 0)) ! 1 = of_nat 1" "gpr (vreg (vcpus calling0 ! 0)) ! 2 = 0x40000000"
    by (simp_all add: calling0_def PSCI_CPU_ON_SMC64_def)
  have vm: "vcpu_vm (vcpus calling0 ! 0) = Some 0" "0 < length (g_vms calling0)"
    and t: "1 < length (vm_vcpus (g_vms calling0 ! 0))" "length (vm_vcpus (g_vms calling0 ! 0)) < 2 ^ 64"
      "vm_vcpus (g_vms calling0 ! 0) ! 1 = Some 1" "1 < length (vcpus calling0)" "1 \<noteq> (0 :: nat)"
    by (simp_all add: calling0_def)
  have "dev calling0 t (Smc f a b c) = 0" for t f a b c
    by (simp add: calling0_def)
  with hvc_cpu_on [OF v esr x vm t refl refl] v show ?thesis by auto
qed

text \<open>
  C31. The functions \<open>PSCI_VERSION\<close> and \<open>PSCI_FEATURES\<close>, which \<open>psci_handler\<close> implements, cannot be
  called: their numbers are those of the 32-bit calling convention, and a hypervisor call with such a
  number stops the hypervisor before \<open>psci_handler\<close> is reached.
\<close>

theorem hvc_psci_version_unreachable:
  assumes "vc < length (vcpus s)" and "0 < length (gpr (vreg (vcpus s ! vc)))"
    and "gpr (vreg (vcpus s ! vc)) ! 0 \<in> {ucast PSCI_VERSION, ucast PSCI_FEATURES}"
  shows "hvc_handler vc esr s = Inl (Panic ''Unknown/Unsupported system monitor call fid'') \<and>
    psci_handler vc PSCI_VERSION x1 x2 x3 s = Inr (PSCI_VERSION_0_2, s) \<and>
    psci_handler vc PSCI_FEATURES (ucast PSCI_VERSION) x2 x3 s = Inr (PSCI_E_SUCCESS, s)"
proof -
  have "zext64 f AND zext64 (NOT SMCC_FID_FN_NUM_MSK) \<noteq> SMCC64_FID_STD_SRVC" if "f \<in> {PSCI_VERSION, PSCI_FEATURES}" for f
    using that by (auto simp: PSCI_VERSION_def PSCI_FEATURES_def SMCC_FID_FN_NUM_MSK_def SMCC64_FID_STD_SRVC_def)
  with assms have "hvc_handler vc esr s = Inl (Panic ''Unknown/Unsupported system monitor call fid'')"
    by (auto simp: hvc_handler_def syscall_handler_def run)
  moreover have "ucast (zext64 PSCI_VERSION) = PSCI_VERSION" "PSCI_FEATURES \<noteq> PSCI_VERSION" "PSCI_FEATURES \<noteq> PSCI_CPU_ON_SMC64"
    by (simp_all add: PSCI_VERSION_def PSCI_FEATURES_def PSCI_CPU_ON_SMC64_def)
  ultimately show ?thesis
    by (simp add: psci_handler_def run psci_features_handler_def)
qed

theorem hvc_psci_version_unreachable_witness:
  "\<exists>s. gpr (vreg (vcpus s ! 0)) ! 0 = ucast PSCI_VERSION \<and>
     hvc_handler 0 0x5a000000 s = Inl (Panic ''Unknown/Unsupported system monitor call fid'')"
proof -
  let ?s = "guest0\<lparr>vcpus := [vcpu0\<lparr>vreg := (vreg vcpu0)\<lparr>gpr := [ucast PSCI_VERSION]\<rparr>\<rparr>]\<rparr>"
  show ?thesis
    using hvc_psci_version_unreachable [of 0 ?s "0x5a000000" 0 0 0] by (intro exI [of _ ?s]) simp
qed

section \<open>Interrupts of the hypervisor itself\<close>

lemma el2_irq_handler_run:
  "\<exists>es rs irq. el2_irq_handler s = Inr ((), s\<lparr>trace := Wr (Sysreg (pcpu s) ''icc_eoir1_el1'') irq #
     es @ Rd (Sysreg (pcpu s) ''icc_iar1_el1'') # rs @ trace s\<rparr>) \<and> set rs \<subseteq> range Rd \<and>
     irq = sysreg_at s (rs @ trace s) ''icc_iar1_el1''"
proof -
  let ?rs = "map (\<lambda>r. Rd (Sysreg (pcpu s) r)) [''spsr_el2'', ''esr_el2'', ''elr_el2'', ''far_el2'']"
  let ?irq = "sysreg_at s (?rs @ trace s) ''icc_iar1_el1''"
  let ?t = "s\<lparr>trace := Rd (Sysreg (pcpu s) ''icc_iar1_el1'') # ?rs @ trace s\<rparr>"
  define m :: "u64 \<Rightarrow> unit hcomp" where "m irq =
    (if irq = UART_IRQ then
       mthen uart_get_interrupt_status
       (mthen clear_uart_interrupt (mthen uart_get_interrupt_status (mret ())))
     else if irq = ucast PHYSICAL_TIMER_IRQ then
       mthen disable_timer (mthen reload_timer enable_timer)
     else mret ())" for irq
  have "\<exists>es. m irq u = Inr ((), u\<lparr>trace := es @ trace u\<rparr>)" for irq u
    by (auto simp: m_def run uart_get_interrupt_status_def clear_uart_interrupt_def uart_r_def uart_w_def disable_timer_def
      reload_timer_def enable_timer_def intro: exI [of _ "[]"] exI [of _ "[_, _, _]"] exI [of _ "[_, _, _, _, _]"])
  from this [of ?irq ?t] obtain es where e: "m ?irq ?t = Inr ((), s\<lparr>trace := es @ Rd (Sysreg (pcpu s) ''icc_iar1_el1'') # ?rs @ trace s\<rparr>)"
    by auto
  have h: "el2_irq_handler =
     mthen (mfor [''far_el2'', ''elr_el2'', ''esr_el2'', ''spsr_el2''] (\<lambda>r. mthen (read_sysreg r) (mret ())))
     (mbind (read_sysreg ''icc_iar1_el1'') (\<lambda>irq. mthen (m irq) (write_sysreg ''icc_eoir1_el1'' irq)))"
    by (simp only: el2_irq_handler_def m_def)
  have "el2_irq_handler s = Inr ((), s\<lparr>trace := Wr (Sysreg (pcpu s) ''icc_eoir1_el1'') ?irq #
     es @ Rd (Sysreg (pcpu s) ''icc_iar1_el1'') # ?rs @ trace s\<rparr>)"
    unfolding h using e by (simp add: run)
  then show ?thesis
    by (intro exI [of _ es] exI [of _ ?rs] exI [of _ ?irq]) simp
qed

text \<open>
  The frame of the hypervisor is out of reach of the C code that is called below it.
\<close>

lemma frame_clobber:
  assumes "256 + cf_size f < 2 ^ 64"
  shows "a \<in> span (stack_word sp 32) 256 \<Longrightarrow> clobber (stack_word sp 32) f m a = m a"
    and "a \<notin> span (stack_word sp 32 - of_nat (cf_size f)) (256 + cf_size f) \<Longrightarrow>
      clobber (stack_word sp 32) f m a = m a \<and> a \<notin> span (stack_word sp 32) 256"
proof -
  let ?b = "stack_word sp 32"
  have e: "a - (?b - of_nat (cf_size f)) = (a - ?b) + of_nat (cf_size f)" by simp
  have u: "unat (a - (?b - of_nat (cf_size f))) = unat (a - ?b) + cf_size f" if "unat (a - ?b) < 256"
    using unat_offset [OF e] that assms by simp
  then show "clobber ?b f m a = m a" if "a \<in> span ?b 256" using that by (simp add: clobber_def)
  show "clobber ?b f m a = m a \<and> a \<notin> span ?b 256" if "a \<notin> span (?b - of_nat (cf_size f)) (256 + cf_size f)"
    using that u by (auto simp: clobber_def)
qed

lemma frame_cong: "frame m sp 31 xs \<Longrightarrow> (\<And>a. a \<in> span (stack_word sp 32) 256 \<Longrightarrow> m' a = m a) \<Longrightarrow> frame m' sp 31 xs"
  unfolding frame_def
proof (intro allI impI)
  fix i :: nat
  assume f: "\<forall>i < 31. rd64 m (stack_word sp (Suc i)) = xs ! i" and i: "i < 31"
    and e: "\<And>a. a \<in> span (stack_word sp 32) 256 \<Longrightarrow> m' a = m a"
  have "rd64 m' (stack_word sp (Suc i)) = rd64 m (stack_word sp (Suc i))"
  proof (rule rd_le_cong)
    fix k :: nat
    assume "k < 8"
    then have "unat (stack_word sp (Suc i) + of_nat k - stack_word sp 32) < 256"
      using i unat_offset [of "stack_word sp (Suc i) + of_nat k - stack_word sp 32" 0 "8 * (31 - i) + k"]
      by (simp add: stack_word_def of_nat_diff)
    then show "m' (stack_word sp (Suc i) + of_nat k) = m (stack_word sp (Suc i) + of_nat k)" by (intro e) simp
  qed
  with f i show "rd64 m' (stack_word sp (Suc i)) = xs ! i" by simp
qed



end
