(* ===== verification/Disk.thy ===== *)
theory Disk
  imports Virtio Context
begin

text \<open>
  What the emulated disk of \<open>src/virtio_dev.c\<close> and \<open>src/ramdisk.c\<close> does for a guest: the blocks of
  the disk, one request, and the loop that serves all requests that the guest has made available.
\<close>

section \<open>Blocks\<close>

definition disk_block :: "hyp \<Rightarrow> u64 \<Rightarrow> u64" where
  "disk_block s blk = ramdisk_start s + blk * BLOCK_SIZE"

text \<open>A kilobyte of memory that does not wrap around.\<close>

definition block_ok :: "hyp \<Rightarrow> u64 \<Rightarrow> bool" where
  "block_ok s a \<longleftrightarrow> all_backed s a 1024 \<and> unat a + 1024 \<le> 2 ^ 64"

lemma ramdisk_rw_run:
  assumes "blk < FSIMG_SIZE" and "block_ok s buf" and "block_ok s (disk_block s blk)"
  shows "ramdisk_rw blk buf w s = Inr (0, s\<lparr>mem :=
    (if w \<noteq> 0 then copied (mem s) (disk_block s blk) buf 1024 else copied (mem s) buf (disk_block s blk) 1024)\<rparr>)"
  using assms memmove_run [of s buf BLOCK_SIZE "disk_block s blk"] memmove_run [of s "disk_block s blk" BLOCK_SIZE buf]
  by (simp add: ramdisk_rw_def run disk_block_def block_ok_def BLOCK_SIZE_def not_le)

lemma ramdisk_rw_error: "FSIMG_SIZE \<le> blk \<Longrightarrow> ramdisk_rw blk buf w s = Inr (-1, s)"
  by (simp add: ramdisk_rw_def run)

lemma block_ok_update [simp]:
  "block_ok (s\<lparr>mem := m\<rparr>) = block_ok s" "disk_block (s\<lparr>mem := m\<rparr>) = disk_block s"
  "block_ok (s\<lparr>trace := t\<rparr>) = block_ok s" "disk_block (s\<lparr>trace := t\<rparr>) = disk_block s"
  by (simp_all add: block_ok_def disk_block_def fun_eq_iff)

text \<open>
  C23. What is written to a block of the disk is read back from it: writing a block from one buffer
  and then reading it into another leaves the contents of the first in the second, and changes
  nothing but the block and the second buffer.
\<close>

theorem ramdisk_roundtrip:
  assumes "blk < FSIMG_SIZE" and "block_ok s src" and "block_ok s dst" and "block_ok s (disk_block s blk)"
  shows "wp (mthen (ramdisk_rw blk src 1) (ramdisk_rw blk dst 0)) (\<lambda>r t. r = 0 \<and>
    (\<forall>i < 1024. mem t (dst + of_nat i) = mem s (src + of_nat i)) \<and>
    (\<forall>a. a \<notin> span dst 1024 \<longrightarrow> a \<notin> span (disk_block s blk) 1024 \<longrightarrow> mem t a = mem s a)) s"
proof -
  let ?d = "disk_block s blk" and ?m = "copied (copied (mem s) (disk_block s blk) src 1024) dst (disk_block s blk) 1024"
  have "?m (dst + of_nat i) = mem s (src + of_nat i)" if "i < 1024" for i
    using that by (simp add: copied_def unat_of_nat)
  moreover have "?m a = mem s a" if "a \<notin> span dst 1024" "a \<notin> span ?d 1024" for a
    using that by (simp add: copied_def)
  moreover have "mthen (ramdisk_rw blk src 1) (ramdisk_rw blk dst 0) s = Inr (0, s\<lparr>mem := ?m\<rparr>)"
    using assms by (simp add: run ramdisk_rw_run)
  ultimately show ?thesis
    by (simp only: wp_def) simp
qed

theorem ramdisk_roundtrip_witness:
  "\<exists>t. mthen (ramdisk_rw 3 0x50000000 1) (ramdisk_rw 3 0x50001000 0)
      (hyp0\<lparr>mem := (\<lambda>a. ucast a), ramdisk_start := 0x60000000\<rparr>) = Inr (0, t) \<and> mem t 0x50001005 = 5"
proof -
  let ?s = "hyp0\<lparr>mem := (\<lambda>a. ucast a), ramdisk_start := 0x60000000\<rparr>"
  have ok: "3 < FSIMG_SIZE" "block_ok ?s 0x50000000" "block_ok ?s 0x50001000" "block_ok ?s (disk_block ?s 3)"
    by (simp_all add: FSIMG_SIZE_def block_ok_def disk_block_def BLOCK_SIZE_def all_backed_def hyp0_defs machine0_def)
  from wp_runD [OF ramdisk_roundtrip [OF ok]] obtain t where
    t: "mthen (ramdisk_rw 3 0x50000000 1) (ramdisk_rw 3 0x50001000 0) ?s = Inr (0, t)"
    "\<forall>i < 1024. mem t (0x50001000 + of_nat i) = mem ?s (0x50000000 + of_nat i)"
    by auto
  have "mem t 0x50001005 = 5"
    using t(2) [rule_format, of 5] by simp
  with t(1) show ?thesis by blast
qed

section \<open>Addresses of the guest\<close>

text \<open>
  The current vcpu \<open>vc\<close> belongs to a virtual machine with the stage-2 table \<open>root\<close>, one of the
  trees \<open>R\<close> of the hypervisor.
\<close>

definition runs_guest :: "u64 set \<Rightarrow> u64 \<Rightarrow> nat \<Rightarrow> hyp \<Rightarrow> bool" where
  "runs_guest R root vc s \<longleftrightarrow> on_vcpu s vc \<and> pt_inv R s \<and> root \<in> R \<and>
     (\<exists>v. vcpu_vm (vcpus s ! vc) = Some v \<and> v < length (g_vms s) \<and> stage2_pt (g_vms s ! v) = root)"

abbreviation tpidr :: "hyp \<Rightarrow> io" where
  "tpidr s \<equiv> Rd (Sysreg (pcpu s) ''tpidr_el2'')"

lemma guest_to_host_run:
  assumes "runs_guest R root vc s"
  shows "virtio_guest_to_host ipa s = Inr (gpa (mem s) root ipa, s\<lparr>trace := tpidr s # trace s\<rparr>)"
proof -
  obtain v where v: "on_vcpu s vc" "pt_inv R s" "root \<in> R"
    "vcpu_vm (vcpus s ! vc) = Some v" "v < length (g_vms s)" "stage2_pt (g_vms s ! v) = root"
    using assms unfolding runs_guest_def by blast
  have "pt_inv R (s\<lparr>trace := tpidr s # trace s\<rparr>)"
    using v(2) by (simp add: pt_inv_def page_addrs_def free_addrs_def)
  from ipa2pa_run [OF this v(3), of ipa] v(1) show ?thesis
    using vcpu_of_ptr_at [of vc s] v
    by (simp add: virtio_guest_to_host_def cur_vcpu_def run vm_of_def on_vcpu_def gpa_def)
qed

text \<open>Writing outside the tables of the hypervisor keeps all translations.\<close>

lemma runs_guest_write:
  assumes g: "runs_guest R root vc s"
    and same: "\<And>t b. t \<in> tables (mem s) R \<Longrightarrow> b \<in> span t 4096 \<Longrightarrow> m b = mem s b"
  shows "runs_guest R root vc (s\<lparr>mem := m\<rparr>)" and "gpa m root = gpa (mem s) root"
proof -
  have p: "pt_inv R s" "root \<in> R" using g by (simp_all add: runs_guest_def)
  have w: "pt_inv R (s\<lparr>mem := m\<rparr>)" "same_leaves R (mem s) m" "missing m root V = missing (mem s) root V" for V
    using data_write(1,2,4) [OF p(1), of m] same p(2) by blast+
  show "runs_guest R root vc (s\<lparr>mem := m\<rparr>)"
    using g w(1) by (simp add: runs_guest_def on_vcpu_def)
  have "leaf m root va = leaf (mem s) root va" for va
    using w(2) p(2) by (simp add: same_leaves_def)
  moreover have "tbl m root va 3 = None \<longleftrightarrow> tbl (mem s) root va 3 = None" for va
  proof -
    have "tbl n root va 3 = None \<longleftrightarrow> (3, idx 3 va) \<in> missing n root {va}" for n
      by (auto simp: missing_def)
    with w(3) [of "{va}"] show ?thesis by simp
  qed
  ultimately show "gpa m root = gpa (mem s) root"
    by (simp add: gpa_def fun_eq_iff)
qed

lemma runs_guest_trace [simp]: "runs_guest R root vc (s\<lparr>trace := t\<rparr>) = runs_guest R root vc s"
  by (simp add: runs_guest_def on_vcpu_def pt_inv_def page_addrs_def free_addrs_def)


section \<open>Chains of descriptors\<close>

definition vmax :: "virt_queue \<Rightarrow> u16" where
  "vmax q = ucast (vring_num q)"

definition desc_at :: "memory \<Rightarrow> virt_queue \<Rightarrow> u16 \<Rightarrow> virtq_desc" where
  "desc_at m q i = (let p = desc_ptr (vq_desc q) i in
     \<lparr>desc_addr = rd64 m p, desc_len = rd_le 4 m (p + 8), desc_flags = rd_le 2 m (p + 12), desc_next = rd_le 2 m (p + 14)\<rparr>)"

definition link_of :: "memory \<Rightarrow> virt_queue \<Rightarrow> u16 \<Rightarrow> u16" where
  "link_of m q i = (let d = desc_at m q i in
     if desc_flags d AND VRING_DESC_F_NEXT \<noteq> 0 \<and> desc_next d < vmax q then desc_next d else vmax q)"

text \<open>The descriptors of a chain that starts at \<open>i\<close>.\<close>

fun links_to :: "memory \<Rightarrow> virt_queue \<Rightarrow> u16 \<Rightarrow> u16 list \<Rightarrow> bool" where
  "links_to m q i [] \<longleftrightarrow> link_of m q i = vmax q"
| "links_to m q i (j # js) \<longleftrightarrow> link_of m q i = j \<and> j \<noteq> vmax q \<and> links_to m q j js"

definition desc_backed :: "hyp \<Rightarrow> u16 \<Rightarrow> bool" where
  "desc_backed s i \<longleftrightarrow> all_backed s (desc_ptr (vq_desc (g_vq s)) i) 16"

lemma desc_step_run:
  assumes "desc_backed s i"
  shows "ld_desc (desc_ptr (vq_desc (g_vq s)) i) s = Inr (desc_at (mem s) (g_vq s) i, s)"
    and "next_desc (vq_desc (g_vq s)) i (vmax (g_vq s)) s = Inr (link_of (mem s) (g_vq s) i, s)"
proof -
  let ?p = "desc_ptr (vq_desc (g_vq s)) i"
  have "all_backed s ?p 8" "all_backed s (?p + 8) 4" "all_backed s (?p + 12) 2" "all_backed s (?p + 14) 2"
    using assms all_backed_sub [of s ?p 16 ?p 0 8] all_backed_sub [of s ?p 16 "?p + 8" 8 4]
      all_backed_sub [of s ?p 16 "?p + 12" 12 2] all_backed_sub [of s ?p 16 "?p + 14" 14 2]
    by (simp_all add: desc_backed_def)
  then show "ld_desc ?p s = Inr (desc_at (mem s) (g_vq s) i, s)"
    "next_desc (vq_desc (g_vq s)) i (vmax (g_vq s)) s = Inr (link_of (mem s) (g_vq s) i, s)"
    by (simp_all add: ld_desc_def next_desc_def virt_desc_test_flag_def run desc_at_def link_of_def Let_def)
qed

lemma desc_chain_run:
  assumes "links_to (mem s) (g_vq s) i js" and "\<forall>j \<in> set (i # js). desc_backed s j"
    and "length ds + Suc (length js) \<le> unat (vring_num (g_vq s))" and "length js < n"
  shows "desc_chain n (vmax (g_vq s)) i ds s = Inr (ds @ map (desc_at (mem s) (g_vq s)) (i # js), s)"
  using assms
proof (induction js arbitrary: n i ds)
  case Nil
  then obtain k where "n = Suc k" by (cases n) simp_all
  with Nil show ?case by (simp add: run desc_step_run)
next
  case (Cons j js)
  then obtain k where k: "n = Suc k" by (cases n) simp_all
  have "desc_chain k (vmax (g_vq s)) j (ds @ [desc_at (mem s) (g_vq s) i]) s =
      Inr ((ds @ [desc_at (mem s) (g_vq s) i]) @ map (desc_at (mem s) (g_vq s)) (j # js), s)"
    using Cons.prems k by (intro Cons.IH) auto
  with Cons.prems k show ?case by (simp add: run desc_step_run)
qed


section \<open>One request\<close>

record blk_req =
  req_write :: bool
  req_blk :: u64
  req_buf :: u64
  req_status :: u64

text \<open>The request of a chain of three descriptors: the header, the buffer, and the status byte.\<close>

definition req_header :: "memory \<Rightarrow> u64 \<Rightarrow> virt_queue \<Rightarrow> u16 \<Rightarrow> u64" where
  "req_header m root q h = gpa m root (desc_addr (desc_at m q h))"

definition request_of :: "memory \<Rightarrow> u64 \<Rightarrow> virt_queue \<Rightarrow> u16 \<Rightarrow> u16 \<Rightarrow> u16 \<Rightarrow> blk_req" where
  "request_of m root q h i j = (let hdr = req_header m root q h in
     \<lparr>req_write = ((rd_le 4 m hdr :: u32) = VIRTIO_BLK_T_OUT), req_blk = rd64 m (hdr + 8) div 2,
      req_buf = gpa m root (desc_addr (desc_at m q i)), req_status = gpa m root (desc_addr (desc_at m q j))\<rparr>)"

text \<open>The memory after the block has been moved, and after the status has been set.\<close>

definition moved :: "hyp \<Rightarrow> blk_req \<Rightarrow> memory \<Rightarrow> memory" where
  "moved s r m =
     (if FSIMG_SIZE \<le> req_blk r then m
      else if req_write r then copied m (disk_block s (req_blk r)) (req_buf r) 1024
      else copied m (req_buf r) (disk_block s (req_blk r)) 1024)"

definition served :: "hyp \<Rightarrow> blk_req \<Rightarrow> memory \<Rightarrow> memory" where
  "served s r m = (moved s r m)(req_status r := if FSIMG_SIZE \<le> req_blk r then 0xee else 0)"

definition req_target :: "hyp \<Rightarrow> blk_req \<Rightarrow> u64 set" where
  "req_target s r =
     (if FSIMG_SIZE \<le> req_blk r then {}
      else span (if req_write r then disk_block s (req_blk r) else req_buf r) 1024)"

lemma moved_outside: "a \<notin> req_target s r \<Longrightarrow> moved s r m a = m a"
  by (auto simp: moved_def req_target_def copied_def split: if_splits)

text \<open>
  A well-formed request of a guest: three descriptors in memory, a header, and buffers, block
  and status byte in memory. What is written does not overlap the tables of the hypervisor.
\<close>

definition req_ok :: "u64 set \<Rightarrow> u64 \<Rightarrow> hyp \<Rightarrow> u16 \<Rightarrow> u16 \<Rightarrow> u16 \<Rightarrow> bool" where
  "req_ok R root s h i j \<longleftrightarrow> (let q = g_vq s; r = request_of (mem s) root q h i j in
     links_to (mem s) q h [i, j] \<and> 3 \<le> unat (vring_num q) \<and>
     desc_backed s h \<and> desc_backed s i \<and> desc_backed s j \<and> all_backed s (req_header (mem s) root q h) 16 \<and>
     (req_blk r < FSIMG_SIZE \<longrightarrow> block_ok s (req_buf r) \<and> block_ok s (disk_block s (req_blk r))) \<and>
     backed s (req_status r) \<and>
     (\<forall>t \<in> tables (mem s) R. span t 4096 \<inter> req_target s r = {}))"

lemma virtio_blk_process_desc_run:
  assumes g: "runs_guest R root vc s" and ok: "req_ok R root s h i j"
  shows "virtio_blk_process_desc h s = Inr (3, s\<lparr>trace := [tpidr s, tpidr s, tpidr s] @ trace s,
    mem := served s (request_of (mem s) root (g_vq s) h i j) (mem s)\<rparr>)"
proof -
  let ?q = "g_vq s" and ?r = "request_of (mem s) root (g_vq s) h i j" and ?hdr = "req_header (mem s) root (g_vq s) h"
  let ?w = "if req_write ?r then 1 else 0 :: u16"
  have chain: "links_to (mem s) ?q h [i, j]" "3 \<le> unat (vring_num ?q)"
    and db: "desc_backed s h" "desc_backed s i" "desc_backed s j"
    and hb: "all_backed s ?hdr 16" and sb: "backed s (req_status ?r)"
    and blk: "req_blk ?r < FSIMG_SIZE \<longrightarrow> block_ok s (req_buf ?r) \<and> block_ok s (disk_block s (req_blk ?r))"
    and out: "\<forall>t \<in> tables (mem s) R. span t 4096 \<inter> req_target s ?r = {}"
    using ok unfolding req_ok_def Let_def by blast+
  have c: "desc_chain (chain_fuel ?q) (ucast (vring_num ?q)) h [] s = Inr (map (desc_at (mem s) ?q) [h, i, j], s)"
    using desc_chain_run [OF chain(1), of "[]" "chain_fuel ?q"] chain(2) db by (simp add: vmax_def chain_fuel_def)
  have h8: "all_backed s (?hdr + 8) 8" "all_backed s ?hdr 4"
    using all_backed_sub [OF hb, of "?hdr + 8" 8 8] all_backed_sub [OF hb, of ?hdr 0 4] by simp_all
  have b2: "BLOCK_SIZE div 512 = 2"
    by (simp add: BLOCK_SIZE_def)
  have rw: "ramdisk_rw (req_blk ?r) (req_buf ?r) ?w (s\<lparr>trace := t\<rparr>) =
      Inr (if FSIMG_SIZE \<le> req_blk ?r then -1 else 0, s\<lparr>trace := t, mem := moved s ?r (mem s)\<rparr>)" for t
    using blk ramdisk_rw_error [of "req_blk ?r"] ramdisk_rw_run [of "req_blk ?r" "s\<lparr>trace := t\<rparr>" "req_buf ?r" ?w]
    by (cases "FSIMG_SIZE \<le> req_blk ?r") (simp_all add: moved_def not_le)
  have g': "runs_guest R root vc (s\<lparr>mem := moved s ?r (mem s)\<rparr>)" "gpa (moved s ?r (mem s)) root = gpa (mem s) root"
    using runs_guest_write [OF g, of "moved s ?r (mem s)"] moved_outside [of _ s ?r "mem s"] out by blast+
  have g'': "runs_guest R root vc (s\<lparr>trace := t, mem := moved s ?r (mem s)\<rparr>)" for t
    using g'(1) by (simp add: runs_guest_def on_vcpu_def pt_inv_def page_addrs_def free_addrs_def)
  let ?dh = "desc_at (mem s) ?q h" and ?di = "desc_at (mem s) ?q i" and ?dj = "desc_at (mem s) ?q j"
  have f: "gpa (mem s) root (desc_addr ?dh) = ?hdr" "gpa (mem s) root (desc_addr ?di) = req_buf ?r"
    "gpa (mem s) root (desc_addr ?dj) = req_status ?r" "rd64 (mem s) (?hdr + 8) div 2 = req_blk ?r"
    "(if (rd_le 4 (mem s) ?hdr :: u32) = VIRTIO_BLK_T_OUT then 1 else 0) = ?w"
    by (simp_all add: request_of_def req_header_def Let_def)
  note gr = guest_to_host_run [where R = R and root = root and vc = vc]
  have l: "length (map (desc_at (mem s) ?q) [h, i, j]) = 3" "map (desc_at (mem s) ?q) [h, i, j] ! 0 = ?dh"
    "map (desc_at (mem s) ?q) [h, i, j] ! 1 = ?di" "map (desc_at (mem s) ?q) [h, i, j] ! 2 = ?dj"
    by simp_all
  show ?thesis
    unfolding virtio_blk_process_desc_def Let_def b2
    using g g'' sb
    by (simp add: run c l gr f h8 rw g' served_def del: list.map)
qed


section \<open>The ring of used chains\<close>

definition used_area :: "virt_queue \<Rightarrow> u64 set" where
  "used_area q = span (vq_used q) (4 + 8 * unat (vring_num q))"

definition used_slot :: "virt_queue \<Rightarrow> u16 \<Rightarrow> u64" where
  "used_slot q u = used_ring_ptr (vq_used q) (ucast u mod vring_num q)"

text \<open>The memory after a chain has been put into the ring of used chains with length 3.\<close>

definition complete :: "virt_queue \<Rightarrow> u16 \<Rightarrow> memory \<Rightarrow> memory" where
  "complete q h m = (let u = rd_le 2 m (used_idx_ptr (vq_used q)) :: u16; p = used_slot q u in
     wr_le 2 (wr_le 4 (wr_le 4 m p (ucast h :: u32)) (p + 4) (3 :: u32)) (used_idx_ptr (vq_used q)) (u + 1))"

definition used_ok :: "hyp \<Rightarrow> bool" where
  "used_ok s \<longleftrightarrow> (let q = g_vq s in vring_num q \<noteq> 0 \<and> unat (vring_num q) \<le> 2 ^ 16 \<and>
     all_backed s (vq_used q) (4 + 8 * unat (vring_num q)))"

lemma used_slot_offset:
  assumes "vring_num q \<noteq> 0" and "unat (vring_num q) \<le> 2 ^ 16"
  obtains k where "k < unat (vring_num q)" and "used_slot q u = vq_used q + of_nat (4 + 8 * k)"
proof -
  let ?k = "(ucast u :: u64) mod vring_num q"
  have "unat ?k < unat (vring_num q)"
    using assms(1) by (simp add: unat_mod_distrib unat_gt_0)
  moreover have "used_slot q u = vq_used q + of_nat (4 + 8 * unat ?k)"
    by (simp add: used_slot_def used_ring_ptr_def)
  ultimately show thesis by (rule that)
qed

lemma used_spans:
  assumes "vring_num q \<noteq> 0" and "unat (vring_num q) \<le> 2 ^ 16"
  shows "span (used_slot q u) 4 \<subseteq> used_area q" "span (used_slot q u + 4) 4 \<subseteq> used_area q"
    "span (used_idx_ptr (vq_used q)) 2 \<subseteq> used_area q"
    "span (used_idx_ptr (vq_used q)) 2 \<inter> span (used_slot q u) 4 = {}"
    "span (used_idx_ptr (vq_used q)) 2 \<inter> span (used_slot q u + 4) 4 = {}"
proof -
  obtain k where k: "k < unat (vring_num q)" "used_slot q u = vq_used q + of_nat (4 + 8 * k)"
    by (rule used_slot_offset [OF assms])
  have p: "vq_used q + of_nat (4 + 8 * k) + 4 = vq_used q + of_nat (8 + 8 * k)" "used_idx_ptr (vq_used q) = vq_used q + of_nat 2"
    by (simp_all add: used_idx_ptr_def)
  have b: "4 + 8 * k + 4 \<le> 2 ^ 64" "8 + 8 * k + 4 \<le> 2 ^ 64" "2 + 2 \<le> (2 :: nat) ^ 64"
    using k assms(2) by simp_all
  note o = span_offset [OF b(1), unfolded mem_span] span_offset [OF b(2), unfolded mem_span] span_offset [OF b(3), unfolded mem_span]
  show "span (used_slot q u) 4 \<subseteq> used_area q" "span (used_slot q u + 4) 4 \<subseteq> used_area q"
    "span (used_idx_ptr (vq_used q)) 2 \<subseteq> used_area q"
    "span (used_idx_ptr (vq_used q)) 2 \<inter> span (used_slot q u) 4 = {}"
    "span (used_idx_ptr (vq_used q)) 2 \<inter> span (used_slot q u + 4) 4 = {}"
    unfolding used_area_def p k(2) using k(1) by (auto simp only: mem_span o Int_iff)
qed


lemma complete_outside:
  assumes "vring_num q \<noteq> 0" and "unat (vring_num q) \<le> 2 ^ 16" and "a \<notin> used_area q"
  shows "complete q h m a = m a"
proof -
  let ?u = "rd_le 2 m (used_idx_ptr (vq_used q)) :: u16"
  have "a \<notin> span (used_slot q ?u) 4" "a \<notin> span (used_slot q ?u + 4) 4" "a \<notin> span (used_idx_ptr (vq_used q)) 2"
    using assms(3) used_spans [OF assms(1,2)] by blast+
  then show ?thesis by (simp add: complete_def Let_def wr_le_apply)
qed

lemma complete_idx:
  "(rd_le 2 (complete q h m) (used_idx_ptr (vq_used q)) :: u16) = rd_le 2 m (used_idx_ptr (vq_used q)) + 1"
  by (simp add: complete_def Let_def rd_wr_le_same)

lemma set_used_elem_run:
  assumes "used_ok s"
  shows "vqueue_set_used_elem h 3 s = Inr ((), s\<lparr>mem := complete (g_vq s) h (mem s),
    trace := Instr ''dmb ish'' # Instr ''dmb ish'' # trace s\<rparr>)"
proof -
  let ?q = "g_vq s" and ?i = "used_idx_ptr (vq_used (g_vq s))"
  let ?u = "rd_le 2 (mem s) ?i :: u16"
  let ?p = "used_slot ?q ?u"
  have q: "vring_num ?q \<noteq> 0" "unat (vring_num ?q) \<le> 2 ^ 16" and b: "all_backed s (vq_used ?q) (4 + 8 * unat (vring_num ?q))"
    using assms by (simp_all add: used_ok_def Let_def)
  note sp = used_spans [OF q]
  obtain k where k: "k < unat (vring_num ?q)" "?p = vq_used ?q + of_nat (4 + 8 * k)"
    by (rule used_slot_offset [OF q])
  have bk: "all_backed s ?p 4" "all_backed s (?p + 4) 4" "all_backed s ?i 2"
    using all_backed_sub [OF b, of ?p "4 + 8 * k" 4] all_backed_sub [OF b, of "?p + 4" "8 + 8 * k" 4]
      all_backed_sub [OF b, of ?i 2 2] k by (simp_all add: used_idx_ptr_def)
  have rd: "(rd_le 2 (wr_le 4 m a (v :: u32)) ?i :: u16) = rd_le 2 m ?i" if "a = ?p \<or> a = ?p + 4" for m a v
    using that sp(4,5) [of ?u] by (auto intro!: rd_wr_le_other)
  have e: "used_elem_ptr t = Inr (used_slot (g_vq t) (rd_le 2 (mem t) (used_idx_ptr (vq_used (g_vq t)))), t)"
    if "all_backed t (used_idx_ptr (vq_used (g_vq t))) 2" "vring_num (g_vq t) \<noteq> 0" for t
    using that by (simp add: used_elem_ptr_def run umod_def used_slot_def)
  show ?thesis
    using bk q(1) by (simp add: vqueue_set_used_elem_def run e rd sync_synchronize_def complete_def Let_def)
qed


section \<open>All requests\<close>

text \<open>
  While requests are served, memory changes, events happen and the position in the ring of
  available chains advances. What steers the device is in the addresses \<open>P\<close>, which nobody writes.
\<close>

definition disk_state :: "hyp \<Rightarrow> io list \<Rightarrow> memory \<Rightarrow> spinlock \<Rightarrow> u16 \<Rightarrow> hyp" where
  "disk_state s tr m l a = s\<lparr>trace := tr, mem := m, g_vq := (g_vq s)\<lparr>virtq_lock := l, avail_idx := a\<rparr>\<rparr>"

lemma disk_state_simps [simp]:
  "mem (disk_state s tr m l a) = m" "trace (disk_state s tr m l a) = tr" "backed (disk_state s tr m l a) = backed s"
  "vring_num (g_vq (disk_state s tr m l a)) = vring_num (g_vq s)" "vq_desc (g_vq (disk_state s tr m l a)) = vq_desc (g_vq s)"
  "vq_avail (g_vq (disk_state s tr m l a)) = vq_avail (g_vq s)" "vq_used (g_vq (disk_state s tr m l a)) = vq_used (g_vq s)"
  "avail_idx (g_vq (disk_state s tr m l a)) = a" "virtq_lock (g_vq (disk_state s tr m l a)) = l"
  "pcpu (disk_state s tr m l a) = pcpu s" "poll_bound (disk_state s tr m l a) = poll_bound s"
  "all_backed (disk_state s tr m l a) = all_backed s" "disk_block (disk_state s tr m l a) = disk_block s"
  "block_ok (disk_state s tr m l a) = block_ok s" "desc_backed (disk_state s tr m l a) = desc_backed s"
  "(disk_state s tr m l a)\<lparr>trace := tr', mem := m'\<rparr> = disk_state s tr' m' l a"
  "(disk_state s tr m l a)\<lparr>mem := m', trace := tr'\<rparr> = disk_state s tr' m' l a"
  "served (disk_state s tr m l a) = served s" "req_target (disk_state s tr m l a) = req_target s"
  by (simp_all add: disk_state_def all_backed_def disk_block_def block_ok_def desc_backed_def served_def moved_def
    req_target_def fun_eq_iff)

lemma queue_of_disk_state [simp]:
  "desc_at n (g_vq (disk_state s tr m l a)) = desc_at n (g_vq s)"
  "vmax (g_vq (disk_state s tr m l a)) = vmax (g_vq s)"
  "link_of n (g_vq (disk_state s tr m l a)) = link_of n (g_vq s)"
  "req_header n root (g_vq (disk_state s tr m l a)) = req_header n root (g_vq s)"
  "request_of n root (g_vq (disk_state s tr m l a)) = request_of n root (g_vq s)"
  "complete (g_vq (disk_state s tr m l a)) h n = complete (g_vq s) h n"
  by (simp_all add: desc_at_def vmax_def link_of_def req_header_def request_of_def complete_def used_slot_def fun_eq_iff Let_def)

lemma links_to_disk_state [simp]: "links_to n (g_vq (disk_state s tr m l a)) i js = links_to n (g_vq s) i js"
  by (induction js arbitrary: i) simp_all

lemma runs_guest_disk_state:
  "runs_guest R root vc (disk_state s tr m l a) = runs_guest R root vc (s\<lparr>mem := m\<rparr>)"
  by (simp add: disk_state_def runs_guest_def on_vcpu_def vcpu_ptr_def pt_inv_def page_addrs_def free_addrs_def all_backed_def)

definition agree :: "u64 set \<Rightarrow> memory \<Rightarrow> memory \<Rightarrow> bool" where
  "agree P m m' \<longleftrightarrow> (\<forall>a \<in> P. m' a = m a)"

lemma rd_agree: "agree P m m' \<Longrightarrow> span a k \<subseteq> P \<Longrightarrow> k \<le> 2 ^ 63 \<Longrightarrow> (rd_le k m' a :: 'a::len word) = rd_le k m a"
proof (rule rd_le_cong)
  fix i
  assume a: "agree P m m'" "span a k \<subseteq> P" "k \<le> 2 ^ 63" and "i < k"
  then have "a + of_nat i \<in> span a k"
    by (simp add: unat_of_nat)
  with a(2) have "a + of_nat i \<in> P" by blast
  with a(1) show "m' (a + of_nat i) = m (a + of_nat i)"
    by (simp add: agree_def)
qed

lemma desc_at_agree:
  assumes "agree P m m'" and "span (desc_ptr (vq_desc q) i) 16 \<subseteq> P"
  shows "desc_at m' q i = desc_at m q i"
  using assms(2) sub_span [OF assms(2), of 0 8] sub_span [OF assms(2), of 8 4]
    sub_span [OF assms(2), of 12 2] sub_span [OF assms(2), of 14 2]
  by (simp add: desc_at_def Let_def rd_agree [OF assms(1)])


text \<open>
  A request whose descriptors and header are in \<open>P\<close> stays the same request while only other
  memory changes.
\<close>

definition foot :: "u64 set \<Rightarrow> u64 \<Rightarrow> hyp \<Rightarrow> u16 \<Rightarrow> u16 \<Rightarrow> u16 \<Rightarrow> bool" where
  "foot P root s h i j \<longleftrightarrow> (\<forall>d \<in> {h, i, j}. span (desc_ptr (vq_desc (g_vq s)) d) 16 \<subseteq> P) \<and>
     span (req_header (mem s) root (g_vq s) h) 16 \<subseteq> P"

lemma guest_agree:
  assumes "runs_guest R root vc s" and "\<forall>t \<in> tables (mem s) R. span t 4096 \<subseteq> P" and "agree P (mem s) m"
  shows "runs_guest R root vc (disk_state s tr m l a)" and "gpa m root = gpa (mem s) root"
    and "tables m R = tables (mem s) R"
proof -
  have same: "m b = mem s b" if "t \<in> tables (mem s) R" "b \<in> span t 4096" for t b
    using assms(2,3) that by (auto simp: agree_def simp del: mem_span)
  show "runs_guest R root vc (disk_state s tr m l a)" "gpa m root = gpa (mem s) root"
    using runs_guest_write [OF assms(1), of m] same unfolding runs_guest_disk_state by blast+
  have "pt_inv R s" using assms(1) by (simp add: runs_guest_def)
  then show "tables m R = tables (mem s) R"
    using data_write(3) [of R s m] same by blast
qed

lemma request_agree:
  assumes g: "gpa m root = gpa (mem s) root" and f: "foot P root s h i j" and a: "agree P (mem s) m"
  shows "request_of m root (g_vq s) h i j = request_of (mem s) root (g_vq s) h i j"
    and "req_header m root (g_vq s) h = req_header (mem s) root (g_vq s) h"
    and "links_to m (g_vq s) h [i, j] = links_to (mem s) (g_vq s) h [i, j]"
proof -
  have d: "desc_at m (g_vq s) k = desc_at (mem s) (g_vq s) k" if "k \<in> {h, i, j}" for k
    using desc_at_agree [OF a] f that unfolding foot_def by blast
  then show h: "req_header m root (g_vq s) h = req_header (mem s) root (g_vq s) h"
    by (simp add: req_header_def g)
  have s: "span (req_header (mem s) root (g_vq s) h) 16 \<subseteq> P"
    using f by (simp add: foot_def)
  have "(rd_le 4 m (req_header (mem s) root (g_vq s) h) :: u32) = rd_le 4 (mem s) (req_header (mem s) root (g_vq s) h)"
    "rd64 m (req_header (mem s) root (g_vq s) h + 8) = rd64 (mem s) (req_header (mem s) root (g_vq s) h + 8)"
    using sub_span [OF s, of 0 4] sub_span [OF s, of 8 8] by (simp_all add: rd_agree [OF a])
  then show "request_of m root (g_vq s) h i j = request_of (mem s) root (g_vq s) h i j"
    by (simp add: request_of_def h Let_def g d)
  have "link_of m (g_vq s) k = link_of (mem s) (g_vq s) k" if "k \<in> {h, i, j}" for k
    using d [OF that] by (simp add: link_of_def)
  then show "links_to m (g_vq s) h [i, j] = links_to (mem s) (g_vq s) h [i, j]"
    by auto
qed

lemma req_ok_agree:
  assumes "runs_guest R root vc s" and "\<forall>t \<in> tables (mem s) R. span t 4096 \<subseteq> P" and "agree P (mem s) m"
    and "foot P root s h i j" and "req_ok R root s h i j"
  shows "req_ok R root (disk_state s tr m l a) h i j"
  using assms(5) guest_agree [OF assms(1-3)] request_agree [OF guest_agree(2) [OF assms(1-3)] assms(4,3)]
  by (simp add: req_ok_def Let_def del: links_to.simps)

text \<open>The chain at position \<open>k\<close> of the part of the ring that has not been served yet.\<close>

definition ring_ptr :: "virt_queue \<Rightarrow> nat \<Rightarrow> u64" where
  "ring_ptr q k = avail_ring_ptr (vq_avail q) (ucast (avail_idx q + of_nat k) mod vring_num q)"

definition head_at :: "hyp \<Rightarrow> nat \<Rightarrow> u16" where
  "head_at s k = rd_le 2 (mem s) (ring_ptr (g_vq s) k)"

definition req_at :: "hyp \<Rightarrow> u64 \<Rightarrow> (nat \<Rightarrow> u16) \<Rightarrow> (nat \<Rightarrow> u16) \<Rightarrow> nat \<Rightarrow> blk_req" where
  "req_at s root I J k = request_of (mem s) root (g_vq s) (head_at s k) (I k) (J k)"

text \<open>
  The guest has made \<open>n\<close> well-formed requests available. \<open>I k\<close> and \<open>J k\<close> are the second and the
  third descriptor of request \<open>k\<close>; \<open>P\<close> has what steers the device (the ring of available chains,
  the descriptors, the headers and the tables of the hypervisor), \<open>D\<close> what the requests write.
\<close>

definition batch_ok :: "u64 set \<Rightarrow> u64 \<Rightarrow> u64 set \<Rightarrow> u64 set \<Rightarrow> (nat \<Rightarrow> u16) \<Rightarrow> (nat \<Rightarrow> u16) \<Rightarrow> nat \<Rightarrow> hyp \<Rightarrow> bool" where
  "batch_ok R root P D I J n s \<longleftrightarrow> (let q = g_vq s in
     n < 2 ^ 16 \<and> rd_le 2 (mem s) (avail_idx_ptr (vq_avail q)) = avail_idx q + of_nat n \<and>
     used_ok s \<and> P \<inter> (D \<union> used_area q) = {} \<and> D \<inter> used_area q = {} \<and>
     all_backed s (avail_idx_ptr (vq_avail q)) 2 \<and> span (avail_idx_ptr (vq_avail q)) 2 \<subseteq> P \<and>
     (\<forall>t \<in> tables (mem s) R. span t 4096 \<subseteq> P) \<and>
     (\<forall>k < n. req_ok R root s (head_at s k) (I k) (J k) \<and> foot P root s (head_at s k) (I k) (J k) \<and>
        all_backed s (ring_ptr q k) 2 \<and> span (ring_ptr q k) 2 \<subseteq> P \<and>
        req_target s (req_at s root I J k) \<subseteq> D \<and> req_status (req_at s root I J k) \<in> D))"

text \<open>The memory after the first \<open>k\<close> requests.\<close>

primrec after :: "hyp \<Rightarrow> u64 \<Rightarrow> (nat \<Rightarrow> u16) \<Rightarrow> (nat \<Rightarrow> u16) \<Rightarrow> nat \<Rightarrow> memory" where
  "after s root I J 0 = mem s"
| "after s root I J (Suc k) = complete (g_vq s) (head_at s k) (served s (req_at s root I J k) (after s root I J k))"

lemma served_outside: "a \<notin> req_target s r \<Longrightarrow> a \<noteq> req_status r \<Longrightarrow> served s r m a = m a"
  by (simp add: served_def moved_outside)

lemma batch_okD:
  assumes "batch_ok R root P D I J n s"
  shows "n < 2 ^ 16" and "rd_le 2 (mem s) (avail_idx_ptr (vq_avail (g_vq s))) = avail_idx (g_vq s) + of_nat n"
    and "used_ok s" and "P \<inter> (D \<union> used_area (g_vq s)) = {}" and "D \<inter> used_area (g_vq s) = {}"
    and "all_backed s (avail_idx_ptr (vq_avail (g_vq s))) 2" and "span (avail_idx_ptr (vq_avail (g_vq s))) 2 \<subseteq> P"
    and "\<forall>t \<in> tables (mem s) R. span t 4096 \<subseteq> P"
    and "k < n \<Longrightarrow> req_ok R root s (head_at s k) (I k) (J k)" and "k < n \<Longrightarrow> foot P root s (head_at s k) (I k) (J k)"
    and "k < n \<Longrightarrow> all_backed s (ring_ptr (g_vq s) k) 2" and "k < n \<Longrightarrow> span (ring_ptr (g_vq s) k) 2 \<subseteq> P"
    and "k < n \<Longrightarrow> req_target s (req_at s root I J k) \<subseteq> D" and "k < n \<Longrightarrow> req_status (req_at s root I J k) \<in> D"
  using assms unfolding batch_ok_def Let_def by blast+

lemma used_okD:
  assumes "used_ok s"
  shows "vring_num (g_vq s) \<noteq> 0" and "unat (vring_num (g_vq s)) \<le> 2 ^ 16"
  using assms by (simp_all add: used_ok_def Let_def)

lemma after_outside:
  assumes b: "batch_ok R root P D I J n s" and "k \<le> n" and a: "a \<notin> D" "a \<notin> used_area (g_vq s)"
  shows "after s root I J k a = mem s a"
  using assms(2)
proof (induction k)
  case (Suc k)
  have "after s root I J (Suc k) a = served s (req_at s root I J k) (after s root I J k) a"
    using complete_outside [OF used_okD [OF batch_okD(3) [OF b]] a(2)] by simp
  also have "\<dots> = after s root I J k a"
    using batch_okD(13,14) [OF b, of k] a(1) Suc.prems by (intro served_outside) (blast dest: Suc_le_lessD)+
  finally show ?case using Suc by simp
qed simp

lemma after_agree:
  assumes b: "batch_ok R root P D I J n s" and "k \<le> n"
  shows "agree P (mem s) (after s root I J k)"
  unfolding agree_def using after_outside [OF b assms(2)] batch_okD(4) [OF b] by blast


lemma used_ok_disk_state [simp]: "used_ok (disk_state s tr m l a) = used_ok s"
  by (simp add: used_ok_def Let_def)

lemma avail_idx_disk_state [simp]:
  "(disk_state s tr m l a)\<lparr>g_vq := (g_vq (disk_state s tr m l a))\<lparr>avail_idx := b\<rparr>\<rparr> = disk_state s tr m l b"
  "g_vq_update (avail_idx_update (\<lambda>i. i + 1)) (disk_state s tr m l a) = disk_state s tr m l (a + 1)"
  by (simp_all add: disk_state_def)

definition serving :: "hyp \<Rightarrow> u64 \<Rightarrow> (nat \<Rightarrow> u16) \<Rightarrow> (nat \<Rightarrow> u16) \<Rightarrow> spinlock \<Rightarrow> nat \<Rightarrow> hyp \<Rightarrow> bool" where
  "serving s root I J l k t \<longleftrightarrow>
     (\<exists>es. quiet es \<and> t = disk_state s (es @ trace s) (after s root I J k) l (avail_idx (g_vq s) + of_nat k))"

lemma process_avail_run:
  assumes g: "runs_guest R root vc s" and b: "batch_ok R root P D I J n s" and k: "k < n"
    and t: "serving s root I J l k t"
  shows "wp process_avail (\<lambda>_. serving s root I J l (Suc k)) t"
proof -
  let ?m = "after s root I J k" and ?a = "avail_idx (g_vq s) + of_nat k" and ?h = "head_at s k"
  obtain es where es: "quiet es" and t': "t = disk_state s (es @ trace s) ?m l ?a"
    using t by (auto simp: serving_def)
  have ag: "agree P (mem s) ?m"
    using after_agree [OF b] k by simp
  have tb: "\<forall>t \<in> tables (mem s) R. span t 4096 \<subseteq> P"
    using batch_okD(8) [OF b] .
  have h: "rd_le 2 ?m (ring_ptr (g_vq s) k) = ?h"
    using rd_agree [OF ag batch_okD(12) [OF b k]] by (simp add: head_at_def)
  have gt: "runs_guest R root vc t"
    unfolding t' using guest_agree(1) [OF g tb ag] .
  have ok: "req_ok R root t ?h (I k) (J k)"
    unfolding t' by (rule req_ok_agree [OF g tb ag batch_okD(10,9) [OF b k]])
  have r: "request_of ?m root (g_vq t) ?h (I k) (J k) = req_at s root I J k"
    using request_agree(1) [OF guest_agree(2) [OF g tb ag] batch_okD(10) [OF b k] ag] by (simp add: t' req_at_def)
  have q: "vring_num (g_vq s) \<noteq> 0" "unat (vring_num (g_vq s)) \<le> 2 ^ 16"
    using used_okD [OF batch_okD(3) [OF b]] .
  let ?tr = "[tpidr s, tpidr s, tpidr s] @ es @ trace s"
  have d: "virtio_blk_process_desc ?h t = Inr (3, disk_state s ?tr (served s (req_at s root I J k) ?m) l ?a)"
    using virtio_blk_process_desc_run [OF gt ok] r by (simp add: t')
  have u: "vqueue_set_used_elem ?h 3 (disk_state s ?tr (served s (req_at s root I J k) ?m) l ?a) =
      Inr ((), disk_state s ([Instr ''dmb ish'', Instr ''dmb ish''] @ ?tr) (after s root I J (Suc k)) l ?a)"
    using set_used_elem_run [of "disk_state s ?tr (served s (req_at s root I J k) ?m) l ?a" ?h] batch_okD(3) [OF b] by simp
  have ring: "all_backed s (ring_ptr (g_vq s) k) 2"
    using batch_okD(11) [OF b k] .
  have "process_avail t = Inr ((), disk_state s ([Instr ''dmb ish'', Instr ''dmb ish''] @ ?tr) (after s root I J (Suc k)) l
      (?a + 1))"
    using ring h q d u unfolding t' by (simp add: process_avail_def run umod_def ring_ptr_def)
  note p = this
  let ?es = "[Instr ''dmb ish'', Instr ''dmb ish'', tpidr s, tpidr s, tpidr s] @ es"
  have a: "?a + 1 = avail_idx (g_vq s) + of_nat (Suc k)"
    by (simp add: algebra_simps)
  have "serving s root I J l (Suc k) (disk_state s (?es @ trace s) (after s root I J (Suc k)) l (?a + 1))"
    unfolding serving_def a using es by (intro exI [of _ ?es]) simp
  then show ?thesis
    using p by (simp add: wp_def)
qed

lemma after_used_idx:
  assumes b: "batch_ok R root P D I J n s" and "k \<le> n"
  shows "rd_le 2 (after s root I J k) (used_idx_ptr (vq_used (g_vq s))) =
    (rd_le 2 (mem s) (used_idx_ptr (vq_used (g_vq s))) + of_nat k :: u16)"
  using assms(2)
proof (induction k)
  case (Suc k)
  let ?p = "used_idx_ptr (vq_used (g_vq s))"
  have "span ?p 2 \<inter> D = {}"
    using used_spans(3) [OF used_okD [OF batch_okD(3) [OF b]]] batch_okD(5) [OF b] by blast
  moreover have "req_target s (req_at s root I J k) \<subseteq> D" "req_status (req_at s root I J k) \<in> D"
    using batch_okD(13,14) [OF b, of k] Suc.prems by simp_all
  ultimately have "agree (span ?p 2) (after s root I J k) (served s (req_at s root I J k) (after s root I J k))"
    unfolding agree_def by (blast intro: served_outside)
  from rd_agree [OF this subset_refl, where 'a = 16] Suc show ?case
    by (simp add: complete_idx algebra_simps)
qed simp

lemma virtq_available_run:
  assumes b: "batch_ok R root P D I J n s" and k: "k \<le> n" and t: "serving s root I J l k t"
  shows "virtq_available t = Inr (k \<noteq> n, t)"
proof -
  have "(of_nat k :: u16) = of_nat n \<longleftrightarrow> k = n"
    using batch_okD(1) [OF b] k by (simp add: word_unat_eq_iff unat_of_nat)
  moreover have "rd_le 2 (after s root I J k) (avail_idx_ptr (vq_avail (g_vq s))) = avail_idx (g_vq s) + (of_nat n :: u16)"
    using rd_agree [OF after_agree [OF b k] batch_okD(7) [OF b], where 'a = 16] batch_okD(2) [OF b] by simp
  ultimately show ?thesis
    using t batch_okD(6) [OF b] by (auto simp: serving_def virtq_available_def run)
qed

text \<open>
  C19. When the guest notifies the disk and its requests are well-formed (\<open>batch_ok\<close>: each is a chain
  of three descriptors in the memory of the guest, and the parts of memory that the requests write are
  disjoint from the rings, from the requests and from the translation tables), every request that it
  has made available is served, in the order of the ring, and the loop ends: memory is what it was after
  the requests have been applied one after the other, each moving one block between the disk and the
  1024 bytes from the physical address of the first byte of its buffer, setting its status byte
  (0, or \<open>0xee\<close> for a block that does not exist) and entering its chain into the ring of used
  chains. Memory that the requests do not name is untouched, the number of used chains grows by the
  number of requests, the lock is released, and the guest's interrupt is raised at the end, as the only
  write to a device; log messages are not part of the model. Only the first byte of a buffer is
  translated: for a buffer that crosses the end of its page, the block is not moved to the guest's
  next page but to the next physical one.
\<close>

theorem virtio_blk_req_handler_serves:
  assumes g: "runs_guest R root vc s" and b: "batch_ok R root P D I J n s" and lock: "spin_free (virtq_lock (g_vq s))"
    and fuel: "n < poll_bound s"
  shows "wp virtio_blk_req_handler (\<lambda>_ t.
    mem t = after s root I J n \<and>
    rd_le 2 (mem t) (used_idx_ptr (vq_used (g_vq s))) = (rd_le 2 (mem s) (used_idx_ptr (vq_used (g_vq s))) + of_nat n :: u16) \<and>
    avail_idx (g_vq t) = rd_le 2 (mem t) (avail_idx_ptr (vq_avail (g_vq t))) \<and>
    (\<forall>a. a \<notin> D \<longrightarrow> a \<notin> used_area (g_vq s) \<longrightarrow> mem t a = mem s a) \<and>
    spin_free (virtq_lock (g_vq t)) \<and>
    (\<exists>es. quiet es \<and> trace t = Wr (Mmio32 (gicd_addr (ucast (GICD_ISPENDR 1)))) (push_bit 16 1) # es @ trace s)) s"
proof -
  let ?l = "(virtq_lock (g_vq s))\<lparr>ticket := ticket (virtq_lock (g_vq s)) + 1\<rparr>"
  let ?s = "disk_state s (trace s) (mem s) ?l (avail_idx (g_vq s))"
  have lk: "lock_virtq s = Inr ((), ?s)"
    using lock by (simp add: lock_virtq_def run disk_state_def)
  have "serving s root I J ?l 0 ?s"
    unfolding serving_def by (intro exI [of _ "[]"]) simp
  then have w: "wp (mwhile (poll_bound s) virtq_available process_avail) (\<lambda>_. serving s root I J ?l n) ?s"
    by (rule wp_mwhile [where n = n]) (use fuel virtq_available_run [OF b] process_avail_run [OF g b] in auto)
  define Q where "Q t \<longleftrightarrow> mem t = after s root I J n \<and>
      rd_le 2 (mem t) (used_idx_ptr (vq_used (g_vq s))) = (rd_le 2 (mem s) (used_idx_ptr (vq_used (g_vq s))) + of_nat n :: u16) \<and>
      avail_idx (g_vq t) = rd_le 2 (mem t) (avail_idx_ptr (vq_avail (g_vq t))) \<and>
      (\<forall>a. a \<notin> D \<longrightarrow> a \<notin> used_area (g_vq s) \<longrightarrow> mem t a = mem s a) \<and> spin_free (virtq_lock (g_vq t)) \<and>
      (\<exists>es. quiet es \<and> trace t = Wr (Mmio32 (gicd_addr (ucast (GICD_ISPENDR 1)))) (push_bit 16 1) # es @ trace s)" for t :: hyp
  let ?sig = "Wr (Mmio32 (gicd_addr (ucast (GICD_ISPENDR 1)))) (push_bit 16 1)"
  have finish: "mthen unlock_virtq virtio_signal_vq (disk_state s tr m ?l a) =
      Inr ((), disk_state s (?sig # tr) m (lock_cycle (virtq_lock (g_vq s))) a)" for tr m a
    by (simp add: unlock_virtq_def virtio_signal_vq_def gic_set_pending_irq_def VIRTIO0_IRQ_def run disk_state_def
      lock_unlock_eq [symmetric])
  have "wp (mthen unlock_virtq virtio_signal_vq) (\<lambda>_. Q) t" if t: "serving s root I J ?l n t" for t
  proof -
    obtain es where es: "quiet es" "t = disk_state s (es @ trace s) (after s root I J n) ?l (avail_idx (g_vq s) + of_nat n)"
      using t by (auto simp: serving_def)
    have "Q (disk_state s (?sig # es @ trace s) (after s root I J n) (lock_cycle (virtq_lock (g_vq s))) (avail_idx (g_vq s) + of_nat n))"
      unfolding Q_def
      using lock es after_used_idx [OF b, of n] after_outside [OF b, of n] batch_okD(2) [OF b]
        rd_agree [OF after_agree [OF b order_refl] batch_okD(7) [OF b], where 'a = 16]
      by (intro conjI exI [of _ es]) simp_all
    then show ?thesis
      unfolding wp_def es(2) finish by simp
  qed
  from wp_mono [OF w this]
  have "wp (mwhile (poll_bound s) virtq_available process_avail) (\<lambda>_. wp (mthen unlock_virtq virtio_signal_vq) (\<lambda>_. Q)) ?s" .
  then have "wp virtio_blk_req_handler (\<lambda>_. Q) s"
    using lk batch_okD(6) [OF b] by (simp add: virtio_blk_req_handler_def wps wp_of_run [of lock_virtq s])
  then show ?thesis unfolding Q_def .
qed


text \<open>
  A guest with one page of memory, at \<open>0x80000000\<close> for the guest and at \<open>0x50000000\<close> in the machine,
  whose tables are among the 16 managed pages at \<open>0x40000000\<close>.
\<close>

definition disk_guest0 :: hyp where
  "disk_guest0 = hyp0\<lparr>dev := (\<lambda>_ l. case l of Sysreg c r \<Rightarrow> if r = ''tpidr_el2'' then 0x40100000 else 0 | _ \<Rightarrow> 0),
     poll_bound := 2, g_allocator := g_allocator (palloc0 [1] 16 1),
     vcpus := [vcpu0\<lparr>vcpu_vm := Some 0\<rparr>], g_vms := [vm0\<lparr>stage2_pt := 0x40000000\<rparr>],
     g_vq := \<lparr>virtq_lock = spinlock_init, vring_num = 4, vring_ipa = 0, vring_pa = 0x50001000, avail_idx = 0,
       vq_desc = 0x50001000, vq_avail = 0x50001100, vq_used = 0x50001200\<rparr>, ramdisk_start := 0x60000000\<rparr>"

lemma disk_guest0_inv: "pt_inv {0x40000000} disk_guest0" "clean disk_guest0" "leaf (mem disk_guest0) 0x40000000 va = 0"
proof -
  have m: "mem disk_guest0 = (\<lambda>_. 0)"
    by (simp add: disk_guest0_def hyp0_def)
  show "pt_inv {0x40000000} disk_guest0"
    by (rule pt_inv_transfer [OF pt0_inv(1) [of 1]]) (simp_all add: disk_guest0_def hyp0_def)
  show "clean disk_guest0"
    by (simp add: clean_def zero_page_def m)
  show "leaf (mem disk_guest0) 0x40000000 va = 0"
    using pt0_inv(3) [of 1 va] by (simp add: m)
qed

lemma disk_guest0_free: "card (free_addrs disk_guest0) = 15"
proof -
  have "free_addrs disk_guest0 = free_addrs (pt0 1)"
    by (simp add: free_addrs_def disk_guest0_def)
  moreover have "card (free_addrs (pt0 1)) = 15"
    by code_simp
  ultimately show ?thesis by simp
qed

lemma disk_guest0_mapped:
  obtains m a where "runs_guest {0x40000000} 0x40000000 0 (disk_guest0\<lparr>mem := m, g_allocator := a\<rparr>)"
    and "\<And>off. off < 4096 \<Longrightarrow> gpa m 0x40000000 (0x80000000 + of_nat off) = 0x50000000 + of_nat off"
    and "\<And>b. b \<notin> span 0x40000000 0x10000 \<Longrightarrow> m b = 0"
    and "\<And>t. t \<in> tables m {0x40000000} \<Longrightarrow> span t 4096 \<subseteq> span 0x40000000 0x10000"
proof -
  let ?R = "{0x40000000} :: u64 set" and ?V = "{0x80000000} :: u64 set"
  have c: "card (missing (mem disk_guest0) 0x40000000 ?V) \<le> card (free_addrs disk_guest0)"
    using card_missing_le [of ?V "mem disk_guest0" "0x40000000"] disk_guest0_free by simp
  have "wp (pagemap 0x40000000 0x80000000 0x50000000 0x1000 0)
      (\<lambda>_ t. mapped ?R 0x40000000 ?V (range_to 0x80000000 0x50000000 0 1) disk_guest0 t) disk_guest0"
    by (rule pagemap_run [OF disk_guest0_inv(1,2) _ _ _ _ _ _ _ c])
      (simp_all add: range_pages_def lessThan_Suc disk_guest0_inv)
  then obtain t where t: "mapped ?R 0x40000000 ?V (range_to 0x80000000 0x50000000 0 1) disk_guest0 t"
    by (auto dest: wp_runD)
  then have inv: "pt_inv ?R t" and gr: "grown ?R disk_guest0 t"
    and lf: "new_leaves ?R 0x40000000 (range_to 0x80000000 0x50000000 0 1) (mem disk_guest0) (mem t)"
    by (simp_all add: mapped_def)
  have t': "t = disk_guest0\<lparr>mem := mem t, g_allocator := g_allocator t\<rparr>" "page_addrs t = page_addrs disk_guest0"
    using gr unfolding grown_def by blast+
  have tb: "span u 4096 \<subseteq> span 0x40000000 0x10000" if "u \<in> tables (mem t) ?R" for u
    by (rule pool_pages [of u disk_guest0 1]) (use inv that t'(2) in \<open>auto simp: pt_inv_def disk_guest0_def\<close>)
  have z: "mem t b = 0" if "b \<notin> span 0x40000000 0x10000" for b
  proof -
    have "mem t b = mem disk_guest0 b"
      using gr tb that unfolding grown_def by blast
    then show ?thesis by (simp add: disk_guest0_def hyp0_def)
  qed
  show thesis
  proof (rule that [of "g_allocator t" "mem t"])
    have "pt_inv ?R (disk_guest0\<lparr>mem := mem t, g_allocator := g_allocator t\<rparr>)"
      using inv by (simp only: t'(1) [symmetric])
    then show "runs_guest ?R 0x40000000 0 (disk_guest0\<lparr>mem := mem t, g_allocator := g_allocator t\<rparr>)"
      by (simp add: runs_guest_def on_vcpu_def disk_guest0_def hyp0_defs vcpu_ptr_def)
    fix off :: nat
    assume off: "off < 4096"
    let ?va = "0x80000000 + of_nat off :: u64"
    have u: "unat ?va = 0x80000000 + off"
      using off by (simp add: unat_word_ariths unat_of_nat)
    have "same_page 0x80000000 ?va"
      using off u by (intro same_page_within [where k = off]) simp_all
    then have l: "leaf (mem t) 0x40000000 ?va = s2_entry 0x50000000 0"
      using lf by (simp add: new_leaves_def)
    have "unat (?va AND 0xfff) = off"
      using off mod_mult_self1 [of off "0x80000" 4096] u by (simp add: unat_page_off add.commute [of off])
    then have "?va AND 0xfff = of_nat off"
      using off by (simp add: word_unat_eq_iff unat_of_nat)
    moreover have "PTE_PA (s2_entry 0x50000000 0) = 0x50000000"
      using PTE_PA_s2_entry [of 0 "0x50000000"] PTE_PA_aligned [of "0x50000000"] by simp
    ultimately show "gpa (mem t) 0x40000000 ?va = 0x50000000 + of_nat off"
      using l leaf_tbl [of "mem t" "0x40000000" ?va] s2_entry_nonzero by (auto simp: gpa_def)
  qed (use z tb in auto)
qed


text \<open>The guest asks for block 0: three descriptors, and the header and all else is zero.\<close>

definition asked :: "memory \<Rightarrow> memory" where
  "asked m = m(0x50001003 := 0x80, 0x5000100c := 1, 0x5000100e := 1,
     0x50001011 := 4, 0x50001013 := 0x80, 0x5000101c := 1, 0x5000101e := 2,
     0x50001020 := 0x10, 0x50001023 := 0x80, 0x50001102 := 1)"

lemma rd_le_numeral: "rd_le (numeral k) m a = ucast (m a) OR push_bit 8 (rd_le (pred_numeral k) m (a + 1))"
  by (simp add: numeral_eq_Suc)

lemma disk_guest0_simps:
  "vring_num (g_vq disk_guest0) = 4" "vmax (g_vq disk_guest0) = 4" "vq_desc (g_vq disk_guest0) = 0x50001000"
  "vq_avail (g_vq disk_guest0) = 0x50001100" "vq_used (g_vq disk_guest0) = 0x50001200" "avail_idx (g_vq disk_guest0) = 0"
  "ramdisk_start disk_guest0 = 0x60000000" "poll_bound disk_guest0 = 2" "virtq_lock (g_vq disk_guest0) = spinlock_init"
  by (simp_all add: disk_guest0_def vmax_def)

abbreviation disk_tables :: "u64 set" where
  "disk_tables \<equiv> span 0x40000000 0x10000"

abbreviation asked_state :: "memory \<Rightarrow> page_allocator \<Rightarrow> hyp" where
  "asked_state m a \<equiv> disk_guest0\<lparr>mem := asked m, g_allocator := a\<rparr>"

abbreviation asked_req :: blk_req where
  "asked_req \<equiv> \<lparr>req_write = False, req_blk = 0, req_buf = 0x50000400, req_status = 0x50000010\<rparr>"

lemma asked_byte:
  assumes "\<forall>b. b \<notin> disk_tables \<longrightarrow> m b = 0" and "b \<notin> disk_tables"
  shows "asked m b = (if b = 0x50001003 \<or> b = 0x50001013 \<or> b = 0x50001023 then 0x80
      else if b = 0x5000100c \<or> b = 0x5000100e \<or> b = 0x5000101c \<or> b = 0x50001102 then 1
      else if b = 0x50001011 then 4 else if b = 0x5000101e then 2 else if b = 0x50001020 then 0x10 else 0)"
  using assms by (simp add: asked_def)

lemma asked_ring:
  assumes "\<forall>b. b \<notin> disk_tables \<longrightarrow> m b = 0"
  shows "desc_at (asked m) (g_vq disk_guest0) 0 = \<lparr>desc_addr = 0x80000000, desc_len = 0, desc_flags = 1, desc_next = 1\<rparr>"
    and "desc_at (asked m) (g_vq disk_guest0) 1 = \<lparr>desc_addr = 0x80000400, desc_len = 0, desc_flags = 1, desc_next = 2\<rparr>"
    and "desc_at (asked m) (g_vq disk_guest0) 2 = \<lparr>desc_addr = 0x80000010, desc_len = 0, desc_flags = 0, desc_next = 0\<rparr>"
    and "head_at (asked_state m a) 0 = 0" "ring_ptr (g_vq disk_guest0) 0 = 0x50001104"
    and "rd_le 2 (asked m) (avail_idx_ptr 0x50001100) = (1 :: u16)" "rd_le 2 (asked m) (used_idx_ptr 0x50001200) = (0 :: u16)"
    and "rd_le 4 (asked m) 0x50000000 = (0 :: u32)" "rd64 (asked m) 0x50000008 = 0"
  by (simp_all add: desc_at_def desc_ptr_def head_at_def ring_ptr_def avail_ring_ptr_def avail_idx_ptr_def used_idx_ptr_def
    disk_guest0_def rd_le_numeral asked_byte [OF assms])

lemma disk_spans_apart:
  "disk_tables \<inter> span 0x50000400 0x400 = {}"
  "(disk_tables \<union> (span 0x50000000 0x10 \<union> span 0x50001000 0x106)) \<inter>
     (span 0x50000400 0x400 \<union> span 0x50000010 1 \<union> span 0x50001200 36) = {}"
  "(span 0x50000400 0x400 \<union> span 0x50000010 1) \<inter> span 0x50001200 36 = {}"
  unfolding Int_Un_distrib2 Int_Un_distrib Un_empty by (intro conjI span_apart; simp)+

lemma asked_backed: "all_backed (asked_state m a) x k" "backed (asked_state m a) x"
  by (simp_all add: all_backed_def disk_guest0_def hyp0_defs)

lemma asked_target: "req_target (asked_state m a) asked_req = span 0x50000400 0x400"
  by (simp add: req_target_def FSIMG_SIZE_def)

lemma asked_ok:
  assumes z: "\<forall>b. b \<notin> disk_tables \<longrightarrow> m b = 0"
    and tb: "\<forall>t \<in> tables (asked m) {0x40000000}. span t 4096 \<subseteq> disk_tables"
    and tr: "gpa (asked m) 0x40000000 0x80000000 = 0x50000000" "gpa (asked m) 0x40000000 0x80000400 = 0x50000400"
      "gpa (asked m) 0x40000000 0x80000010 = 0x50000010"
  shows "req_ok {0x40000000} 0x40000000 (asked_state m a) 0 1 2"
    and "request_of (asked m) 0x40000000 (g_vq disk_guest0) 0 1 2 = asked_req"
    and "req_header (asked m) 0x40000000 (g_vq disk_guest0) 0 = 0x50000000"
proof -
  have l: "links_to (asked m) (g_vq disk_guest0) 0 [1, 2]"
    by (simp add: link_of_def asked_ring [OF z] disk_guest0_simps VRING_DESC_F_NEXT_def)
  show r: "request_of (asked m) 0x40000000 (g_vq disk_guest0) 0 1 2 = asked_req"
    "req_header (asked m) 0x40000000 (g_vq disk_guest0) 0 = 0x50000000"
    by (simp_all add: request_of_def req_header_def asked_ring [OF z] tr VIRTIO_BLK_T_OUT_def)
  have clear: "span t 4096 \<inter> span 0x50000400 0x400 = {}" if "t \<in> tables (asked m) {0x40000000}" for t
    using tb that disk_spans_apart(1) by blast
  show "req_ok {0x40000000} 0x40000000 (asked_state m a) 0 1 2"
    using l asked_backed [where m = m and a = a] clear unfolding req_ok_def Let_def
    by (auto simp: r asked_target desc_backed_def block_ok_def disk_block_def FSIMG_SIZE_def BLOCK_SIZE_def
       disk_guest0_simps simp del: mem_span links_to.simps)
qed

lemma asked_batch:
  assumes z: "\<forall>b. b \<notin> disk_tables \<longrightarrow> m b = 0"
    and tb: "\<forall>t \<in> tables (asked m) {0x40000000}. span t 4096 \<subseteq> disk_tables"
    and tr: "gpa (asked m) 0x40000000 0x80000000 = 0x50000000" "gpa (asked m) 0x40000000 0x80000400 = 0x50000400"
      "gpa (asked m) 0x40000000 0x80000010 = 0x50000010"
  shows "batch_ok {0x40000000} 0x40000000 (disk_tables \<union> (span 0x50000000 0x10 \<union> span 0x50001000 0x106))
    (span 0x50000400 0x400 \<union> span 0x50000010 1) (\<lambda>_. 1) (\<lambda>_. 2) 1 (asked_state m a)"
proof -
  let ?P = "disk_tables \<union> (span 0x50000000 0x10 \<union> span 0x50001000 0x106)" and ?s = "asked_state m a"
  have sub: "span (0x50001000 + of_nat k) j \<subseteq> ?P" if "k + j \<le> 0x106" for k j
    by (rule sub_span [of _ "0x106"]) (use that in auto)
  have "foot ?P 0x40000000 ?s 0 1 2"
    using sub [of 0 16] sub [of 16 16] sub [of 32 16]
    by (simp add: foot_def asked_ok(3) [OF assms] desc_ptr_def disk_guest0_simps del: mem_span) blast
  moreover have "span (avail_idx_ptr 0x50001100) 2 \<subseteq> ?P" "span 0x50001104 2 \<subseteq> ?P"
    using sub [of "0x102" 2] sub [of "0x104" 2] by (simp_all add: avail_idx_ptr_def del: mem_span)
  moreover have "\<forall>t \<in> tables (asked m) {0x40000000}. span t 4096 \<subseteq> ?P"
    using tb by blast
  moreover have "0x50000010 \<in> span 0x50000010 1"
    by simp
  ultimately show ?thesis
    using asked_ok(1) [OF assms] asked_backed [where m = m and a = a] disk_spans_apart(2,3)
    unfolding batch_ok_def Let_def used_ok_def used_area_def req_at_def
    by (auto simp: asked_ring [OF z] asked_ok(2) [OF assms] asked_target disk_guest0_simps simp del: mem_span)
qed

theorem virtio_blk_req_handler_serves_witness:
  "\<exists>s P D. runs_guest {0x40000000} 0x40000000 0 s \<and> batch_ok {0x40000000} 0x40000000 P D (\<lambda>_. 1) (\<lambda>_. 2) 1 s \<and>
     wp virtio_blk_req_handler (\<lambda>_ t. rd_le 2 (mem t) (used_idx_ptr (vq_used (g_vq s))) = (1 :: u16)) s"
proof -
  obtain a m where g: "runs_guest {0x40000000} 0x40000000 0 (disk_guest0\<lparr>mem := m, g_allocator := a\<rparr>)"
    and tr: "\<And>off. off < 4096 \<Longrightarrow> gpa m 0x40000000 (0x80000000 + of_nat off) = 0x50000000 + of_nat off"
    and z: "\<forall>b. b \<notin> disk_tables \<longrightarrow> m b = 0"
    and tb: "\<And>t. t \<in> tables m {0x40000000} \<Longrightarrow> span t 4096 \<subseteq> disk_tables"
    by (rule disk_guest0_mapped) blast
  let ?s = "asked_state m a"
  have same: "agree disk_tables m (asked m)"
    by (auto simp: agree_def asked_def)
  have "runs_guest {0x40000000} 0x40000000 0 ((disk_guest0\<lparr>mem := m, g_allocator := a\<rparr>)\<lparr>mem := asked m\<rparr>)"
    and gp: "gpa (asked m) 0x40000000 = gpa m 0x40000000"
    using runs_guest_write [OF g, where m = "asked m"] tb same unfolding agree_def by (simp_all del: mem_span) blast+
  moreover have "(disk_guest0\<lparr>mem := m, g_allocator := a\<rparr>)\<lparr>mem := asked m\<rparr> = ?s"
    by simp
  ultimately have gs: "runs_guest {0x40000000} 0x40000000 0 ?s"
    by simp
  have tables: "tables (asked m) {0x40000000} = tables m {0x40000000}"
    using guest_agree(3) [OF g, of disk_tables "asked m"] tb same by simp
  have b: "batch_ok {0x40000000} 0x40000000 (disk_tables \<union> (span 0x50000000 0x10 \<union> span 0x50001000 0x106))
    (span 0x50000400 0x400 \<union> span 0x50000010 1) (\<lambda>_. 1) (\<lambda>_. 2) 1 ?s"
    by (rule asked_batch [OF z]) (use tb tr [of 0] tr [of "0x400"] tr [of "0x10"] in \<open>simp_all add: tables gp\<close>)
  have z0: "rd_le 2 (mem ?s) (used_idx_ptr (vq_used (g_vq ?s))) = (0 :: u16)"
    by (simp add: disk_guest0_simps asked_ring [OF z])
  have "spin_free (virtq_lock (g_vq ?s))" "1 < poll_bound ?s"
    by (simp_all add: disk_guest0_simps spinlock_init_def spin_free_def)
  then have "wp virtio_blk_req_handler (\<lambda>_ t. rd_le 2 (mem t) (used_idx_ptr (vq_used (g_vq ?s))) = (1 :: u16)) ?s"
    by (intro wp_mono [OF virtio_blk_req_handler_serves [OF gs b]]; (elim conjE)?)
      (simp_all only: z0 add_0 of_nat_1)
  with gs b show ?thesis by blast
qed


section \<open>Chains that do not end\<close>

lemma desc_chain_cycle:
  assumes "link_of (mem s) (g_vq s) h = h" and "h \<noteq> vmax (g_vq s)" and "desc_backed s h"
    and "length ds \<le> unat (vring_num (g_vq s))"
  shows "desc_chain n (vmax (g_vq s)) h ds s =
    Inl (if unat (vring_num (g_vq s)) < n + length ds then Out_Of_Bounds else Diverge)"
  using assms
proof (induction n arbitrary: ds)
  case 0
  then show ?case by (simp add: run)
next
  case (Suc n)
  let ?e = "if unat (vring_num (g_vq s)) < Suc n + length ds then Out_Of_Bounds else Diverge"
  show ?case
  proof (cases "length ds < unat (vring_num (g_vq s))")
    case True
    then have "desc_chain n (vmax (g_vq s)) h (ds @ [desc_at (mem s) (g_vq s) h]) s = Inl ?e"
      using Suc.prems Suc.IH [of "ds @ [desc_at (mem s) (g_vq s) h]"] by simp
    with True Suc.prems show ?thesis by (simp add: run desc_step_run)
  next
    case False
    with Suc.prems show ?thesis by (simp add: run)
  qed
qed



end
