(* ===== verification/Isolation.thy ===== *)
theory Isolation
  imports Vm
begin

text \<open>
  Isolation of guests: the part of \<open>create_vm\<close> that gives a guest its memory never maps a page
  of another guest, a table of the hypervisor or a page that is still free.
\<close>

section \<open>Isolated guests\<close>

text \<open>
  \<open>R\<close> has the roots of the stage-2 tables, \<open>D\<close> the pages of devices that guests may share. Every
  other page that a guest can reach is an allocated page that is no table, and only one guest can
  reach it, at one guest page.
\<close>

definition isolated :: "u64 set \<Rightarrow> u64 set \<Rightarrow> hyp \<Rightarrow> bool" where
  "isolated D R s \<longleftrightarrow> pt_inv R s \<and> clean s \<and>
     (\<forall>r \<in> R. \<forall>va. leaf (mem s) r va \<noteq> 0 \<longrightarrow> PTE_PA (leaf (mem s) r va) \<notin> D \<longrightarrow>
        PTE_PA (leaf (mem s) r va) \<in> page_addrs s - free_addrs s - tables (mem s) R \<and>
        (\<forall>r' \<in> R. \<forall>vb. leaf (mem s) r' vb \<noteq> 0 \<longrightarrow> PTE_PA (leaf (mem s) r' vb) = PTE_PA (leaf (mem s) r va) \<longrightarrow>
           r' = r \<and> same_page va vb))"

lemma isolatedD:
  assumes "isolated D R s"
  shows "pt_inv R s" and "clean s"
    and "r \<in> R \<Longrightarrow> leaf (mem s) r va \<noteq> 0 \<Longrightarrow> PTE_PA (leaf (mem s) r va) \<notin> D \<Longrightarrow>
      PTE_PA (leaf (mem s) r va) \<in> page_addrs s - free_addrs s - tables (mem s) R"
    and "r \<in> R \<Longrightarrow> leaf (mem s) r va \<noteq> 0 \<Longrightarrow> PTE_PA (leaf (mem s) r va) \<notin> D \<Longrightarrow> r' \<in> R \<Longrightarrow>
      leaf (mem s) r' vb \<noteq> 0 \<Longrightarrow> PTE_PA (leaf (mem s) r' vb) = PTE_PA (leaf (mem s) r va) \<Longrightarrow> r' = r \<and> same_page va vb"
  using assms unfolding isolated_def by blast+

text \<open>A page that no guest can reach and that is no table: it may be given to a guest.\<close>

definition unowned :: "u64 set \<Rightarrow> hyp \<Rightarrow> u64 \<Rightarrow> bool" where
  "unowned R s p \<longleftrightarrow> p \<in> page_addrs s - free_addrs s - tables (mem s) R \<and>
     (\<forall>r \<in> R. \<forall>va. leaf (mem s) r va \<noteq> 0 \<longrightarrow> PTE_PA (leaf (mem s) r va) \<noteq> p)"

text \<open>Taking a free page and writing to it keeps guests isolated, and nobody owns the page.\<close>

lemma isolated_take:
  assumes iso: "isolated D R s" and p: "p \<in> free_addrs s" "p \<notin> D"
    and t: "pt_inv R t" "clean t" "page_addrs t = page_addrs s" "free_addrs t = free_addrs s - {p}"
      "tables (mem t) R = tables (mem s) R" "same_leaves R (mem s) (mem t)"
  shows "isolated D R t" and "unowned R t p"
proof -
  have l: "leaf (mem t) r va = leaf (mem s) r va" if "r \<in> R" for r va
    using t(6) that by (simp add: same_leaves_def)
  show "isolated D R t"
    using isolatedD(3,4) [OF iso] t l unfolding isolated_def by auto
  have "p \<in> page_addrs t - tables (mem t) R"
    using p free_page_addrs_sub [of s] isolatedD(1) [OF iso] t(3,5) by (auto simp: pt_inv_def)
  moreover have "PTE_PA (leaf (mem s) r va) \<noteq> p" if "r \<in> R" "leaf (mem s) r va \<noteq> 0" for r va
    using isolatedD(3) [OF iso that] p by blast
  ultimately show "unowned R t p"
    using t(4) l by (auto simp: unowned_def)
qed

lemma isolated_map:
  assumes iso: "isolated D R s" and m: "mapped R root V (page_to va e) s t" and root: "root \<in> R"
    and e: "PTE_PA e \<in> D \<or> unowned R s (PTE_PA e)"
  shows "isolated D R t"
proof -
  have g: "grown R s t" and inv: "pt_inv R t" "clean t"
    using m by (simp_all add: mapped_def)
  have L: "leaf (mem t) r vb = (if r = root \<and> same_page va vb then e else leaf (mem s) r vb)" if "r \<in> R" for r vb
    using m that by (auto simp: mapped_def new_leaves_def page_to_def)
  have T: "page_addrs t = page_addrs s" "free_addrs t \<subseteq> free_addrs s"
      "tables (mem t) R = tables (mem s) R \<union> (free_addrs s - free_addrs t)"
    using g unfolding grown_def by blast+
  have own: "x \<in> page_addrs t - free_addrs t - tables (mem t) R" if "x \<in> page_addrs s - free_addrs s - tables (mem s) R" for x
    using that T by blast
  show ?thesis
    unfolding isolated_def
  proof (intro conjI inv ballI allI impI)
    fix r vb
    assume r: "r \<in> R" "leaf (mem t) r vb \<noteq> 0" "PTE_PA (leaf (mem t) r vb) \<notin> D"
    show "PTE_PA (leaf (mem t) r vb) \<in> page_addrs t - free_addrs t - tables (mem t) R"
      using r e isolatedD(3) [OF iso r(1), of vb] L [OF r(1), of vb] own by (auto simp: unowned_def split: if_splits)
    fix r' vc
    assume r': "r' \<in> R" "leaf (mem t) r' vc \<noteq> 0" "PTE_PA (leaf (mem t) r' vc) = PTE_PA (leaf (mem t) r vb)"
    show "r' = r" "same_page vb vc"
      using r r' e isolatedD(4) [OF iso r(1) _ _ r'(1), of vb vc] L [OF r(1), of vb] L [OF r'(1), of vc]
      by (auto simp: unowned_def same_page_def split: if_splits)
  qed
qed

section \<open>Loading a guest\<close>

abbreviation guest_attr :: u64 where
  "guest_attr \<equiv> S2PTE_NORMAL OR S2PTE_RW"

text \<open>The byte of a guest's memory at an offset: its image, and zeroes behind it.\<close>

definition image_byte :: "hyp \<Rightarrow> guest \<Rightarrow> nat \<Rightarrow> u8" where
  "image_byte s g off = (if off < unat (guest_end g - guest_start g) then mem s (guest_start g + of_nat off) else 0)"

text \<open>
  \<open>n\<close> of \<open>N\<close> pages have been loaded, page \<open>k\<close> into the frame \<open>F k\<close>. \<open>V\<close> has the guest pages that
  the guest shall have, for which tables may still be needed.
\<close>

definition loading :: "u64 set \<Rightarrow> u64 set \<Rightarrow> u64 \<Rightarrow> u64 \<Rightarrow> u64 set \<Rightarrow> nat \<Rightarrow> guest \<Rightarrow> hyp \<Rightarrow> (nat \<Rightarrow> u64) \<Rightarrow> nat \<Rightarrow> hyp \<Rightarrow> bool" where
  "loading D R root entry V N g s F n t \<longleftrightarrow>
     t = s\<lparr>mem := mem t, g_allocator := g_allocator t\<rparr> \<and> page_addrs t = page_addrs s \<and> free_addrs t \<subseteq> free_addrs s \<and>
     tables (mem t) R \<subseteq> tables (mem s) R \<union> free_addrs s \<and> isolated D R t \<and> card (missing (mem t) root V) + (N - n) \<le> card (free_addrs t) \<and>
     (\<forall>r \<in> R - {root}. \<forall>vb. leaf (mem t) r vb = leaf (mem s) r vb) \<and>
     (\<forall>vb. (\<forall>k < n. \<not> same_page (entry + of_nat k * PAGE_SIZE) vb) \<longrightarrow> leaf (mem t) root vb = 0) \<and>
     (\<forall>k < n. \<forall>vb. same_page (entry + of_nat k * PAGE_SIZE) vb \<longrightarrow> leaf (mem t) root vb = s2_entry (F k) guest_attr) \<and>
     (\<forall>k < n. page_ok (F k) \<and> F k \<in> free_addrs s \<and>
        (\<forall>i < 4096. mem t (F k + of_nat i) = image_byte s g (k * 4096 + i))) \<and>
     (\<forall>b. (\<forall>p \<in> free_addrs s. b \<notin> span p 4096) \<longrightarrow> (\<forall>p \<in> tables (mem s) R. b \<notin> span p 4096) \<longrightarrow> mem t b = mem s b)"


lemma loadingD:
  assumes "loading D R root entry V N g s F n t"
  shows "t = s\<lparr>mem := mem t, g_allocator := g_allocator t\<rparr>" and "page_addrs t = page_addrs s" and "free_addrs t \<subseteq> free_addrs s"
    and "isolated D R t" and "card (missing (mem t) root V) + (N - n) \<le> card (free_addrs t)"
    and "r \<in> R \<Longrightarrow> r \<noteq> root \<Longrightarrow> leaf (mem t) r vb = leaf (mem s) r vb"
    and "\<forall>k < n. \<not> same_page (entry + of_nat k * PAGE_SIZE) vb \<Longrightarrow> leaf (mem t) root vb = 0"
    and "k < n \<Longrightarrow> same_page (entry + of_nat k * PAGE_SIZE) vb \<Longrightarrow> leaf (mem t) root vb = s2_entry (F k) guest_attr"
    and "k < n \<Longrightarrow> page_ok (F k)" and "k < n \<Longrightarrow> F k \<in> free_addrs s"
    and "k < n \<Longrightarrow> i < 4096 \<Longrightarrow> mem t (F k + of_nat i) = image_byte s g (k * 4096 + i)"
    and "\<forall>p \<in> free_addrs s. b \<notin> span p 4096 \<Longrightarrow> \<forall>p \<in> tables (mem s) R. b \<notin> span p 4096 \<Longrightarrow> mem t b = mem s b"
    and "tables (mem t) R \<subseteq> tables (mem s) R \<union> free_addrs s"
  using assms unfolding loading_def by blast+


lemma missing_va: "card (missing m root V) + j \<le> card A \<Longrightarrow> 0 < j \<Longrightarrow> A \<noteq> {}"
  by auto

lemma guest_attr_clear: "guest_attr AND 0xfffffffff000 = 0"
  by (simp add: S2PTE_NORMAL_def S2PTE_RW_def S2PTE_S2AP_def S2PTE_ATTR_def AI_NORMAL_NC_IDX_def)

lemma PTE_PA_guest: "page_ok p \<Longrightarrow> PTE_PA (s2_entry p guest_attr) = p"
  using PTE_PA_s2_entry [OF guest_attr_clear] by (simp add: page_ok_def)

text \<open>The state once a page has been allocated and filled.\<close>

lemma page_taken:
  assumes iso: "isolated D R t" and p: "p \<in> free_addrs t" "p \<notin> tables (mem t) R" "p \<notin> D"
    and u: "pt_inv R (t\<lparr>g_allocator := a\<rparr>)" "clean (t\<lparr>g_allocator := a\<rparr>)"
      "free_addrs (t\<lparr>g_allocator := a\<rparr>) = free_addrs t - {p}" "page_addrs (t\<lparr>g_allocator := a\<rparr>) = page_addrs t"
    and m: "\<And>b. b \<notin> span p 4096 \<Longrightarrow> m b = mem t b" and root: "root \<in> R"
  defines "t' \<equiv> t\<lparr>g_allocator := a, mem := m\<rparr>"
  shows "isolated D R t'" and "unowned R t' p" and "missing m root V = missing (mem t) root V"
    and "tables m R = tables (mem t) R" and "same_leaves R (mem t) m"
proof -
  have ok: "page_ok q" if "q \<in> page_addrs t" for q
    using page_addrs_ok [OF isolatedD(1) [OF iso] that] .
  have q: "m b = mem t b" if "q \<in> tables (mem t) R \<union> (free_addrs t - {p})" "b \<in> span q 4096" for q b
  proof -
    have "q \<in> page_addrs t" "q \<noteq> p" "p \<in> page_addrs t"
      using that(1) p isolatedD(1) [OF iso] free_page_addrs_sub [of t] by (auto simp: pt_inv_def)
    then show ?thesis
      using page_spans_disjoint [OF ok ok, of q p] that(2) by (intro m) blast
  qed
  have same: "m b = mem (t\<lparr>g_allocator := a\<rparr>) b" if "q \<in> tables (mem (t\<lparr>g_allocator := a\<rparr>)) R" "b \<in> span q 4096" for q b
    using q [of q b] that by simp
  have f: "m b = mem (t\<lparr>g_allocator := a\<rparr>) b" if "q \<in> free_addrs (t\<lparr>g_allocator := a\<rparr>)" "b \<in> span q 4096" for q b
    using q [of q b] that u(3) by (simp del: mem_span)
  have w: "pt_inv R (t\<lparr>g_allocator := a, mem := m\<rparr>)" "same_leaves R (mem (t\<lparr>g_allocator := a\<rparr>)) m"
    "tables m R = tables (mem (t\<lparr>g_allocator := a\<rparr>)) R" "missing m root V = missing (mem (t\<lparr>g_allocator := a\<rparr>)) root V"
    "clean (t\<lparr>g_allocator := a, mem := m\<rparr>)"
    using data_write [OF u(1), of m] same f u(2) root by blast+
  then show tb: "tables m R = tables (mem t) R" and sl: "same_leaves R (mem t) m"
      and "missing m root V = missing (mem t) root V"
    by simp_all
  have pt: "pt_inv R t'" and clean: "clean t'"
    using w(1,5) by (simp_all add: t'_def)
  show "isolated D R t'" "unowned R t' p"
    using isolated_take [OF iso p(1,3) pt clean] u(3,4) tb sl by (simp_all add: t'_def)
qed

lemma same_page_refl: "same_page va va"
  by (simp add: same_page_def)

lemma restate:
  assumes "t = s\<lparr>mem := m1, g_allocator := a1\<rparr>" and "t' = t\<lparr>g_allocator := a2, mem := m2, mem := m3, g_allocator := a3\<rparr>"
  shows "t' = s\<lparr>mem := m3, g_allocator := a3\<rparr>"
  using assms by simp

lemma loading_step:
  assumes L: "loading D R root entry V N g s F n t" and n: "n < N" and root: "root \<in> R" and D: "D \<inter> free_addrs s = {}"
    and al: "unat entry mod 4096 = 0" "unat entry + N * 4096 \<le> 2 ^ 48"
    and p: "p \<in> free_addrs t" "page_ok p"
    and m: "\<And>b. b \<notin> span p 4096 \<Longrightarrow> m b = mem t b" "\<And>i. i < 4096 \<Longrightarrow> m (p + of_nat i) = image_byte s g (n * 4096 + i)"
    and u: "unowned R u p" "missing m root V = missing (mem t) root V" "tables m R = tables (mem t) R" "same_leaves R (mem t) m"
      "free_addrs u = free_addrs t - {p}" "page_addrs u = page_addrs t" "isolated D R u"
    and u_def: "u = t\<lparr>g_allocator := a, mem := m\<rparr>"
    and M: "mapped R root V (page_to (entry + of_nat n * PAGE_SIZE) (s2_entry p guest_attr)) u t'"
  shows "loading D R root entry V N g s (F(n := p)) (Suc n) t'"
proof -
  let ?va = "entry + of_nat n * PAGE_SIZE"
  have mu: "mem u = m" by (simp add: u_def)
  have iso: "isolated D R t'"
    using isolated_map [OF u(7) M root] u(1) PTE_PA_guest [OF p(2)] by simp
  have G: "t' = u\<lparr>mem := mem t', g_allocator := g_allocator t'\<rparr>" "page_addrs t' = page_addrs u" "free_addrs t' \<subseteq> free_addrs u"
    "tables (mem t') R = tables m R \<union> (free_addrs u - free_addrs t')"
    "(\<forall>q \<in> tables (mem t') R. b \<notin> span q 4096) \<longrightarrow> mem t' b = m b" for b
    using M unfolding mapped_def grown_def mu by blast+
  have lv: "leaf (mem t') r vb = (if r = root \<and> same_page ?va vb then s2_entry p guest_attr else leaf (mem t) r vb)" if "r \<in> R" for r vb
    using M that u(4) by (auto simp: mapped_def new_leaves_def page_to_def mu same_leaves_def)
  have old: "\<not> same_page ?va vb" if "k < n" "same_page (entry + of_nat k * PAGE_SIZE) vb" for k vb
    using range_pages_distinct [OF al, of k n] that n by (auto simp: same_page_def)
  have new: "leaf (mem t') root vb = s2_entry ((F(n := p)) k) guest_attr"
    if "k < Suc n" "same_page (entry + of_nat k * PAGE_SIZE) vb" for k vb
    using that lv [OF root, of vb] old [of k vb] loadingD(8) [OF L, of k vb] by (auto simp: less_Suc_eq)
  have F: "page_ok ((F(n := p)) k)" "(F(n := p)) k \<in> free_addrs s" if "k < Suc n" for k
    using that loadingD(9,10) [OF L, of k] p loadingD(3) [OF L] by (auto simp: less_Suc_eq)
  have tabs: "tables (mem t') R \<subseteq> tables (mem s) R \<union> free_addrs s"
    using G(3,4) u(3,5) loadingD(3,13) [OF L] by blast
  have tok: "page_ok q" if "q \<in> tables (mem t') R" for q
    using that isolatedD(1) [OF iso] page_addrs_ok [of R t' q] unfolding pt_inv_def by blast
  have inside: "f + of_nat i \<notin> span q 4096" if "page_ok f" "page_ok q" "i < 4096" "q \<noteq> f" for f q i
    using page_spans_disjoint [of f q] that by (auto simp: unat_of_nat disjoint_iff)
  show ?thesis
    unfolding loading_def
  proof (intro conjI allI ballI impI iso)
    show "t' = s\<lparr>mem := mem t', g_allocator := g_allocator t'\<rparr>"
      using loadingD(1) [OF L] G(1) unfolding u_def by (rule restate)
    show "page_addrs t' = page_addrs s" "free_addrs t' \<subseteq> free_addrs s"
      using G(2,3) u(5,6) loadingD(2,3) [OF L] by auto
    show "tables (mem t') R \<subseteq> tables (mem s) R \<union> free_addrs s"
      by (rule tabs)
    show "card (missing (mem t') root V) + (N - Suc n) \<le> card (free_addrs t')"
    proof -
      have "card (missing (mem t) root V) + card (free_addrs t') = card (missing (mem t') root V) + card (free_addrs u)"
        using M u(2) by (simp add: mapped_def mu)
      moreover have "card (free_addrs u) = card (free_addrs t) - 1"
        using u(5) p(1) by (simp add: card_Diff_singleton)
      ultimately show ?thesis using loadingD(5) [OF L] n by linarith
    qed
  next
    fix r vb
    assume "r \<in> R - {root}"
    then show "leaf (mem t') r vb = leaf (mem s) r vb"
      using lv [of r vb] loadingD(6) [OF L, of r vb] by auto
  next
    fix vb
    assume "\<forall>k < Suc n. \<not> same_page (entry + of_nat k * PAGE_SIZE) vb"
    then show "leaf (mem t') root vb = 0"
      using lv [OF root, of vb] loadingD(7) [OF L, of vb] by simp
  next
    fix k i :: nat
    assume k: "k < Suc n" and i: "i < 4096"
    let ?f = "(F(n := p)) k"
    have l: "leaf (mem t') root (entry + of_nat k * PAGE_SIZE) = s2_entry ?f guest_attr"
      using new [OF k, of "entry + of_nat k * PAGE_SIZE"] by (simp add: same_page_def)
    have "?f \<notin> tables (mem t') R"
      using isolatedD(3) [OF iso root, of "entry + of_nat k * PAGE_SIZE"] s2_entry_nonzero F [OF k] D
      unfolding l PTE_PA_guest [OF F(1) [OF k]] by blast
    then have "mem t' (?f + of_nat i) = m (?f + of_nat i)"
      using G(5) [of "?f + of_nat i"] inside [OF F(1) [OF k], of _ i] i F(1) [OF k] tok by blast
    moreover have "m (?f + of_nat i) = image_byte s g (k * 4096 + i)"
    proof (cases "k = n")
      case False
      then have k': "k < n" using k by simp
      have "F k \<noteq> p"
        using isolatedD(3) [OF loadingD(4) [OF L] root, of "entry + of_nat k * PAGE_SIZE"] s2_entry_nonzero D p(1)
          loadingD(10) [OF L k']
        unfolding loadingD(8) [OF L k' same_page_refl] PTE_PA_guest [OF loadingD(9) [OF L k']] by blast
      then have "m (F k + of_nat i) = mem t (F k + of_nat i)"
        using inside [OF loadingD(9) [OF L k'] p(2) i] by (intro m(1)) blast
      with False show ?thesis using loadingD(11) [OF L k' i] by simp
    qed (use m(2) [OF i] in simp)
    ultimately show "mem t' (?f + of_nat i) = image_byte s g (k * 4096 + i)" by simp
  next
    fix b
    assume b: "\<forall>q \<in> free_addrs s. b \<notin> span q 4096" "\<forall>q \<in> tables (mem s) R. b \<notin> span q 4096"
    then have "\<forall>q \<in> tables (mem t') R. b \<notin> span q 4096"
      using tabs by blast
    then have "mem t' b = m b" using G(5) by blast
    also have "\<dots> = mem t b" using b(1) p(1) loadingD(3) [OF L] by (intro m(1)) blast
    finally show "mem t' b = mem s b" using loadingD(12) [OF L b] by simp
  qed (use new F in auto)
qed

text \<open>One page: it is allocated, filled by \<open>c\<close> and mapped.\<close>

lemma load_page:
  assumes L: "loading D R root entry V N g s F n t" and n: "n < N" and root: "root \<in> R"
    and al: "unat entry mod 4096 = 0" "unat entry + N * 4096 \<le> 2 ^ 48"
    and V: "finite V" "range_pages entry N \<subseteq> V" and D: "D \<inter> free_addrs s = {}"
    and vm: "v < length (g_vms s)" "stage2_pt (g_vms s ! v) = root"
    and c: "\<And>p a. p \<in> free_addrs t \<Longrightarrow> page_ok p \<Longrightarrow> all_backed t p 4096 \<Longrightarrow> zero_page (mem t) p \<Longrightarrow>
      \<exists>x m. c p (t\<lparr>g_allocator := a\<rparr>) = Inr (x, t\<lparr>g_allocator := a, mem := m\<rparr>) \<and> (\<forall>b. b \<notin> span p 4096 \<longrightarrow> m b = mem t b) \<and>
        (\<forall>i < 4096. m (p + of_nat i) = image_byte s g (n * 4096 + i))"
  shows "wp (mbind alloc_page (\<lambda>p. if p = 0 then mfail e else mthen (c p) (map_guest_page v (entry + of_nat n * PAGE_SIZE) p)))
    (\<lambda>_ t'. \<exists>F. loading D R root entry V N g s F (Suc n) t') t"
proof -
  note iso = loadingD(4) [OF L]
  have "free_addrs t \<noteq> {}"
    using loadingD(5) [OF L] n by (intro missing_va [of "mem t" root V "N - n"]) simp_all
  then obtain p a where a: "alloc_page t = Inr (p, t\<lparr>g_allocator := a\<rparr>)" "p \<in> free_addrs t" "p \<notin> tables (mem t) R"
      "page_ok p" "zero_page (mem t) p" "all_backed t p 4096" "pt_inv R (t\<lparr>g_allocator := a\<rparr>)" "clean (t\<lparr>g_allocator := a\<rparr>)"
      "free_addrs (t\<lparr>g_allocator := a\<rparr>) = free_addrs t - {p}" "page_addrs (t\<lparr>g_allocator := a\<rparr>) = page_addrs t"
    using alloc_data [OF isolatedD(1,2) [OF iso]] by metis
  obtain x m where m: "c p (t\<lparr>g_allocator := a\<rparr>) = Inr (x, t\<lparr>g_allocator := a, mem := m\<rparr>)" "\<And>b. b \<notin> span p 4096 \<Longrightarrow> m b = mem t b"
      "\<And>i. i < 4096 \<Longrightarrow> m (p + of_nat i) = image_byte s g (n * 4096 + i)"
    using c [OF a(2,4,6,5), of a] by blast
  let ?u = "t\<lparr>g_allocator := a, mem := m\<rparr>" and ?va = "entry + of_nat n * PAGE_SIZE"
  have pD: "p \<notin> D"
    using D a(2) loadingD(3) [OF L] by blast
  have u: "isolated D R ?u" "unowned R ?u p" "missing m root V = missing (mem t) root V"
    "tables m R = tables (mem t) R" "same_leaves R (mem t) m"
    using page_taken(1,2,4,5) [OF iso a(2,3) pD a(7-10), of m root] page_taken(3) [OF iso a(2,3) pD a(7-10), of m root V] m(2) root by blast+
  have fr: "free_addrs ?u = free_addrs t - {p}" "page_addrs ?u = page_addrs t"
    using a(9,10) by simp_all
  then have cf: "card (free_addrs ?u) = card (free_addrs t) - 1"
    using a(2) by (simp add: card_Diff_singleton)
  have lf: "leaf m root ?va = 0"
    using u(5) root loadingD(7) [OF L, of ?va] range_pages_distinct [OF al _ n] n
    by (auto simp: same_leaves_def)
  have va: "unat ?va = unat entry + n * 4096"
    using unat_page_offset [OF al(2) n] by simp
  have w: "wp (pagemap root ?va p PAGE_SIZE guest_attr) (\<lambda>_. mapped R root V (range_to ?va p guest_attr 1) ?u) ?u"
  proof (rule pagemap_run [OF isolatedD(1,2) [OF u(1)] root _ _ _ _ V(1)])
    show "unat ?va mod 4096 = 0" "unat p mod 4096 = 0" "unat PAGE_SIZE = 1 * 4096"
      using va al(1) unat_page_ok(1) [OF a(4)] by (simp_all add: PAGE_SIZE_def)
    show "unat ?va + 1 * 4096 \<le> 2 ^ 48"
      using va al(2) n by simp
    show "range_pages ?va 1 \<subseteq> V"
      using V(2) n by (auto simp: range_pages_def lessThan_Suc)
    show "card (missing (mem ?u) root V) \<le> card (free_addrs ?u)"
      using loadingD(5) [OF L] n u(3) cf by simp
    show "\<forall>k < 1. leaf (mem ?u) root (?va + of_nat k * PAGE_SIZE) AND PTE_AF = 0"
      using lf by simp
  qed
  have r1: "range_to ?va p guest_attr 1 = page_to ?va (s2_entry p guest_attr)"
    by (simp add: page_to_def fun_eq_iff)
  have fin: "loading D R root entry V N g s (F(n := p)) (Suc n) t'"
    if M: "mapped R root V (page_to ?va (s2_entry p guest_attr)) ?u t'" for t'
    by (rule loading_step [OF L n root D al a(2,4) m(2,3) u(2-5) fr u(1) refl M])
  have vmat: "vm_at v ?u = Inr (g_vms s ! v, ?u)"
  proof -
    have "g_vms t = g_vms s"
      using arg_cong [OF loadingD(1) [OF L], of g_vms] by simp
    with vm(1) show ?thesis by (simp add: run)
  qed
  have "wp (map_guest_page v ?va p) (\<lambda>_ t'. \<exists>F. loading D R root entry V N g s F (Suc n) t') ?u"
    using w fin unfolding r1 map_guest_page_def wp_def mbind_run [where m = "vm_at v", OF vmat] vm(2) by (auto split: sum.splits)
  moreover have "p \<noteq> 0"
    using a(4) by (simp add: page_ok_def)
  ultimately show ?thesis
    using m(1) by (simp add: wp_def mbind_def a(1))
qed


section \<open>The pages of a guest\<close>

abbreviation file_size :: "guest \<Rightarrow> u64" where
  "file_size g \<equiv> guest_end g - guest_start g"

definition file_pages :: "guest \<Rightarrow> nat" where
  "file_pages g = page_count 0 (file_size g)"

definition zero_pages :: "guest \<Rightarrow> nat" where
  "zero_pages g = page_count (after_pages 0 (file_size g)) (guest_size g)"

definition ram_pages :: "guest \<Rightarrow> u64 \<Rightarrow> nat" where
  "ram_pages g ram = page_count (after_pages (after_pages 0 (file_size g)) (guest_size g)) ram"

definition guest_pages :: "guest \<Rightarrow> u64 \<Rightarrow> nat" where
  "guest_pages g ram = file_pages g + zero_pages g + ram_pages g ram"

text \<open>
  What \<open>create_vm\<close> expects of an image: it is in memory, apart from the pages that the
  hypervisor hands out.
\<close>

definition image_ok :: "hyp \<Rightarrow> guest \<Rightarrow> bool" where
  "image_ok s g \<longleftrightarrow> all_backed s (guest_start g) (unat (file_size g)) \<and>
     unat (guest_start g) + unat (file_size g) \<le> 2 ^ 64 \<and>
     (\<forall>p \<in> page_addrs s. span (guest_start g) (unat (file_size g)) \<inter> span p 4096 = {})"

lemma after_pages_eq: "after_pages (of_nat a * PAGE_SIZE) hi = of_nat (a + page_count (of_nat a * PAGE_SIZE) hi) * PAGE_SIZE"
  by (simp add: after_pages_def algebra_simps)

lemma wp_pages:
  assumes "\<exists>F. loading D R root entry V N g s F a t"
    and "\<And>n F u. a \<le> n \<Longrightarrow> n < a + page_count (of_nat a * PAGE_SIZE) hi \<Longrightarrow> loading D R root entry V N g s F n u \<Longrightarrow>
      wp (f (of_nat n * PAGE_SIZE)) (\<lambda>_ t'. \<exists>F. loading D R root entry V N g s F (Suc n) t') u"
  shows "wp (mfor (page_offsets (of_nat a * PAGE_SIZE) hi) f)
    (\<lambda>_ t'. \<exists>F. loading D R root entry V N g s F (a + page_count (of_nat a * PAGE_SIZE) hi) t') t"
proof -
  let ?c = "page_count (of_nat a * PAGE_SIZE) hi"
  have l: "length (page_offsets (of_nat a * PAGE_SIZE) hi) = ?c"
    by (simp add: page_offsets_def)
  have "wp (mfor (page_offsets (of_nat a * PAGE_SIZE) hi) f)
    (\<lambda>_ t'. \<exists>F. loading D R root entry V N g s F (a + length (page_offsets (of_nat a * PAGE_SIZE) hi)) t') t"
  proof (rule wp_mfor)
    fix k u
    assume k: "k < length (page_offsets (of_nat a * PAGE_SIZE) hi)" and "\<exists>F. loading D R root entry V N g s F (a + k) u"
    moreover from k have "page_offsets (of_nat a * PAGE_SIZE) hi ! k = of_nat (a + k) * PAGE_SIZE"
      by (simp add: page_offsets_def algebra_simps)
    ultimately show "wp (f (page_offsets (of_nat a * PAGE_SIZE) hi ! k)) (\<lambda>_ t'. \<exists>F. loading D R root entry V N g s F (a + Suc k) t') u"
      using assms(2) [of "a + k"] unfolding l by auto
  qed (use assms(1) in simp)
  then show ?thesis unfolding l .
qed

text \<open>The contents that the three loops give to a page.\<close>

lemma unat_page: "n * 4096 < 2 ^ 64 \<Longrightarrow> unat (of_nat n * PAGE_SIZE) = n * 4096"
  by (simp add: PAGE_SIZE_def unat_word_ariths unat_of_nat)

lemma loading_image:
  assumes L: "loading D R root entry V N g s F n t" and inv: "pt_inv R s" and img: "image_ok s g"
    and off: "off < unat (file_size g)"
  shows "mem t (guest_start g + of_nat off) = mem s (guest_start g + of_nat off)"
proof (rule loadingD(12) [OF L])
  have "guest_start g + of_nat off \<in> span (guest_start g) (unat (file_size g))"
    using off unsigned_less [of "file_size g", where 'a = nat] by (simp add: unat_of_nat)
  then have o: "guest_start g + of_nat off \<notin> span p 4096" if "p \<in> page_addrs s" for p
    using img that unfolding image_ok_def by blast
  show "\<forall>p \<in> free_addrs s. guest_start g + of_nat off \<notin> span p 4096"
    using o free_page_addrs_sub [of s] by blast
  show "\<forall>p \<in> tables (mem s) R. guest_start g + of_nat off \<notin> span p 4096"
    using o inv unfolding pt_inv_def by blast
qed

lemma fill_zero:
  assumes "unat (file_size g) \<le> n * 4096" and "page_ok p" and "all_backed t p 4096"
  shows "memset p 0 PAGE_SIZE (t\<lparr>g_allocator := a\<rparr>) = Inr (p, t\<lparr>g_allocator := a, mem := filled (mem t) p 0 4096\<rparr>)"
    and "b \<notin> span p 4096 \<Longrightarrow> filled (mem t) p 0 4096 b = mem t b"
    and "i < 4096 \<Longrightarrow> filled (mem t) p 0 4096 (p + of_nat i) = image_byte s g (n * 4096 + i)"
  using assms by (simp_all add: memset_run PAGE_SIZE_def filled_def image_byte_def unat_of_nat)


definition chunk :: "guest \<Rightarrow> u64 \<Rightarrow> u64" where
  "chunk g off = (if file_size g - off < PAGE_SIZE then file_size g - off else PAGE_SIZE)"

lemma file_pages_less: "n < file_pages g \<Longrightarrow> n * 4096 < unat (file_size g)"
  by (simp add: file_pages_def page_count_def)

lemma unat_chunk:
  assumes "n < file_pages g"
  shows "unat (chunk g (of_nat n * PAGE_SIZE)) = min (unat (file_size g) - n * 4096) 4096"
proof -
  note n = file_pages_less [OF assms]
  have "unat (of_nat n * PAGE_SIZE) = n * 4096"
    using n unsigned_less [of "file_size g", where 'a = nat] by (intro unat_page) simp
  then have "unat (file_size g - of_nat n * PAGE_SIZE) = unat (file_size g) - n * 4096"
    using n by (simp add: unat_sub_if')
  then show ?thesis
    by (auto simp: chunk_def word_less_nat_alt PAGE_SIZE_def)
qed

lemma fill_file:
  assumes L: "loading D R root entry V N g s F n t" and inv: "pt_inv R s" and img: "image_ok s g" and n: "n < file_pages g"
    and p: "page_ok p" "all_backed t p 4096" "zero_page (mem t) p"
  defines "src \<equiv> guest_start g + of_nat n * PAGE_SIZE" and "k \<equiv> chunk g (of_nat n * PAGE_SIZE)"
  shows "memcpy p src k (t\<lparr>g_allocator := a\<rparr>) = Inr (p, t\<lparr>g_allocator := a, mem := copied (mem t) p src (unat k)\<rparr>)"
    and "b \<notin> span p 4096 \<Longrightarrow> copied (mem t) p src (unat k) b = mem t b"
    and "i < 4096 \<Longrightarrow> copied (mem t) p src (unat k) (p + of_nat i) = image_byte s g (n * 4096 + i)"
proof -
  note f = file_pages_less [OF n]
  have im: "all_backed s (guest_start g) (unat (file_size g))" "unat (guest_start g) + unat (file_size g) \<le> 2 ^ 64"
    using img by (simp_all add: image_ok_def)
  have k: "unat k = min (unat (file_size g) - n * 4096) 4096"
    unfolding k_def by (rule unat_chunk [OF n])
  have s: "src = guest_start g + of_nat (n * 4096)" "unat src = unat (guest_start g) + n * 4096"
    using f im(2) by (simp_all add: src_def PAGE_SIZE_def unat_word_ariths unat_of_nat)
  have bk: "all_backed t = all_backed s"
    using arg_cong [OF loadingD(1) [OF L], of all_backed] by simp
  have "all_backed s src (unat k)"
    using k f by (intro all_backed_sub [OF im(1) s(1)]) simp
  moreover have "all_backed t p (unat k)"
    using k by (intro all_backed_sub [OF p(2), of _ 0]) simp_all
  moreover have "unat src + unat k \<le> 2 ^ 64" "unat p + unat k \<le> 2 ^ 64"
    using im(2) k f s(2) unat_page_ok(2) [OF p(1)] by simp_all
  ultimately show "memcpy p src k (t\<lparr>g_allocator := a\<rparr>) = Inr (p, t\<lparr>g_allocator := a, mem := copied (mem t) p src (unat k)\<rparr>)"
    using bk by (simp add: memcpy_def memmove_run)
  show "b \<notin> span p 4096 \<Longrightarrow> copied (mem t) p src (unat k) b = mem t b"
    using k by (simp add: copied_def)
  assume i: "i < 4096"
  then have z: "mem t (p + of_nat i) = 0"
    using p(3) by (auto simp: zero_page_def unat_of_nat)
  show "copied (mem t) p src (unat k) (p + of_nat i) = image_byte s g (n * 4096 + i)"
  proof (cases "i < unat k")
    case True
    then have "n * 4096 + i < unat (file_size g)" using k by linarith
    moreover have "src + of_nat i = guest_start g + of_nat (n * 4096 + i)"
      by (simp add: s(1) add.assoc)
    ultimately show ?thesis
      using True i loading_image [OF L inv img, of "n * 4096 + i"] by (simp add: copied_def image_byte_def unat_of_nat add.assoc)
  next
    case False
    then have "\<not> n * 4096 + i < unat (file_size g)" using k i f by linarith
    then show ?thesis
      using False i z by (simp add: copied_def image_byte_def unat_of_nat)
  qed
qed


section \<open>The loops of \<open>create_vm\<close>\<close>

text \<open>A guest that can be loaded at \<open>entry\<close>; \<open>v\<close> is its virtual machine and \<open>root\<close> its table.\<close>

definition guest_ok :: "u64 set \<Rightarrow> u64 \<Rightarrow> nat \<Rightarrow> guest \<Rightarrow> u64 \<Rightarrow> u64 \<Rightarrow> hyp \<Rightarrow> bool" where
  "guest_ok R root v g entry ram s \<longleftrightarrow> isolated {UARTBASE} R s \<and> UARTBASE \<notin> free_addrs s \<and> image_ok s g \<and>
     root \<in> R \<and> v < length (g_vms s) \<and> stage2_pt (g_vms s ! v) = root \<and> (\<forall>va. leaf (mem s) root va = 0) \<and>
     unat entry mod 4096 = 0 \<and> unat entry + guest_pages g ram * 4096 \<le> 2 ^ 48 \<and>
     (unat entry + guest_pages g ram * 4096 \<le> unat UARTBASE \<or> unat UARTBASE < unat entry) \<and>
     guest_pages g ram + 3 * (guest_pages g ram div 512 + 3) \<le> card (free_addrs s)"

lemma map_file_page_eq: "map_file_page v (guest_start g) (file_size g) entry off =
  mbind alloc_page (\<lambda>p. if p = 0 then mfail (Panic ''[create_vm] no mem 2'')
    else mthen (memcpy p (guest_start g + off) (chunk g off)) (map_guest_page v (entry + off) p))"
  unfolding map_file_page_def chunk_def Let_def ..

lemma map_ram_page_eq: "map_ram_page v entry off =
  mbind alloc_page (\<lambda>p. if p = 0 then mfail (Panic ''[create_vm] no mem 3'')
    else mthen (mret p) (map_guest_page v (entry + off) p))"
  unfolding map_ram_page_def by (rule arg_cong [of _ _ "mbind alloc_page"]) (auto simp: fun_eq_iff mbind_def mret_def)

lemma load_pages:
  assumes ok: "guest_ok R root v g entry ram s" and V: "finite V" "range_pages entry (guest_pages g ram) \<subseteq> V"
    and L: "loading {UARTBASE} R root entry V (guest_pages g ram) g s F n t" and n: "n < guest_pages g ram"
  shows "n < file_pages g \<Longrightarrow> wp (map_file_page v (guest_start g) (file_size g) entry (of_nat n * PAGE_SIZE))
      (\<lambda>_ t'. \<exists>F. loading {UARTBASE} R root entry V (guest_pages g ram) g s F (Suc n) t') t"
    and "unat (file_size g) \<le> n * 4096 \<Longrightarrow> wp (map_zero_page v entry (of_nat n * PAGE_SIZE))
      (\<lambda>_ t'. \<exists>F. loading {UARTBASE} R root entry V (guest_pages g ram) g s F (Suc n) t') t"
    and "unat (file_size g) \<le> n * 4096 \<Longrightarrow> wp (map_ram_page v entry (of_nat n * PAGE_SIZE))
      (\<lambda>_ t'. \<exists>F. loading {UARTBASE} R root entry V (guest_pages g ram) g s F (Suc n) t') t"
proof -
  have o: "pt_inv R s" "image_ok s g" "root \<in> R" "unat entry mod 4096 = 0" "unat entry + guest_pages g ram * 4096 \<le> 2 ^ 48"
    "{UARTBASE} \<inter> free_addrs s = {}" "v < length (g_vms s)" "stage2_pt (g_vms s ! v) = root"
    using ok by (auto simp: guest_ok_def isolated_def)
  note page = load_page [OF L n o(3,4,5) V o(6,7,8)]
  show "wp (map_file_page v (guest_start g) (file_size g) entry (of_nat n * PAGE_SIZE))
      (\<lambda>_ t'. \<exists>F. loading {UARTBASE} R root entry V (guest_pages g ram) g s F (Suc n) t') t" if f: "n < file_pages g"
    unfolding map_file_page_eq by (rule page) (use fill_file [OF L o(1,2) f] in blast)
  show "wp (map_zero_page v entry (of_nat n * PAGE_SIZE))
      (\<lambda>_ t'. \<exists>F. loading {UARTBASE} R root entry V (guest_pages g ram) g s F (Suc n) t') t" if f: "unat (file_size g) \<le> n * 4096"
    unfolding map_zero_page_def by (rule page) (use fill_zero [OF f] in blast)
  show "wp (map_ram_page v entry (of_nat n * PAGE_SIZE))
      (\<lambda>_ t'. \<exists>F. loading {UARTBASE} R root entry V (guest_pages g ram) g s F (Suc n) t') t" if f: "unat (file_size g) \<le> n * 4096"
    unfolding map_ram_page_eq
  proof (rule page)
    fix p a
    assume "zero_page (mem t) p"
    then have "\<forall>i < 4096. mem t (p + of_nat i) = image_byte s g (n * 4096 + i)"
      using f by (auto simp: zero_page_def image_byte_def unat_of_nat)
    then show "\<exists>x m. mret p (t\<lparr>g_allocator := a\<rparr>) = Inr (x, t\<lparr>g_allocator := a, mem := m\<rparr>) \<and>
        (\<forall>b. b \<notin> span p 4096 \<longrightarrow> m b = mem t b) \<and> (\<forall>i < 4096. m (p + of_nat i) = image_byte s g (n * 4096 + i))"
      by (intro exI [of _ p] exI [of _ "mem t"]) (simp add: run)
  qed
qed


abbreviation guest_vas :: "u64 \<Rightarrow> guest \<Rightarrow> u64 \<Rightarrow> u64 set" where
  "guest_vas entry g ram \<equiv> insert UARTBASE (range_pages entry (guest_pages g ram))"

lemma guest_vas_finite: "finite (guest_vas entry g ram)" "range_pages entry (guest_pages g ram) \<subseteq> guest_vas entry g ram"
  by (auto simp: range_pages_def)

lemma missing_Un: "missing m root (A \<union> B) = missing m root A \<union> missing m root B"
  by (auto simp: missing_def)

lemma loading_start:
  assumes ok: "guest_ok R root v g entry ram s"
  shows "loading {UARTBASE} R root entry (guest_vas entry g ram) (guest_pages g ram) g s F 0 s"
proof -
  let ?N = "guest_pages g ram"
  have l: "unat entry + ?N * 4096 \<le> 2 ^ 48"
    using ok by (simp add: guest_ok_def)
  have "card (missing (mem s) root (guest_vas entry g ram)) \<le> card (missing (mem s) root {UARTBASE}) + card (missing (mem s) root (range_pages entry ?N))"
    using missing_Un [of "mem s" root "{UARTBASE}" "range_pages entry ?N"] card_Un_le by simp
  also have "\<dots> \<le> 3 + 3 * (?N div 512 + 2)"
    using card_missing_range [OF l, of "mem s" root] card_missing_le [of "{UARTBASE}" "mem s" root] by simp
  finally show ?thesis
    using ok by (simp add: loading_def guest_ok_def)
qed

lemma load_guest:
  assumes ok: "guest_ok R root v g entry ram s"
  defines "p1 \<equiv> after_pages 0 (file_size g)" and "p2 \<equiv> after_pages (after_pages 0 (file_size g)) (guest_size g)"
  shows "wp (mthen (mfor (page_offsets 0 (file_size g)) (map_file_page v (guest_start g) (file_size g) entry))
      (mthen (mfor (page_offsets p1 (guest_size g)) (map_zero_page v entry))
      (mfor (page_offsets p2 ram) (map_ram_page v entry))))
    (\<lambda>_ t. \<exists>F. loading {UARTBASE} R root entry (guest_vas entry g ram) (guest_pages g ram) g s F (guest_pages g ram) t) s"
proof -
  let ?V = "guest_vas entry g ram" and ?N = "guest_pages g ram" and ?z = "of_nat 0 * PAGE_SIZE"
  let ?L = "\<lambda>n t. \<exists>F. loading {UARTBASE} R root entry ?V ?N g s F n t"
  have p1: "p1 = of_nat (file_pages g) * PAGE_SIZE"
    using after_pages_eq [of 0 "file_size g"] by (simp add: p1_def file_pages_def)
  then have zp: "zero_pages g = page_count (of_nat (file_pages g) * PAGE_SIZE) (guest_size g)"
    by (simp add: zero_pages_def p1_def)
  then have p2: "p2 = of_nat (file_pages g + zero_pages g) * PAGE_SIZE"
    using after_pages_eq [of "file_pages g" "guest_size g"] p1 by (simp add: p2_def p1_def)
  then have rp: "ram_pages g ram = page_count (of_nat (file_pages g + zero_pages g) * PAGE_SIZE) ram"
    by (simp add: ram_pages_def p2_def)
  note pages = load_pages [OF ok guest_vas_finite]
  have past: "unat (file_size g) \<le> n * 4096" if "file_pages g \<le> n" for n
    using that by (simp add: file_pages_def page_count_def)
  have f: "wp (mfor (page_offsets ?z (file_size g)) (map_file_page v (guest_start g) (file_size g) entry))
      (\<lambda>_. ?L (0 + page_count ?z (file_size g))) s"
    by (rule wp_pages) (use loading_start [OF ok] pages(1) in \<open>auto simp: file_pages_def guest_pages_def\<close>)
  have z: "wp (mfor (page_offsets p1 (guest_size g)) (map_zero_page v entry)) (\<lambda>_. ?L (file_pages g + zero_pages g)) t"
    if "?L (file_pages g) t" for t
    unfolding p1 zp by (rule wp_pages) (use that pages(2) past in \<open>auto simp: guest_pages_def zp [symmetric]\<close>)
  have r: "wp (mfor (page_offsets p2 ram) (map_ram_page v entry)) (\<lambda>_. ?L ?N) t"
    if "?L (file_pages g + zero_pages g) t" for t
  proof -
    let ?fz = "file_pages g + zero_pages g"
    have N: "?N = ?fz + page_count (of_nat ?fz * PAGE_SIZE) ram"
      using rp by (simp add: guest_pages_def)
    have "wp (mfor (page_offsets (of_nat ?fz * PAGE_SIZE) ram) (map_ram_page v entry)) (\<lambda>_. ?L (?fz + page_count (of_nat ?fz * PAGE_SIZE) ram)) t"
      using that
    proof (rule wp_pages)
      fix n F u
      assume "?fz \<le> n" "n < ?fz + page_count (of_nat ?fz * PAGE_SIZE) ram" "loading {UARTBASE} R root entry ?V ?N g s F n u"
      then show "wp (map_ram_page v entry (of_nat n * PAGE_SIZE)) (\<lambda>_. ?L (Suc n)) u"
        using pages(3) past [of n] N by simp
    qed
    then show ?thesis unfolding p2 N [symmetric] .
  qed
  have f: "wp (mfor (page_offsets 0 (file_size g)) (map_file_page v (guest_start g) (file_size g) entry)) (\<lambda>_. ?L (file_pages g)) s"
    using f by (simp add: file_pages_def)
  show ?thesis
    unfolding wp_prims by (rule wp_mono [OF f], rule wp_mono [OF z], assumption, rule r)
qed


lemma page_split:
  assumes al: "unat entry mod 4096 = 0" "unat entry + N * 4096 \<le> 2 ^ 48" and off: "off < N * 4096"
  shows "off div 4096 < N" and "same_page (entry + of_nat (off div 4096) * PAGE_SIZE) (entry + of_nat off)"
    and "(entry + of_nat off) AND 0xfff = of_nat (off mod 4096)"
proof -
  let ?k = "off div 4096"
  show k: "?k < N" using off by (simp add: less_mult_imp_div_less)
  have u: "unat (entry + of_nat off) = unat entry + off"
    using al(2) off by (simp add: unat_word_ariths unat_of_nat)
  have v: "unat (entry + of_nat ?k * PAGE_SIZE) = unat entry + ?k * 4096"
    by (rule unat_page_offset [OF al(2) k])
  have o: "off = ?k * 4096 + off mod 4096" by simp
  show "same_page (entry + of_nat ?k * PAGE_SIZE) (entry + of_nat off)"
    by (rule same_page_within [where k = "off mod 4096"]) (use u v al o k in \<open>simp_all add: mod_add_eq [symmetric]\<close>)
  have "unat ((entry + of_nat off) AND 0xfff) = off mod 4096"
    unfolding unat_page_off u using al(1) by (metis add_0 mod_add_left_eq)
  then show "(entry + of_nat off) AND 0xfff = of_nat (off mod 4096)"
    by (simp add: word_unat_eq_iff unat_of_nat)
qed

text \<open>The guest at the end: the pages of its image, and the serial port.\<close>

definition loaded :: "u64 set \<Rightarrow> u64 \<Rightarrow> guest \<Rightarrow> u64 \<Rightarrow> u64 \<Rightarrow> hyp \<Rightarrow> hyp \<Rightarrow> bool" where
  "loaded R root g entry ram s t \<longleftrightarrow>
     (\<forall>off < guest_pages g ram * 4096. mem t (gpa (mem t) root (entry + of_nat off)) = image_byte s g off) \<and>
     (\<forall>va. leaf (mem t) root va \<noteq> 0 \<longrightarrow>
        same_page UARTBASE va \<or> (\<exists>k < guest_pages g ram. same_page (entry + of_nat k * PAGE_SIZE) va))"

definition others_kept :: "u64 set \<Rightarrow> u64 \<Rightarrow> hyp \<Rightarrow> hyp \<Rightarrow> bool" where
  "others_kept R root s t \<longleftrightarrow> (\<forall>r \<in> R - {root}. \<forall>va. leaf (mem t) r va = leaf (mem s) r va \<and>
     (leaf (mem s) r va \<noteq> 0 \<longrightarrow> PTE_PA (leaf (mem s) r va) \<noteq> UARTBASE \<longrightarrow>
        (\<forall>b \<in> span (PTE_PA (leaf (mem s) r va)) 4096. mem t b = mem s b)))"

lemma guest_ok_uart:
  assumes "guest_ok R root v g entry ram s" and "k < guest_pages g ram"
  shows "\<not> same_page (entry + of_nat k * PAGE_SIZE) UARTBASE"
proof -
  have al: "unat entry mod 4096 = 0" "unat entry + guest_pages g ram * 4096 \<le> 2 ^ 48"
    "unat entry + guest_pages g ram * 4096 \<le> unat UARTBASE \<or> unat UARTBASE < unat entry"
    using assms(1) by (simp_all add: guest_ok_def)
  show ?thesis
    using al unat_page_offset [OF al(2) assms(2)] assms(2) by (auto simp: same_page_unat UARTBASE_def)
qed


abbreviation uart_attr :: u64 where
  "uart_attr \<equiv> S2PTE_DEVICE OR S2PTE_RW"

lemma PTE_PA_uart: "PTE_PA (s2_entry UARTBASE uart_attr) = UARTBASE"
  by (subst PTE_PA_s2_entry) (simp_all add: S2PTE_DEVICE_def S2PTE_RW_def S2PTE_S2AP_def S2PTE_ATTR_def
    AI_DEVICE_nGnRnE_IDX_def UARTBASE_def PTE_PA_def)

text \<open>What remains of the loaded guest once the serial port has been mapped.\<close>

lemma loaded_uart:
  assumes ok: "guest_ok R root v g entry ram s"
    and L: "loading {UARTBASE} R root entry V (guest_pages g ram) g s F (guest_pages g ram) t"
    and M: "mapped R root V (page_to UARTBASE (s2_entry UARTBASE uart_attr)) t t'"
  shows "isolated {UARTBASE} R t'" and "loaded R root g entry ram s t'" and "others_kept R root s t'"
proof -
  let ?N = "guest_pages g ram"
  have o: "isolated {UARTBASE} R s" "root \<in> R" "unat entry mod 4096 = 0" "unat entry + ?N * 4096 \<le> 2 ^ 48"
    "UARTBASE \<notin> free_addrs s"
    using ok by (simp_all add: guest_ok_def)
  show iso: "isolated {UARTBASE} R t'"
    using isolated_map [OF loadingD(4) [OF L] M o(2)] PTE_PA_uart by simp
  have G: "free_addrs t' \<subseteq> free_addrs t" "tables (mem t') R = tables (mem t) R \<union> (free_addrs t - free_addrs t')"
    "(\<forall>q \<in> tables (mem t') R. b \<notin> span q 4096) \<longrightarrow> mem t' b = mem t b" for b
    using M unfolding mapped_def grown_def by blast+
  have lv: "leaf (mem t') r vb = (if r = root \<and> same_page UARTBASE vb then s2_entry UARTBASE uart_attr else leaf (mem t) r vb)"
    if "r \<in> R" for r vb
    using M that by (auto simp: mapped_def new_leaves_def page_to_def)
  have tabs: "tables (mem t') R \<subseteq> tables (mem s) R \<union> free_addrs s"
    using G(1,2) loadingD(3,13) [OF L] by blast
  have tok: "page_ok q" if "q \<in> tables (mem t') R" for q
    using that isolatedD(1) [OF iso] page_addrs_ok [of R t' q] unfolding pt_inv_def by blast
  have data: "mem t' (f + of_nat i) = mem t (f + of_nat i)"
    if "leaf (mem t') root va = s2_entry f guest_attr" "page_ok f" "f \<in> free_addrs s" "i < 4096" for f va and i :: nat
  proof -
    have "f \<noteq> UARTBASE" using that(3) o(5) by blast
    then have "f \<notin> tables (mem t') R"
      using isolatedD(3) [OF iso o(2), of va] s2_entry_nonzero that(1) PTE_PA_guest [OF that(2)] by simp
    moreover have "f + of_nat i \<in> span f 4096" using that(4) by (simp add: unat_of_nat)
    ultimately show ?thesis
      using G(3) page_spans_disjoint [OF that(2) tok] by blast
  qed
  show "loaded R root g entry ram s t'"
    unfolding loaded_def
  proof (intro conjI allI impI)
    fix off
    assume "off < ?N * 4096"
    note ps = page_split [OF o(3,4) this]
    let ?k = "off div 4096" and ?va = "entry + of_nat off"
    have "\<not> same_page UARTBASE ?va"
      using guest_ok_uart [OF ok ps(1)] ps(2) by (simp add: same_page_def)
    then have l: "leaf (mem t') root ?va = s2_entry (F ?k) guest_attr"
      using lv [OF o(2), of ?va] loadingD(8) [OF L ps(1,2)] by simp
    then have "gpa (mem t') root ?va = F ?k + of_nat (off mod 4096)"
      using leaf_tbl [of "mem t'" root ?va] s2_entry_nonzero PTE_PA_guest [OF loadingD(9) [OF L ps(1)]] ps(3)
      by (auto simp: gpa_def)
    then show "mem t' (gpa (mem t') root ?va) = image_byte s g off"
      using data [OF l loadingD(9,10) [OF L ps(1)], of "off mod 4096"] loadingD(11) [OF L ps(1), of "off mod 4096"] by simp
  next
    fix va
    assume "leaf (mem t') root va \<noteq> 0"
    then show "same_page UARTBASE va \<or> (\<exists>k < ?N. same_page (entry + of_nat k * PAGE_SIZE) va)"
      using lv [OF o(2), of va] loadingD(7) [OF L, of va] by (auto split: if_splits)
  qed
  show "others_kept R root s t'"
    unfolding others_kept_def
  proof (intro ballI allI conjI impI)
    fix r va
    assume r: "r \<in> R - {root}"
    then show "leaf (mem t') r va = leaf (mem s) r va"
      using lv [of r va] loadingD(6) [OF L, of r va] by auto
    fix b
    let ?f = "PTE_PA (leaf (mem s) r va)"
    assume f: "leaf (mem s) r va \<noteq> 0" "?f \<noteq> UARTBASE" and b: "b \<in> span ?f 4096"
    have own: "?f \<in> page_addrs s - free_addrs s - tables (mem s) R"
      using isolatedD(3) [OF o(1), of r va] r f by blast
    have out: "b \<notin> span q 4096" if "q \<in> tables (mem s) R \<union> free_addrs s" for q
    proof -
      have "q \<in> page_addrs s" using that isolatedD(1) [OF o(1)] free_page_addrs_sub [of s] unfolding pt_inv_def by blast
      then show ?thesis
        using page_spans_disjoint [OF page_addrs_ok page_addrs_ok, OF isolatedD(1) _ isolatedD(1), OF o(1) _ o(1), of ?f q] own b that by blast
    qed
    then have "mem t' b = mem t b" using G(3) tabs by blast
    also have "\<dots> = mem s b" by (rule loadingD(12) [OF L]) (use out in blast)+
    finally show "mem t' b = mem s b" .
  qed
qed

text \<open>
  C3. Loading a guest keeps guests isolated, provided that every free page holds zeros (\<open>clean\<close>, a
  part of \<open>guest_ok\<close>), that enough pages are free and that the guest has no memory yet. After the part
  of \<open>create_vm\<close> that maps the memory of a new guest, every page that some guest can reach, but for
  the page of the serial port, is still an allocated page that is no translation table, and belongs
  to one guest and one guest page only; what the other guests can reach and what is stored there is
  unchanged. The new guest finds its image at its entry point and zeros behind it, and reaches
  nothing but these pages and the serial port. The code itself clears only the pages between the end
  of the image file and the memory size of the image: in the last page of the file and in the RAM
  behind the image the guest finds what the free pages held, which is zeros by the assumption.
\<close>

theorem map_guest_isolates:
  assumes "guest_ok R root v g entry ram s"
  shows "wp (map_guest v g entry ram) (\<lambda>_ t. isolated {UARTBASE} R t \<and> loaded R root g entry ram s t \<and> others_kept R root s t) s"
proof -
  let ?V = "guest_vas entry g ram" and ?N = "guest_pages g ram"
  have o: "root \<in> R" "v < length (g_vms s)" "stage2_pt (g_vms s ! v) = root"
    using assms by (simp_all add: guest_ok_def)
  have uart: "wp (mbind (vm_at v) (\<lambda>vm. pagemap (stage2_pt vm) UARTBASE UARTBASE PAGE_SIZE uart_attr))
      (\<lambda>_ t'. isolated {UARTBASE} R t' \<and> loaded R root g entry ram s t' \<and> others_kept R root s t') t"
    if "\<exists>F. loading {UARTBASE} R root entry ?V ?N g s F ?N t" for t
  proof -
    from that obtain F where L: "loading {UARTBASE} R root entry ?V ?N g s F ?N t" ..
    have vmat: "vm_at v t = Inr (g_vms s ! v, t)"
      using arg_cong [OF loadingD(1) [OF L], of g_vms] o(2) by (simp add: run)
    have "leaf (mem t) root UARTBASE = 0"
      using loadingD(7) [OF L] guest_ok_uart [OF assms] by blast
    then have "wp (pagemap root UARTBASE UARTBASE PAGE_SIZE uart_attr) (\<lambda>_. mapped R root ?V (range_to UARTBASE UARTBASE uart_attr 1) t) t"
      using loadingD(5) [OF L] by (intro pagemap_run [OF isolatedD(1,2) [OF loadingD(4) [OF L]] o(1) _ _ _ _ guest_vas_finite(1)])
        (simp_all add: UARTBASE_def PAGE_SIZE_def range_pages_def lessThan_Suc)
    moreover have "range_to UARTBASE UARTBASE uart_attr 1 = page_to UARTBASE (s2_entry UARTBASE uart_attr)"
      by (simp add: page_to_def fun_eq_iff)
    ultimately have "wp (pagemap root UARTBASE UARTBASE PAGE_SIZE uart_attr)
        (\<lambda>_ t'. isolated {UARTBASE} R t' \<and> loaded R root g entry ram s t' \<and> others_kept R root s t') t"
      using loaded_uart [OF assms L] by (auto elim!: wp_mono)
    then show ?thesis
      unfolding wp_def mbind_run [where m = "vm_at v", OF vmat] o(3) .
  qed
  have eq: "map_guest v g entry ram = mthen (mthen (mfor (page_offsets 0 (file_size g)) (map_file_page v (guest_start g) (file_size g) entry))
      (mthen (mfor (page_offsets (after_pages 0 (file_size g)) (guest_size g)) (map_zero_page v entry))
      (mfor (page_offsets (after_pages (after_pages 0 (file_size g)) (guest_size g)) ram) (map_ram_page v entry))))
      (mbind (vm_at v) (\<lambda>vm. pagemap (stage2_pt vm) UARTBASE UARTBASE PAGE_SIZE uart_attr))"
    by (simp add: map_guest_def Let_def mbind_assoc)
  show ?thesis
    unfolding eq by (subst wp_prims(5), rule wp_mono [OF load_guest [OF assms]], rule uart)
qed


text \<open>
  Two guests, one of them without memory yet. The other is loaded from a page at \<open>0x50000000\<close>
  whose first byte is \<open>0xaa\<close>.
\<close>

definition small_guest :: guest where
  "small_guest = \<lparr>guest_name = ''g'', guest_start = 0x50000000, guest_size = 0x1000, guest_end = 0x50000010\<rparr>"

definition two_vms :: hyp where
  "two_vms = hyp0\<lparr>g_allocator := g_allocator (palloc0 [3] 16 1), g_vms := [vm0\<lparr>stage2_pt := 0x40000000\<rparr>],
     mem := (\<lambda>_. 0)(0x50000000 := 0xaa)\<rparr>"

lemma two_vms_inv:
  "pt_inv {0x40000000, 0x40001000} two_vms" "clean two_vms"
  "r \<in> {0x40000000, 0x40001000} \<Longrightarrow> leaf (mem two_vms) r va = 0"
proof -
  let ?R = "{0x40000000, 0x40001000} :: u64 set" and ?s = "two_vms\<lparr>mem := \<lambda>_. 0\<rparr>"
  have b: "bit (3 :: u64) 0" by simp
  have p: "0x40001000 \<in> page_addrs (pt0 3) - free_addrs (pt0 3)" by code_simp
  have n: "pt_inv (insert 0x40001000 {0x40000000}) (pt0 3)" "leaf (mem (pt0 3)) 0x40001000 va = 0" for va
    using new_root [OF pt0_inv(1) [OF b] p] pt0_inv(4) [OF b] by (auto simp: zero_page_def)
  have s: "pt_inv ?R ?s"
    using n(1) by (intro pt_inv_transfer [of ?R "pt0 3" ?s]) (auto simp: two_vms_def hyp0_def insert_commute)
  have l: "leaf (mem ?s) r va = 0" if "r \<in> ?R" for r va
    using that n(2) pt0_inv(3) [OF b] by auto
  have same: "mem two_vms b = mem ?s b" if "p \<in> page_addrs ?s" "b \<in> span p 4096" for p b
    using that pool_pages [of p two_vms 3] by (auto simp: two_vms_def)
  have eq: "?s\<lparr>mem := mem two_vms\<rparr> = two_vms"
    by simp
  have own: "tables (mem ?s) ?R \<subseteq> page_addrs ?s" "free_addrs ?s \<subseteq> page_addrs ?s"
    using s free_page_addrs_sub [of ?s] unfolding pt_inv_def by blast+
  have w: "pt_inv ?R two_vms" "same_leaves ?R (mem ?s) (mem two_vms)" "clean ?s \<Longrightarrow> clean two_vms"
    using data_write(1,2,5) [OF s, of "mem two_vms"] same own unfolding eq by (blast+)
  then show "pt_inv ?R two_vms" "r \<in> ?R \<Longrightarrow> leaf (mem two_vms) r va = 0"
    using l by (auto simp: same_leaves_def)
  show "clean two_vms"
    by (rule w(3)) (simp add: clean_def zero_page_def)
qed

lemma two_vms_ok: "guest_ok {0x40000000, 0x40001000} 0x40000000 0 small_guest 0x80000000 0x2000 two_vms"
proof -
  have n: "guest_pages small_guest 0x2000 = 2"
    by (simp add: guest_pages_def file_pages_def zero_pages_def ram_pages_def after_pages_def page_count_def small_guest_def PAGE_SIZE_def)
  have "free_addrs two_vms = free_addrs (pt0 3)"
    by (simp add: free_addrs_def two_vms_def)
  moreover have "card (free_addrs (pt0 3)) = 14" "UARTBASE \<notin> free_addrs (pt0 3)"
    by code_simp+
  moreover have "isolated {UARTBASE} {0x40000000, 0x40001000} two_vms"
    using two_vms_inv by (auto simp: isolated_def)
  moreover have "image_ok two_vms small_guest"
  proof -
    have "span 0x50000000 0x10 \<inter> span p 4096 = {}" if "p \<in> page_addrs two_vms" for p
      using pool_pages [OF that, of 3] span_apart [of "0x10" "0x40000000" "0x50000000" "0x10000"] by (auto simp: two_vms_def)
    then show ?thesis by (simp add: image_ok_def small_guest_def all_backed_def two_vms_def hyp0_def)
  qed
  ultimately show ?thesis
    using two_vms_inv(3) by (simp add: guest_ok_def n UARTBASE_def two_vms_def)
qed

theorem map_guest_isolates_witness:
  "wp (map_guest 0 small_guest 0x80000000 0x2000) (\<lambda>_ t. isolated {UARTBASE} {0x40000000, 0x40001000} t \<and>
     mem t (gpa (mem t) 0x40000000 0x80000000) = 0xaa) two_vms"
proof (rule wp_mono [OF map_guest_isolates [OF two_vms_ok]])
  fix t
  have n: "guest_pages small_guest 0x2000 = 2"
    by (simp add: guest_pages_def file_pages_def zero_pages_def ram_pages_def after_pages_def page_count_def small_guest_def PAGE_SIZE_def)
  assume a: "isolated {UARTBASE} {0x40000000, 0x40001000} t \<and> loaded {0x40000000, 0x40001000} 0x40000000 small_guest 0x80000000 0x2000 two_vms t \<and>
    others_kept {0x40000000, 0x40001000} 0x40000000 two_vms t"
  then have "mem t (gpa (mem t) 0x40000000 (0x80000000 + of_nat 0)) = image_byte two_vms small_guest 0"
    using n unfolding loaded_def by (metis mult_pos_pos zero_less_numeral)
  with a show "isolated {UARTBASE} {0x40000000, 0x40001000} t \<and> mem t (gpa (mem t) 0x40000000 0x80000000) = 0xaa"
    by (simp add: image_byte_def small_guest_def two_vms_def)
qed

end
