(* ===== verification/Xv6_Locks.thy ===== *)
theory Xv6_Locks
  imports Prelude
begin

text \<open>
  The guest kernel xv6, \<open>guest/xv6/kernel/spinlock.c\<close> and \<open>sleeplock.c\<close>: locks that disable
  interrupts while they are held, and locks that a process may hold while it sleeps. One process
  runs at a time here: waiting for something that only another process could bring about is the
  fault \<open>Deadlock\<close>, and \<open>wakeup\<close> finds no sleeping process. The names of the locks, which are
  there for debugging only, are left out.
\<close>

section \<open>Interrupts\<close>

record kcpu =
  noff :: int
  intena :: bool
  intr :: bool
  cpu_id :: nat

record kern =
  kcpu :: kcpu
  kpid :: int

definition push_off1 :: "kcpu \<Rightarrow> kcpu" where
  "push_off1 c = (let old = intr c; c = c\<lparr>intr := False\<rparr>;
     c = (if noff c = 0 then c\<lparr>intena := old\<rparr> else c) in c\<lparr>noff := noff c + 1\<rparr>)"

definition push_off :: "('a kern_scheme, unit) comp" where
  "push_off = mmod (kcpu_update push_off1)"

definition pop_off1 :: "kcpu \<Rightarrow> kcpu" where
  "pop_off1 c = (let c = c\<lparr>noff := noff c - 1\<rparr> in if noff c = 0 \<and> intena c then c\<lparr>intr := True\<rparr> else c)"

definition pop_off :: "('a kern_scheme, unit) comp" where
  "pop_off = mbind (mget kcpu) (\<lambda>c.
     if intr c then mfail (Panic ''pop_off - interruptible'')
     else if noff c < 1 then mfail (Panic ''pop_off'')
     else mmod (kcpu_update pop_off1))"

section \<open>Spinlocks\<close>

record xlock =
  locked :: bool
  lock_cpu :: "nat option"

definition initlock :: xlock where
  "initlock = \<lparr>locked = False, lock_cpu = None\<rparr>"

text \<open>A lock is a field of the state: it is read with \<open>get\<close> and changed with \<open>upd\<close>.\<close>

definition holding :: "('a kern_scheme \<Rightarrow> xlock) \<Rightarrow> ('a kern_scheme, bool) comp" where
  "holding get = mget (\<lambda>s. locked (get s) \<and> lock_cpu (get s) = Some (cpu_id (kcpu s)))"

definition acquire :: "('a kern_scheme \<Rightarrow> xlock) \<Rightarrow> ((xlock \<Rightarrow> xlock) \<Rightarrow> 'a kern_scheme \<Rightarrow> 'a kern_scheme) \<Rightarrow>
    ('a kern_scheme, unit) comp" where
  "acquire get upd =
     mthen push_off
     (mbind (holding get) (\<lambda>h.
      if h then mfail (Panic ''acquire'')
      else mbind (mget get) (\<lambda>l.
        if locked l then mfail Deadlock
        else mbind (mget (\<lambda>s. cpu_id (kcpu s))) (\<lambda>c.
          mmod (upd (\<lambda>l. l\<lparr>locked := True, lock_cpu := Some c\<rparr>))))))"

definition release :: "('a kern_scheme \<Rightarrow> xlock) \<Rightarrow> ((xlock \<Rightarrow> xlock) \<Rightarrow> 'a kern_scheme \<Rightarrow> 'a kern_scheme) \<Rightarrow>
    ('a kern_scheme, unit) comp" where
  "release get upd =
     mbind (holding get) (\<lambda>h.
     if \<not> h then mfail (Panic ''release'')
     else mthen (mmod (upd (\<lambda>l. l\<lparr>lock_cpu := None, locked := False\<rparr>))) pop_off)"

section \<open>Sleeping locks\<close>

record sleeplock =
  slocked :: bool
  slk :: xlock
  spid :: int

definition initsleeplock :: sleeplock where
  "initsleeplock = \<lparr>slocked = False, slk = initlock, spid = 0\<rparr>"

definition acquiresleep :: "('a kern_scheme \<Rightarrow> sleeplock) \<Rightarrow>
    ((sleeplock \<Rightarrow> sleeplock) \<Rightarrow> 'a kern_scheme \<Rightarrow> 'a kern_scheme) \<Rightarrow> ('a kern_scheme, unit) comp" where
  "acquiresleep get upd =
     mthen (acquire (\<lambda>s. slk (get s)) (\<lambda>f. upd (slk_update f)))
     (mbind (mget get) (\<lambda>l.
      if slocked l then mfail Deadlock
      else mbind (mget kpid) (\<lambda>p.
        mthen (mmod (upd (\<lambda>l. l\<lparr>slocked := True, spid := p\<rparr>)))
        (release (\<lambda>s. slk (get s)) (\<lambda>f. upd (slk_update f))))))"

definition releasesleep :: "('a kern_scheme \<Rightarrow> sleeplock) \<Rightarrow>
    ((sleeplock \<Rightarrow> sleeplock) \<Rightarrow> 'a kern_scheme \<Rightarrow> 'a kern_scheme) \<Rightarrow> ('a kern_scheme, unit) comp" where
  "releasesleep get upd =
     mthen (acquire (\<lambda>s. slk (get s)) (\<lambda>f. upd (slk_update f)))
     (mthen (mmod (upd (\<lambda>l. l\<lparr>slocked := False, spid := 0\<rparr>)))
     (release (\<lambda>s. slk (get s)) (\<lambda>f. upd (slk_update f))))"

definition holdingsleep :: "('a kern_scheme \<Rightarrow> sleeplock) \<Rightarrow>
    ((sleeplock \<Rightarrow> sleeplock) \<Rightarrow> 'a kern_scheme \<Rightarrow> 'a kern_scheme) \<Rightarrow> ('a kern_scheme, bool) comp" where
  "holdingsleep get upd =
     mthen (acquire (\<lambda>s. slk (get s)) (\<lambda>f. upd (slk_update f)))
     (mbind (mget (\<lambda>s. slocked (get s) \<and> spid (get s) = kpid s)) (\<lambda>r.
      mthen (release (\<lambda>s. slk (get s)) (\<lambda>f. upd (slk_update f))) (mret r)))"

section \<open>Taking and giving back\<close>

text \<open>
  \<open>push_off\<close> and \<open>pop_off\<close> nest: a processor on which no lock is held remembers no
  older interrupt state, and every pair leaves it as it was.
\<close>

definition cpu_ok :: "kcpu \<Rightarrow> bool" where
  "cpu_ok c \<longleftrightarrow> 0 \<le> noff c \<and> (noff c = 0 \<longrightarrow> intena c = intr c) \<and> (0 < noff c \<longrightarrow> \<not> intr c)"

lemma push_off1_simps [simp]:
  "noff (push_off1 c) = noff c + 1" "intr (push_off1 c) = False" "cpu_id (push_off1 c) = cpu_id c"
  by (simp_all add: push_off1_def Let_def)

lemma pop_push [simp]: "cpu_ok c \<Longrightarrow> pop_off1 (push_off1 c) = c"
  by (cases c) (auto simp: push_off1_def pop_off1_def cpu_ok_def Let_def)

lemma cpu_ok_push [simp]: "cpu_ok c \<Longrightarrow> cpu_ok (push_off1 c)"
  by (auto simp: cpu_ok_def)

lemma cpu_ok_noff: "cpu_ok c \<Longrightarrow> 0 \<le> noff c"
  by (simp add: cpu_ok_def)

definition held :: "kcpu \<Rightarrow> xlock" where
  "held c = \<lparr>locked = True, lock_cpu = Some (cpu_id c)\<rparr>"

lemma held_push [simp]: "held (push_off1 c) = held c"
  by (simp add: held_def)

lemma kcpu_same: "f (kcpu s) = kcpu s \<Longrightarrow> kcpu_update f s = s"
  by (cases s) simp

text \<open>A lock that is a field of the state: what the other fields, and the processor, see of it.\<close>

locale kernel_lock =
  fixes get :: "'a kern_scheme \<Rightarrow> 'l" and upd :: "('l \<Rightarrow> 'l) \<Rightarrow> 'a kern_scheme \<Rightarrow> 'a kern_scheme"
    and there :: "'a kern_scheme \<Rightarrow> bool"
  assumes get_upd: "there s \<Longrightarrow> get (upd f s) = f (get s)"
    and upd_upd: "upd f (upd h s) = upd (\<lambda>l. f (h l)) s"
    and upd_same: "there s \<Longrightarrow> upd (\<lambda>_. get s) s = s"
    and upd_cong: "there s \<Longrightarrow> f (get s) = h (get s) \<Longrightarrow> upd f s = upd h s"
    and get_cpu: "get (kcpu_update k s) = get s"
    and upd_cpu: "upd f (kcpu_update k s) = kcpu_update k (upd f s)"
    and kcpu_upd: "kcpu (upd f s) = kcpu s" "kpid (upd f s) = kpid s"
    and there_upd: "there (upd f s) = there s" "there (kcpu_update k s) = there s"
begin

lemmas lock_simps = get_upd upd_upd get_cpu upd_cpu kcpu_upd there_upd

lemma upd_const: "there s \<Longrightarrow> upd f s = upd (\<lambda>_. f (get s)) s"
  by (rule upd_cong) simp_all

end

locale kernel_spinlock = kernel_lock get upd there
  for get :: "'a kern_scheme \<Rightarrow> xlock" and upd :: "(xlock \<Rightarrow> xlock) \<Rightarrow> 'a kern_scheme \<Rightarrow> 'a kern_scheme"
    and there :: "'a kern_scheme \<Rightarrow> bool"
begin

lemma acquire_run:
  assumes "there s" and "get s = initlock"
  shows "acquire get upd s = Inr ((), kcpu_update push_off1 (upd (\<lambda>_. held (kcpu s)) s))"
proof -
  have "upd (\<lambda>l. l\<lparr>locked := True, lock_cpu := Some (cpu_id (kcpu s))\<rparr>) s = upd (\<lambda>_. held (kcpu s)) s"
    using assms by (intro upd_cong) (simp_all add: held_def initlock_def)
  with assms show ?thesis
    by (simp add: acquire_def push_off_def holding_def run lock_simps initlock_def)
qed

lemma release_run:
  assumes "there s" and "get s = held (kcpu s)" and "\<not> intr (kcpu s)" and "1 \<le> noff (kcpu s)"
  shows "release get upd s = Inr ((), kcpu_update pop_off1 (upd (\<lambda>_. initlock) s))"
proof -
  have "upd (\<lambda>l. l\<lparr>lock_cpu := None, locked := False\<rparr>) s = upd (\<lambda>_. initlock) s"
    using assms by (intro upd_cong) (simp_all add: held_def initlock_def)
  with assms show ?thesis
    by (simp add: release_def pop_off_def holding_def run lock_simps held_def)
qed

text \<open>A critical section that only changes the rest of the state by \<open>h\<close>.\<close>

lemma critical_run:
  assumes ok: "there s" "get s = initlock" "cpu_ok (kcpu s)"
    and body: "body (kcpu_update push_off1 (upd (\<lambda>_. held (kcpu s)) s)) = Inr (x, kcpu_update push_off1 (upd (\<lambda>_. held (kcpu s)) t))"
    and t: "there t" "get t = get s" "kcpu t = kcpu s"
  shows "mthen (acquire get upd) (mbind body (\<lambda>x. mthen (release get upd) (f x))) s = f x t"
proof -
  let ?t = "kcpu_update push_off1 (upd (\<lambda>_. held (kcpu s)) t)"
  have e: "initlock = get t"
    using ok(2) t(2) by simp
  have "kcpu_update pop_off1 (upd (\<lambda>_. initlock) ?t) = upd (\<lambda>_. initlock) t"
    using ok(3) t by (simp add: lock_simps kcpu_same)
  also have "\<dots> = t"
    unfolding e by (rule upd_same [OF t(1)])
  finally show ?thesis
    using ok t body acquire_run [OF ok(1,2)] release_run [of ?t] cpu_ok_noff [OF ok(3)]
    by (simp add: run lock_simps)
qed

end


definition sheld :: "int \<Rightarrow> sleeplock" where
  "sheld p = \<lparr>slocked = True, slk = initlock, spid = p\<rparr>"

lemma slk_update_cong: "f (slk l) = h (slk l) \<Longrightarrow> slk_update f l = slk_update h l"
  by (cases l) simp

locale kernel_sleeplock = kernel_lock get upd there
  for get :: "'a kern_scheme \<Rightarrow> sleeplock" and upd :: "(sleeplock \<Rightarrow> sleeplock) \<Rightarrow> 'a kern_scheme \<Rightarrow> 'a kern_scheme"
    and there :: "'a kern_scheme \<Rightarrow> bool"

sublocale kernel_sleeplock \<subseteq> spin: kernel_spinlock "\<lambda>s. slk (get s)" "\<lambda>f. upd (slk_update f)" there
proof (unfold_locales, goal_cases)
  case (3 s)
  have "upd (slk_update (\<lambda>_. slk (get s))) s = upd (\<lambda>_. get s) s"
    using 3 by (intro upd_cong) simp_all
  then show ?case using 3 upd_same by simp
next
  case (4 s f h)
  then show ?case by (intro upd_cong slk_update_cong)
qed (simp_all add: lock_simps comp_def)

context kernel_sleeplock
begin

lemma acquiresleep_run:
  assumes ok: "there s" "get s = initsleeplock" "cpu_ok (kcpu s)"
  shows "acquiresleep get upd s = Inr ((), upd (\<lambda>_. sheld (kpid s)) s)"
proof -
  let ?s1 = "kcpu_update push_off1 (upd (slk_update (\<lambda>_. held (kcpu s))) s)"
  let ?s2 = "upd (\<lambda>l. l\<lparr>slocked := True, spid := kpid s\<rparr>) ?s1"
  have "upd (\<lambda>l. slk_update (\<lambda>_. initlock) (slk_update (\<lambda>_. held (kcpu s)) l\<lparr>slocked := True, spid := kpid s\<rparr>)) s =
      upd (\<lambda>_. sheld (kpid s)) s"
    using ok by (intro upd_cong) (simp_all add: sheld_def initsleeplock_def)
  then have e: "kcpu_update pop_off1 (upd (slk_update (\<lambda>_. initlock)) ?s2) = upd (\<lambda>_. sheld (kpid s)) s"
    using ok(3) by (simp add: lock_simps kcpu_same)
  have a: "acquire (\<lambda>s. slk (get s)) (\<lambda>f. upd (slk_update f)) s = Inr ((), ?s1)"
    using ok by (intro spin.acquire_run) (simp_all add: initsleeplock_def)
  have r: "release (\<lambda>s. slk (get s)) (\<lambda>f. upd (slk_update f)) ?s2 = Inr ((), kcpu_update pop_off1 (upd (slk_update (\<lambda>_. initlock)) ?s2))"
    using ok cpu_ok_noff [OF ok(3)] by (intro spin.release_run) (simp_all add: lock_simps)
  show ?thesis
    using ok(1,2) a r unfolding acquiresleep_def e by (simp add: run lock_simps initsleeplock_def)
qed

lemma releasesleep_run:
  assumes ok: "there s" "get s = sheld p" "cpu_ok (kcpu s)"
  shows "releasesleep get upd s = Inr ((), upd (\<lambda>_. initsleeplock) s)"
proof -
  let ?s1 = "kcpu_update push_off1 (upd (slk_update (\<lambda>_. held (kcpu s))) s)"
  let ?s2 = "upd (\<lambda>l. l\<lparr>slocked := False, spid := 0\<rparr>) ?s1"
  have "upd (\<lambda>l. slk_update (\<lambda>_. initlock) (slk_update (\<lambda>_. held (kcpu s)) l\<lparr>slocked := False, spid := 0\<rparr>)) s =
      upd (\<lambda>_. initsleeplock) s"
    using ok by (intro upd_cong) (simp_all add: sheld_def initsleeplock_def)
  then have e: "kcpu_update pop_off1 (upd (slk_update (\<lambda>_. initlock)) ?s2) = upd (\<lambda>_. initsleeplock) s"
    using ok(3) by (simp add: lock_simps kcpu_same)
  have a: "acquire (\<lambda>s. slk (get s)) (\<lambda>f. upd (slk_update f)) s = Inr ((), ?s1)"
    using ok by (intro spin.acquire_run) (simp_all add: sheld_def)
  have r: "release (\<lambda>s. slk (get s)) (\<lambda>f. upd (slk_update f)) ?s2 = Inr ((), kcpu_update pop_off1 (upd (slk_update (\<lambda>_. initlock)) ?s2))"
    using ok cpu_ok_noff [OF ok(3)] by (intro spin.release_run) (simp_all add: lock_simps)
  show ?thesis
    using ok(1,2) a r unfolding releasesleep_def e by (simp add: run lock_simps)
qed

lemma holdingsleep_run:
  assumes ok: "there s" "slk (get s) = initlock" "cpu_ok (kcpu s)"
  shows "holdingsleep get upd s = Inr (slocked (get s) \<and> spid (get s) = kpid s, s)"
proof -
  let ?s1 = "kcpu_update push_off1 (upd (slk_update (\<lambda>_. held (kcpu s))) s)"
  have "upd (\<lambda>l. slk_update (\<lambda>_. initlock) (slk_update (\<lambda>_. held (kcpu s)) l)) s = upd (\<lambda>_. get s) s"
    using ok by (intro upd_cong) simp_all
  then have e: "kcpu_update pop_off1 (upd (slk_update (\<lambda>_. initlock)) ?s1) = s"
    using ok(1,3) by (simp add: lock_simps kcpu_same upd_same)
  have a: "acquire (\<lambda>s. slk (get s)) (\<lambda>f. upd (slk_update f)) s = Inr ((), ?s1)"
    using ok by (intro spin.acquire_run) simp_all
  have r: "release (\<lambda>s. slk (get s)) (\<lambda>f. upd (slk_update f)) ?s1 = Inr ((), kcpu_update pop_off1 (upd (slk_update (\<lambda>_. initlock)) ?s1))"
    using ok cpu_ok_noff [OF ok(3)] by (intro spin.release_run) (simp_all add: lock_simps)
  show ?thesis
    using ok(1,2) a r unfolding holdingsleep_def e by (simp add: run lock_simps)
qed

end

end
