(* ===== verification/Xv6_Disk.thy ===== *)
theory Xv6_Disk
  imports Xv6_Locks
begin

text \<open>
  The driver of the virtual disk, \<open>guest/xv6/kernel/virtio_disk.c\<close>. Driver and device share
  descriptors, rings, request headers, status bytes and the data of the buffers; these form the
  record \<open>vio\<close>. The device is a function on that record that runs when the driver writes the
  notification register. While a process waits for its buffer, the interrupt handler runs.
\<close>

section \<open>The state\<close>

abbreviation (input) NUM :: nat where "NUM \<equiv> 8"
abbreviation (input) BSIZE :: nat where "BSIZE \<equiv> 1024"

text \<open>The addresses that the driver hands to the device.\<close>

datatype dma = Dma_Null | Dma_Op nat | Dma_Data nat | Dma_Status nat

record vdesc =
  d_addr :: dma
  d_len :: u32
  d_flags :: u16
  d_next :: u16

abbreviation (input) F_NEXT :: u16 where "F_NEXT \<equiv> 1"
abbreviation (input) F_WRITE :: u16 where "F_WRITE \<equiv> 2"

record blk_op =
  op_type :: u32
  op_reserved :: u32
  op_sector :: u64

abbreviation (input) T_IN :: u32 where "T_IN \<equiv> 0"
abbreviation (input) T_OUT :: u32 where "T_OUT \<equiv> 1"

record used_elem =
  used_id :: u32
  used_len :: u32

text \<open>
  \<open>v_blocks\<close>, \<open>v_nblocks\<close>, \<open>v_seen\<close> and \<open>v_hist\<close> belong to the device: the contents and the
  size of the disk, the position in the ring of available chains, and the blocks written so far,
  the last one first.
\<close>

record vio =
  v_desc :: "vdesc list"
  v_ring :: "u16 list"
  v_avail :: u16
  v_uring :: "used_elem list"
  v_used :: u16
  v_ops :: "blk_op list"
  v_status :: "u8 list"
  v_data :: "u8 list list"
  v_blocks :: "u64 \<Rightarrow> u8 list"
  v_nblocks :: u64
  v_seen :: u16
  v_hist :: "(u64 \<times> u8 list) list"

text \<open>The registers of the device.\<close>

datatype vmmio = MAGIC_VALUE | VERSION | DEVICE_ID | VENDOR_ID | DEVICE_FEATURES | DRIVER_FEATURES | GUEST_PAGE_SIZE |
  QUEUE_SEL | QUEUE_NUM_MAX | QUEUE_NUM | QUEUE_PFN | QUEUE_NOTIFY | INTERRUPT_STATUS | INTERRUPT_ACK | STATUS

text \<open>\<open>struct buf\<close> of \<open>buf.h\<close> but for its data, which are in \<open>v_data\<close>.\<close>

record buf =
  b_valid :: bool
  b_disk :: bool
  b_dev :: u32
  b_blockno :: u32
  b_lock :: sleeplock
  b_refcnt :: u32
  b_prev :: nat
  b_next :: nat

record disk_kern = kern +
  vdisk_lock :: xlock
  vio :: vio
  disk_free :: "bool list"
  disk_used :: u16
  info_b :: "nat option list"
  bufs :: "buf list"
  device :: "vio \<Rightarrow> vio"
  vreg :: "vmmio \<Rightarrow> u32"
  vregw :: "(vmmio \<times> u32) list"
  wait_bound :: nat

type_synonym ('s, 'a) dcomp = "('s disk_kern_scheme, 'a) comp"

section \<open>Access\<close>

definition vdesc_at :: "nat \<Rightarrow> ('s, vdesc) dcomp" where
  "vdesc_at i = mbind (mget (\<lambda>s. v_desc (vio s))) (\<lambda>ds. mnth ds i)"

definition upd_desc :: "nat \<Rightarrow> (vdesc \<Rightarrow> vdesc) \<Rightarrow> ('s, unit) dcomp" where
  "upd_desc i f = mthen (vdesc_at i) (mmod (vio_update (v_desc_update (\<lambda>ds. ds[i := f (ds ! i)]))))"

definition buf_at :: "nat \<Rightarrow> ('s, buf) dcomp" where
  "buf_at b = mbind (mget bufs) (\<lambda>bs. mnth bs b)"

definition upd_buf :: "nat \<Rightarrow> (buf \<Rightarrow> buf) \<Rightarrow> ('s, unit) dcomp" where
  "upd_buf b f = mthen (buf_at b) (mmod (bufs_update (\<lambda>bs. bs[b := f (bs ! b)])))"

definition set_info_b :: "nat \<Rightarrow> nat option \<Rightarrow> ('s, unit) dcomp" where
  "set_info_b i p = mbind (mget info_b) (\<lambda>xs.
     mthen (massert (i < length xs) Out_Of_Bounds) (mmod (info_b_update (\<lambda>xs. xs[i := p]))))"

definition set_status :: "nat \<Rightarrow> u8 \<Rightarrow> ('s, unit) dcomp" where
  "set_status i v = mbind (mget (\<lambda>s. v_status (vio s))) (\<lambda>xs.
     mthen (massert (i < length xs) Out_Of_Bounds) (mmod (vio_update (v_status_update (\<lambda>xs. xs[i := v])))))"

definition set_op :: "nat \<Rightarrow> blk_op \<Rightarrow> ('s, unit) dcomp" where
  "set_op i v = mbind (mget (\<lambda>s. v_ops (vio s))) (\<lambda>xs.
     mthen (massert (i < length xs) Out_Of_Bounds) (mmod (vio_update (v_ops_update (\<lambda>xs. xs[i := v])))))"

definition vreg_r :: "vmmio \<Rightarrow> ('s, u32) dcomp" where
  "vreg_r r = mget (\<lambda>s. vreg s r)"

definition vreg_w :: "vmmio \<Rightarrow> u32 \<Rightarrow> ('s, unit) dcomp" where
  "vreg_w r v = mmod (vregw_update (\<lambda>ws. (r, v) # ws))"

abbreviation lock_vdisk :: "('s, unit) dcomp" where
  "lock_vdisk \<equiv> acquire vdisk_lock vdisk_lock_update"

abbreviation unlock_vdisk :: "('s, unit) dcomp" where
  "unlock_vdisk \<equiv> release vdisk_lock vdisk_lock_update"

section \<open>Initialisation\<close>

definition mask_feature :: "nat \<Rightarrow> u64 \<Rightarrow> u64" where
  "mask_feature k x = x AND NOT (push_bit k 1)"

text \<open>\<open>pfn\<close> is the number of the page that holds \<open>disk.pages\<close>.\<close>

definition vdesc0 :: vdesc where
  "vdesc0 = \<lparr>d_addr = Dma_Null, d_len = 0, d_flags = 0, d_next = 0\<rparr>"

definition virtio_disk_init :: "u32 \<Rightarrow> ('s, unit) dcomp" where
  "virtio_disk_init pfn =
     mthen (mmod (vdisk_lock_update (\<lambda>_. initlock)))
     (mbind (vreg_r MAGIC_VALUE) (\<lambda>magic. mbind (vreg_r VERSION) (\<lambda>version.
      mbind (vreg_r DEVICE_ID) (\<lambda>devid. mbind (vreg_r VENDOR_ID) (\<lambda>vendor.
      if magic \<noteq> 0x74726976 \<or> version \<noteq> 1 \<or> devid \<noteq> 2 \<or> vendor \<noteq> 0x554d4551
      then mfail (Panic ''could not find virtio disk'')
      else
        mthen (vreg_w STATUS 1)
        (mthen (vreg_w STATUS 3)
        (mbind (vreg_r DEVICE_FEATURES) (\<lambda>f.
         mthen (vreg_w DRIVER_FEATURES (ucast (fold mask_feature [5, 7, 11, 12, 27, 29, 28] (ucast f))))
        (mthen (vreg_w STATUS 0xb)
        (mthen (vreg_w STATUS 0xf)
        (mthen (vreg_w GUEST_PAGE_SIZE 0x1000)
        (mthen (vreg_w QUEUE_SEL 0)
        (mbind (vreg_r QUEUE_NUM_MAX) (\<lambda>qmax.
         if qmax = 0 then mfail (Panic ''virtio disk has no queue 0'')
         else if qmax < of_nat NUM then mfail (Panic ''virtio disk max queue too short'')
         else
           mthen (vreg_w QUEUE_NUM (of_nat NUM))
           (mthen (mmod (vio_update (\<lambda>v. v\<lparr>v_desc := replicate NUM vdesc0, v_ring := replicate NUM 0, v_avail := 0,
              v_uring := replicate NUM \<lparr>used_id = 0, used_len = 0\<rparr>, v_used := 0\<rparr>)))
           (mthen (vreg_w QUEUE_PFN pfn)
           (mmod (disk_free_update (\<lambda>_. replicate NUM True)))))))))))))))))))"

section \<open>Descriptors\<close>

text \<open>The first descriptor that is free.\<close>

fun free_slot :: "nat \<Rightarrow> bool list \<Rightarrow> nat option" where
  "free_slot i [] = None"
| "free_slot i (f # fs) = (if f then Some i else free_slot (Suc i) fs)"

definition alloc_desc :: "('s, nat option) dcomp" where
  "alloc_desc = mbind (mget disk_free) (\<lambda>fs. case free_slot 0 fs of
     None \<Rightarrow> mret None
   | Some i \<Rightarrow> mthen (mmod (disk_free_update (\<lambda>fs. fs[i := False]))) (mret (Some i)))"

definition free_desc :: "nat \<Rightarrow> ('s, unit) dcomp" where
  "free_desc i =
     (if NUM \<le> i then mfail (Panic ''free_desc 1'')
      else mbind (mget disk_free) (\<lambda>fs. mbind (mnth fs i) (\<lambda>f.
        if f then mfail (Panic ''free_desc 2'')
        else mthen (upd_desc i (\<lambda>_. vdesc0)) (mmod (disk_free_update (\<lambda>fs. fs[i := True]))))))"

text \<open>
  A chain that runs into a free descriptor panics, so that it ends after at most \<open>NUM\<close> steps. For an
  index outside the table the code reads two fields past it, which stay unused: \<open>free_desc\<close> panics.
\<close>

primrec free_chain :: "nat \<Rightarrow> nat \<Rightarrow> ('s, unit) dcomp" where
  "free_chain 0 i = mfail Diverge"
| "free_chain (Suc n) i =
     (if NUM \<le> i then free_desc i
      else mbind (vdesc_at i) (\<lambda>d.
        mthen (free_desc i) (if d_flags d AND F_NEXT \<noteq> 0 then free_chain n (unat (d_next d)) else mret ())))"

definition alloc3_desc :: "('s, (nat \<times> nat \<times> nat) option) dcomp" where
  "alloc3_desc =
     mbind alloc_desc (\<lambda>r. case r of None \<Rightarrow> mret None | Some i \<Rightarrow>
     mbind alloc_desc (\<lambda>r. case r of None \<Rightarrow> mthen (free_desc i) (mret None) | Some j \<Rightarrow>
     mbind alloc_desc (\<lambda>r. case r of None \<Rightarrow> mthen (free_desc i) (mthen (free_desc j) (mret None))
      | Some k \<Rightarrow> mret (Some (i, j, k)))))"

section \<open>Requests\<close>

definition format_desc :: "nat \<Rightarrow> bool \<Rightarrow> u64 \<Rightarrow> nat \<Rightarrow> nat \<Rightarrow> nat \<Rightarrow> ('s, unit) dcomp" where
  "format_desc b w sector i j k =
     mthen (set_op i \<lparr>op_type = (if w then T_OUT else T_IN), op_reserved = 0, op_sector = sector\<rparr>)
     (mthen (upd_desc i (\<lambda>_. \<lparr>d_addr = Dma_Op i, d_len = 16, d_flags = F_NEXT, d_next = of_nat j\<rparr>))
     (mthen (upd_desc j (\<lambda>_. \<lparr>d_addr = Dma_Data b, d_len = of_nat BSIZE,
        d_flags = (if w then 0 else F_WRITE) OR F_NEXT, d_next = of_nat k\<rparr>))
     (mthen (set_status i 0xff)
     (upd_desc k (\<lambda>_. \<lparr>d_addr = Dma_Status i, d_len = 1, d_flags = F_WRITE, d_next = 0\<rparr>)))))"

definition make_avail :: "nat \<Rightarrow> ('s, unit) dcomp" where
  "make_avail i = mthen
     (mmod (vio_update (\<lambda>v. v\<lparr>v_ring := (v_ring v)[unat (v_avail v) mod NUM := of_nat i]\<rparr>)))
     (mmod (vio_update (v_avail_update (\<lambda>a. a + 1))))"

definition submit :: "nat \<Rightarrow> bool \<Rightarrow> u64 \<Rightarrow> nat \<Rightarrow> nat \<Rightarrow> nat \<Rightarrow> ('s, unit) dcomp" where
  "submit b w sector i j k =
     mthen (format_desc b w sector i j k)
     (mthen (upd_buf b (b_disk_update (\<lambda>_. True)))
     (mthen (set_info_b i (Some b)) (make_avail i)))"

definition notify :: "('s, unit) dcomp" where
  "notify = mthen (vreg_w QUEUE_NOTIFY 0) (mmod (\<lambda>s. s\<lparr>vio := device s (vio s)\<rparr>))"

definition intr_step :: "('s, unit) dcomp" where
  "intr_step =
     mbind (mget (\<lambda>s. (v_uring (vio s), v_status (vio s), disk_used s, info_b s))) (\<lambda>(us, sts, u, ib).
     mbind (mnth us (unat u mod NUM)) (\<lambda>e. let i = unat (used_id e) in
     mbind (mnth sts i) (\<lambda>st.
     if st \<noteq> 0 then mfail (Panic ''virtio_disk_intr status'')
     else mbind (mnth ib i) (\<lambda>p. mbind (mthe p) (\<lambda>b.
       mthen (upd_buf b (b_disk_update (\<lambda>_. False)))
       (mmod (disk_used_update (\<lambda>u. u + 1))))))))"

definition virtio_disk_intr :: "('s, unit) dcomp" where
  "virtio_disk_intr =
     mthen lock_vdisk
     (mbind (vreg_r INTERRUPT_STATUS) (\<lambda>st.
      mthen (vreg_w INTERRUPT_ACK (st AND 3))
     (mbind (mget wait_bound) (\<lambda>n.
      mthen (mwhile n (mget (\<lambda>s. disk_used s \<noteq> v_used (vio s))) intr_step) unlock_vdisk))))"

text \<open>\<open>sleep (b, &disk.vdisk_lock)\<close>: the lock is given up, and the interrupt handler runs.\<close>

definition wait_intr :: "('s, unit) dcomp" where
  "wait_intr = mthen unlock_vdisk (mthen virtio_disk_intr lock_vdisk)"

definition virtio_disk_rw :: "nat \<Rightarrow> bool \<Rightarrow> ('s, unit) dcomp" where
  "virtio_disk_rw b w =
     mbind (buf_at b) (\<lambda>bp. let sector = ucast (b_blockno bp * of_nat (BSIZE div 512)) in
     mthen lock_vdisk
     (mbind alloc3_desc (\<lambda>r. case r of None \<Rightarrow> mfail Deadlock | Some (i, j, k) \<Rightarrow>
        mthen (submit b w sector i j k)
        (mthen notify
        (mbind (mget wait_bound) (\<lambda>n.
         mthen (mwhile n (mbind (buf_at b) (\<lambda>bp. mret (b_disk bp))) wait_intr)
        (mthen (set_info_b i None)
        (mthen (free_chain (Suc NUM) i) unlock_vdisk))))))))"

section \<open>The contract of the device\<close>

text \<open>
  A chain of three descriptors that asks for one block: the header, the data and the status.
\<close>

definition request :: "vio \<Rightarrow> nat \<Rightarrow> nat \<Rightarrow> nat \<Rightarrow> bool \<Rightarrow> nat \<Rightarrow> u64 \<Rightarrow> bool" where
  "request v i j k w b sector \<longleftrightarrow> i < NUM \<and> j < NUM \<and> k < NUM \<and> b < length (v_data v) \<and>
     v_desc v ! i = \<lparr>d_addr = Dma_Op i, d_len = 16, d_flags = F_NEXT, d_next = of_nat j\<rparr> \<and>
     v_desc v ! j = \<lparr>d_addr = Dma_Data b, d_len = of_nat BSIZE, d_flags = (if w then 0 else F_WRITE) OR F_NEXT, d_next = of_nat k\<rparr> \<and>
     v_desc v ! k = \<lparr>d_addr = Dma_Status i, d_len = 1, d_flags = F_WRITE, d_next = 0\<rparr> \<and>
     v_ops v ! i = \<lparr>op_type = (if w then T_OUT else T_IN), op_reserved = 0, op_sector = sector\<rparr>"

definition rings_ok :: "vio \<Rightarrow> bool" where
  "rings_ok v \<longleftrightarrow> length (v_desc v) = NUM \<and> length (v_ring v) = NUM \<and> length (v_uring v) = NUM \<and>
     length (v_ops v) = NUM \<and> length (v_status v) = NUM"

definition dev_served :: "vio \<Rightarrow> nat \<Rightarrow> bool \<Rightarrow> nat \<Rightarrow> u64 \<Rightarrow> u32 \<Rightarrow> vio" where
  "dev_served v i w b n l =
     (let v = (if w then v\<lparr>v_blocks := (v_blocks v)(n := v_data v ! b), v_hist := (n, v_data v ! b) # v_hist v\<rparr>
               else v\<lparr>v_data := (v_data v)[b := v_blocks v n]\<rparr>) in
      v\<lparr>v_status := (v_status v)[i := 0],
        v_uring := (v_uring v)[unat (v_used v) mod NUM := \<lparr>used_id = of_nat i, used_len = l\<rparr>],
        v_used := v_used v + 1, v_seen := v_seen v + 1\<rparr>)"

text \<open>
  What the driver relies on, as the specification of virtio block devices has it: notified of one
  new chain that asks for a block of the disk, the device moves the block, sets the status to 0
  and puts the chain into the ring of used chains.
\<close>

definition serves :: "(vio \<Rightarrow> vio) \<Rightarrow> bool" where
  "serves dv \<longleftrightarrow> (\<forall>v i j k w b sector. rings_ok v \<longrightarrow> v_avail v = v_seen v + 1 \<longrightarrow>
     v_ring v ! (unat (v_seen v) mod NUM) = of_nat i \<longrightarrow> request v i j k w b sector \<longrightarrow> sector div 2 < v_nblocks v \<longrightarrow>
     (\<exists>l. dv v = dev_served v i w b (sector div 2) l))"

text \<open>A driver without a request in flight.\<close>

definition drv_ok :: "'s disk_kern_scheme \<Rightarrow> bool" where
  "drv_ok s \<longleftrightarrow> cpu_ok (kcpu s) \<and> vdisk_lock s = initlock \<and> rings_ok (vio s) \<and> v_avail (vio s) = v_seen (vio s) \<and>
     v_used (vio s) = disk_used s \<and> disk_free s = replicate NUM True \<and> info_b s = replicate NUM None \<and>
     serves (device s) \<and> 2 \<le> wait_bound s"

text \<open>
  The driver before \<open>virtio_disk_init\<close>: its variables are zero, and its registers show a virtio disk
  of version 1 with a queue of at least \<open>NUM\<close> entries that has served nothing yet.
\<close>

definition drv_new :: "'s disk_kern_scheme \<Rightarrow> bool" where
  "drv_new s \<longleftrightarrow> cpu_ok (kcpu s) \<and> length (v_ops (vio s)) = NUM \<and> length (v_status (vio s)) = NUM \<and>
     v_seen (vio s) = 0 \<and> disk_used s = 0 \<and> info_b s = replicate NUM None \<and> serves (device s) \<and> 2 \<le> wait_bound s \<and>
     vreg s MAGIC_VALUE = 0x74726976 \<and> vreg s VERSION = 1 \<and> vreg s DEVICE_ID = 2 \<and> vreg s VENDOR_ID = 0x554d4551 \<and>
     of_nat NUM \<le> vreg s QUEUE_NUM_MAX"

section \<open>Running the driver\<close>

lemma run_access [run]:
  "vdesc_at i s = (if i < length (v_desc (vio s)) then Inr (v_desc (vio s) ! i, s) else Inl Out_Of_Bounds)"
  "upd_desc i f s = (if i < length (v_desc (vio s)) then
     Inr ((), vio_update (v_desc_update (\<lambda>ds. ds[i := f (ds ! i)])) s) else Inl Out_Of_Bounds)"
  "buf_at b s = (if b < length (bufs s) then Inr (bufs s ! b, s) else Inl Out_Of_Bounds)"
  "upd_buf b g s = (if b < length (bufs s) then Inr ((), s\<lparr>bufs := (bufs s)[b := g (bufs s ! b)]\<rparr>) else Inl Out_Of_Bounds)"
  "set_info_b i p s = (if i < length (info_b s) then Inr ((), s\<lparr>info_b := (info_b s)[i := p]\<rparr>) else Inl Out_Of_Bounds)"
  "set_status i c s = (if i < length (v_status (vio s)) then
     Inr ((), vio_update (v_status_update (\<lambda>xs. xs[i := c])) s) else Inl Out_Of_Bounds)"
  "set_op i p' s = (if i < length (v_ops (vio s)) then
     Inr ((), vio_update (v_ops_update (\<lambda>xs. xs[i := p'])) s) else Inl Out_Of_Bounds)"
  "vreg_r r s = Inr (vreg s r, s)"
  "vreg_w r x s = Inr ((), s\<lparr>vregw := (r, x) # vregw s\<rparr>)"
  by (simp_all add: vdesc_at_def upd_desc_def buf_at_def upd_buf_def set_info_b_def set_status_def set_op_def
    vreg_r_def vreg_w_def run)

interpretation vdisk: kernel_spinlock vdisk_lock vdisk_lock_update "\<lambda>_. True"
  by unfold_locales simp_all

definition vio_reset :: "vio \<Rightarrow> vio" where
  "vio_reset v = v\<lparr>v_desc := replicate NUM vdesc0, v_ring := replicate NUM 0, v_avail := 0,
     v_uring := replicate NUM \<lparr>used_id = 0, used_len = 0\<rparr>, v_used := 0\<rparr>"

lemma vio_reset_simps [simp]:
  "v_desc (vio_reset v) = replicate NUM vdesc0" "v_ring (vio_reset v) = replicate NUM 0" "v_avail (vio_reset v) = 0"
  "v_used (vio_reset v) = 0" "v_ops (vio_reset v) = v_ops v" "v_status (vio_reset v) = v_status v" "v_data (vio_reset v) = v_data v"
  "length (v_uring (vio_reset v)) = NUM" "v_blocks (vio_reset v) = v_blocks v" "v_nblocks (vio_reset v) = v_nblocks v"
  "v_seen (vio_reset v) = v_seen v" "v_hist (vio_reset v) = v_hist v"
  by (simp_all add: vio_reset_def)

lemma virtio_disk_init_run:
  assumes "drv_new s"
  obtains ws where "virtio_disk_init pfn s =
    Inr ((), s\<lparr>vdisk_lock := initlock, vio := vio_reset (vio s), vregw := ws, disk_free := replicate NUM True\<rparr>)"
proof -
  have q: "vreg s QUEUE_NUM_MAX \<noteq> 0" "\<not> vreg s QUEUE_NUM_MAX < 8"
    using assms by (auto simp: drv_new_def not_less)
  let ?f = "\<lambda>v :: vio. v\<lparr>v_desc := replicate NUM vdesc0, v_ring := replicate NUM 0, v_avail := 0,
     v_uring := replicate NUM \<lparr>used_id = 0, used_len = 0\<rparr>, v_used := 0\<rparr>"
  have u: "vio_update f t = t\<lparr>vio := f (vio t)\<rparr>" for f and t :: "'a disk_kern_scheme" by (cases t) simp
  show thesis
    by (rule that, insert assms q) (simp add: virtio_disk_init_def run drv_new_def vio_reset_def u [where f = ?f])
qed

lemma drv_new_ok:
  "drv_new s \<Longrightarrow> drv_ok (s\<lparr>vdisk_lock := initlock, vio := vio_reset (vio s), vregw := ws, disk_free := replicate NUM True\<rparr>)"
  by (simp add: drv_new_def drv_ok_def rings_ok_def)

lemma alloc3_run:
  assumes "disk_free s = replicate NUM True"
  shows "alloc3_desc s = Inr (Some (0, 1, 2), s\<lparr>disk_free := [False, False, False, True, True, True, True, True]\<rparr>)"
  using assms by (simp add: alloc3_desc_def alloc_desc_def run eval_nat_numeral)

definition submitted :: "vio \<Rightarrow> nat \<Rightarrow> bool \<Rightarrow> u64 \<Rightarrow> vio" where
  "submitted v b w sector = v\<lparr>
     v_ops := (v_ops v)[0 := \<lparr>op_type = (if w then T_OUT else T_IN), op_reserved = 0, op_sector = sector\<rparr>],
     v_desc := (v_desc v)[0 := \<lparr>d_addr = Dma_Op 0, d_len = 16, d_flags = F_NEXT, d_next = 1\<rparr>,
       1 := \<lparr>d_addr = Dma_Data b, d_len = of_nat BSIZE, d_flags = (if w then 0 else F_WRITE) OR F_NEXT, d_next = 2\<rparr>,
       2 := \<lparr>d_addr = Dma_Status 0, d_len = 1, d_flags = F_WRITE, d_next = 0\<rparr>],
     v_status := (v_status v)[0 := 0xff],
     v_ring := (v_ring v)[unat (v_avail v) mod NUM := 0],
     v_avail := v_avail v + 1\<rparr>"

lemma submit_run:
  assumes "rings_ok (vio s)" and "b < length (bufs s)" and "length (info_b s) = NUM"
  shows "submit b w sector 0 1 2 s =
    Inr ((), s\<lparr>vio := submitted (vio s) b w sector, bufs := (bufs s)[b := (bufs s ! b)\<lparr>b_disk := True\<rparr>],
      info_b := (info_b s)[0 := Some b]\<rparr>)"
  using assms by (simp add: submit_def format_desc_def make_avail_def run rings_ok_def submitted_def)

lemma submitted_request:
  assumes "rings_ok v" and "b < length (v_data v)"
  shows "request (submitted v b w sector) 0 1 2 w b sector" and "rings_ok (submitted v b w sector)"
  using assms by (simp_all add: request_def rings_ok_def submitted_def)

text \<open>The lock is held, and the device has completed the request of buffer \<open>b\<close>.\<close>

definition waiting :: "kcpu \<Rightarrow> nat \<Rightarrow> 's disk_kern_scheme \<Rightarrow> bool" where
  "waiting c b s \<longleftrightarrow> cpu_ok c \<and> kcpu s = push_off1 c \<and> vdisk_lock s = held c \<and> rings_ok (vio s) \<and>
     v_used (vio s) = disk_used s + 1 \<and> used_id (v_uring (vio s) ! (unat (disk_used s) mod NUM)) = 0 \<and>
     v_status (vio s) ! 0 = 0 \<and> length (info_b s) = NUM \<and> info_b s ! 0 = Some b \<and> b < length (bufs s) \<and> 2 \<le> wait_bound s"

lemma unlock_run:
  assumes "cpu_ok c" and "kcpu s = push_off1 c" and "vdisk_lock s = held c"
  shows "unlock_vdisk s = Inr ((), s\<lparr>kcpu := c, vdisk_lock := initlock\<rparr>)"
  using assms cpu_ok_noff [OF assms(1)] vdisk.release_run [of s] by simp

lemma lock_run:
  assumes "vdisk_lock s = initlock"
  shows "lock_vdisk s = Inr ((), s\<lparr>kcpu := push_off1 (kcpu s), vdisk_lock := held (kcpu s)\<rparr>)"
  using assms vdisk.acquire_run [of s] by simp

lemma wait_intr_run:
  assumes "waiting c b s"
  shows "wait_intr s = Inr ((), s\<lparr>vregw := (INTERRUPT_ACK, vreg s INTERRUPT_STATUS AND 3) # vregw s,
    bufs := (bufs s)[b := (bufs s ! b)\<lparr>b_disk := False\<rparr>], disk_used := disk_used s + 1\<rparr>)"
proof -
  obtain n where n: "wait_bound s = Suc (Suc n)"
    using assms by (cases "wait_bound s"; cases "wait_bound s - 1") (auto simp: waiting_def)
  have w: "cpu_ok c" "kcpu s = push_off1 c" "vdisk_lock s = held c" "rings_ok (vio s)" "v_used (vio s) = disk_used s + 1"
    "used_id (v_uring (vio s) ! (unat (disk_used s) mod NUM)) = 0" "v_status (vio s) ! 0 = 0" "length (info_b s) = NUM"
    "info_b s ! 0 = Some b" "b < length (bufs s)"
    using assms by (simp_all add: waiting_def)
  show ?thesis
    using w unfolding wait_intr_def virtio_disk_intr_def
    by (simp add: run unlock_run [OF w(1)] lock_run n intr_step_def rings_ok_def)
qed

text \<open>What one request does to the blocks and the buffers.\<close>

definition blk_moved :: "nat \<Rightarrow> bool \<Rightarrow> u64 \<Rightarrow> vio \<Rightarrow> vio \<Rightarrow> bool" where
  "blk_moved b w n v v' \<longleftrightarrow>
     v_data v' = (if w then v_data v else (v_data v)[b := v_blocks v n]) \<and>
     v_blocks v' = (if w then (v_blocks v)(n := v_data v ! b) else v_blocks v) \<and>
     v_hist v' = (if w then (n, v_data v ! b) # v_hist v else v_hist v) \<and> v_nblocks v' = v_nblocks v"

definition block_of :: "u32 \<Rightarrow> u64" where
  "block_of n = ucast (n * 2) div 2"

lemma free_chain_run:
  assumes "length (v_desc (vio s)) = NUM" and "disk_free s = [False, False, False, True, True, True, True, True]"
    and "v_desc (vio s) ! 0 = \<lparr>d_addr = Dma_Op 0, d_len = 16, d_flags = F_NEXT, d_next = 1\<rparr>"
    and "v_desc (vio s) ! 1 = \<lparr>d_addr = Dma_Data b, d_len = of_nat BSIZE, d_flags = (if w then 0 else F_WRITE) OR F_NEXT, d_next = 2\<rparr>"
    and "v_desc (vio s) ! 2 = \<lparr>d_addr = Dma_Status 0, d_len = 1, d_flags = F_WRITE, d_next = 0\<rparr>"
  shows "free_chain (Suc NUM) 0 s = Inr ((), s\<lparr>vio := vio s\<lparr>v_desc := (v_desc (vio s))[0 := vdesc0, 1 := vdesc0, 2 := vdesc0]\<rparr>,
    disk_free := replicate NUM True\<rparr>)"
proof -
  have n: "free_chain (Suc NUM) 0 s = free_chain (Suc (Suc (Suc 6))) 0 s" by simp
  have r: "replicate NUM True = [True, True, True, True, True, True, True, True]"
    by (simp add: numeral_eq_Suc)
  have f: "((if w then 0 else F_WRITE) OR F_NEXT) AND F_NEXT \<noteq> (0 :: u16)"
    by simp
  have step: "free_desc i t = Inr ((), t\<lparr>vio := vio t\<lparr>v_desc := (v_desc (vio t))[i := vdesc0]\<rparr>, disk_free := (disk_free t)[i := True]\<rparr>)"
    if "i < 3" "length (v_desc (vio t)) = NUM" "length (disk_free t) = NUM" "\<not> disk_free t ! i" for i and t :: "'a disk_kern_scheme"
    using that by (simp add: free_desc_def run)
  have g: "free_chain (Suc (Suc (Suc m))) 0 s = Inr ((), s\<lparr>vio := vio s\<lparr>v_desc := (v_desc (vio s))[0 := vdesc0, 1 := vdesc0, 2 := vdesc0]\<rparr>,
      disk_free := [True, True, True, True, True, True, True, True]\<rparr>)" for m
    using assms f by (simp add: run step)
  show ?thesis
    unfolding n r by (rule g)
qed

lemma dev_served_fields:
  "v_desc (dev_served v i w b n l) = v_desc v" "v_used (dev_served v i w b n l) = v_used v + 1"
  "v_seen (dev_served v i w b n l) = v_seen v + 1" "v_avail (dev_served v i w b n l) = v_avail v"
  "rings_ok v \<Longrightarrow> rings_ok (dev_served v i w b n l)" "blk_moved b w n v (dev_served v i w b n l)"
  "rings_ok v \<Longrightarrow> i < NUM \<Longrightarrow> v_status (dev_served v i w b n l) ! i = 0"
  "rings_ok v \<Longrightarrow> v_uring (dev_served v i w b n l) ! (unat (v_used v) mod NUM) = \<lparr>used_id = of_nat i, used_len = l\<rparr>"
  by (simp_all add: dev_served_def Let_def rings_ok_def blk_moved_def)

lemma submitted_fields:
  assumes "rings_ok v"
  shows "v_used (submitted v b w x) = v_used v" "v_seen (submitted v b w x) = v_seen v" "v_avail (submitted v b w x) = v_avail v + 1"
    and "v_desc (submitted v b w x) ! 0 = \<lparr>d_addr = Dma_Op 0, d_len = 16, d_flags = F_NEXT, d_next = 1\<rparr>"
    and "v_desc (submitted v b w x) ! 1 = \<lparr>d_addr = Dma_Data b, d_len = of_nat BSIZE, d_flags = (if w then 0 else F_WRITE) OR F_NEXT, d_next = 2\<rparr>"
    and "v_desc (submitted v b w x) ! 2 = \<lparr>d_addr = Dma_Status 0, d_len = 1, d_flags = F_WRITE, d_next = 0\<rparr>"
    and "blk_moved b w n (submitted v b w x) v' \<longleftrightarrow> blk_moved b w n v v'"
  using assms by (simp_all add: submitted_def rings_ok_def blk_moved_def)

text \<open>The shared state when the device is done with the request of a buffer.\<close>

definition completed :: "vio \<Rightarrow> nat \<Rightarrow> bool \<Rightarrow> u64 \<Rightarrow> vio \<Rightarrow> bool" where
  "completed v b w n v' \<longleftrightarrow> rings_ok v' \<and> v_used v' = v_used v + 1 \<and> v_seen v' = v_seen v + 1 \<and> v_avail v' = v_avail v + 1 \<and>
     v_status v' ! 0 = 0 \<and> used_id (v_uring v' ! (unat (v_used v) mod NUM)) = 0 \<and> blk_moved b w n v v' \<and>
     v_desc v' ! 0 = \<lparr>d_addr = Dma_Op 0, d_len = 16, d_flags = F_NEXT, d_next = 1\<rparr> \<and>
     v_desc v' ! 1 = \<lparr>d_addr = Dma_Data b, d_len = of_nat BSIZE, d_flags = (if w then 0 else F_WRITE) OR F_NEXT, d_next = 2\<rparr> \<and>
     v_desc v' ! 2 = \<lparr>d_addr = Dma_Status 0, d_len = 1, d_flags = F_WRITE, d_next = 0\<rparr>"

lemma device_completes:
  assumes ok: "rings_ok v" "v_avail v = v_seen v" and dv: "serves dv" and b: "b < length (v_data v)" and n: "sector div 2 < v_nblocks v"
  shows "completed v b w (sector div 2) (dv (submitted v b w sector))"
proof -
  let ?sub = "submitted v b w sector"
  note r = submitted_request [OF ok(1) b, of w sector]
  have "\<exists>l. dv ?sub = dev_served ?sub 0 w b (sector div 2) l"
  proof (rule dv [unfolded serves_def, rule_format])
    show "v_avail ?sub = v_seen ?sub + 1" "v_ring ?sub ! (unat (v_seen ?sub) mod NUM) = of_nat 0" "sector div 2 < v_nblocks ?sub"
      using ok n by (simp_all add: submitted_def rings_ok_def)
  qed (rule r)+
  then obtain l where l: "dv ?sub = dev_served ?sub 0 w b (sector div 2) l" by blast
  have "blk_moved b w (sector div 2) v (dv ?sub)"
    using dev_served_fields(6) [of b w "sector div 2" ?sub 0 l] submitted_fields(7) [OF ok(1)] l by simp
  moreover have "v_uring (dv ?sub) ! (unat (v_used v) mod NUM) = \<lparr>used_id = of_nat 0, used_len = l\<rparr>"
    using dev_served_fields(8) [OF r(2), of 0 w b "sector div 2" l] submitted_fields(1) [OF ok(1), of b w sector] unfolding l by simp
  ultimately show ?thesis
    using dev_served_fields(1-5,7) [of ?sub 0 w b "sector div 2" l] submitted_fields(1-6) [OF ok(1), of b w sector] r(2)
    unfolding completed_def l by simp
qed

lemma virtio_disk_rw_run:
  assumes ok: "drv_ok s" and b: "b < length (bufs s)" "b < length (v_data (vio s))"
    and n: "block_of (b_blockno (bufs s ! b)) < v_nblocks (vio s)"
  obtains v ws u where
    "virtio_disk_rw b w s = Inr ((), s\<lparr>vio := v, vregw := ws, disk_used := u, bufs := (bufs s)[b := (bufs s ! b)\<lparr>b_disk := False\<rparr>]\<rparr>)"
    and "blk_moved b w (block_of (b_blockno (bufs s ! b))) (vio s) v"
    and "drv_ok (s\<lparr>vio := v, vregw := ws, disk_used := u, bufs := (bufs s)[b := (bufs s ! b)\<lparr>b_disk := False\<rparr>]\<rparr>)"
proof -
  let ?sector = "ucast (b_blockno (bufs s ! b) * 2) :: u64" and ?c = "kcpu s" and ?F = "[False, False, False, True, True, True, True, True]"
  have o: "cpu_ok ?c" "vdisk_lock s = initlock" "rings_ok (vio s)" "v_avail (vio s) = v_seen (vio s)" "v_used (vio s) = disk_used s"
    "disk_free s = replicate NUM True" "info_b s = replicate NUM None" "serves (device s)" "2 \<le> wait_bound s"
    using ok by (simp_all add: drv_ok_def)
  obtain V where V: "device s (submitted (vio s) b w ?sector) = V" and c: "completed (vio s) b w (block_of (b_blockno (bufs s ! b))) V"
    using device_completes [OF o(3,4,8) b(2), of ?sector w] n unfolding block_of_def by blast
  define s4 where "s4 = s\<lparr>kcpu := push_off1 ?c, vdisk_lock := held ?c, disk_free := ?F,
    vio := V, bufs := (bufs s)[b := (bufs s ! b)\<lparr>b_disk := True\<rparr>], info_b := (info_b s)[0 := Some b],
    vregw := (QUEUE_NOTIFY, 0) # vregw s\<rparr>"
  define s5 where "s5 = s4\<lparr>vregw := (INTERRUPT_ACK, vreg s4 INTERRUPT_STATUS AND 3) # vregw s4,
    bufs := (bufs s4)[b := (bufs s4 ! b)\<lparr>b_disk := False\<rparr>], disk_used := disk_used s4 + 1\<rparr>"
  have wt: "waiting ?c b s4"
    using o b c by (simp add: waiting_def s4_def completed_def)
  obtain k where k: "wait_bound s = Suc (Suc k)"
    using o(9) by (cases "wait_bound s"; cases "wait_bound s - 1") auto
  have loop: "mwhile (wait_bound s) (mbind (buf_at b) (\<lambda>bp. mret (b_disk bp))) wait_intr s4 = Inr ((), s5)"
    using wait_intr_run [OF wt] b(1) unfolding k s5_def by (simp add: run s4_def)
  let ?v = "V\<lparr>v_desc := (v_desc V)[0 := vdesc0, 1 := vdesc0, 2 := vdesc0]\<rparr>"
  let ?t = "s\<lparr>vio := ?v, vregw := vregw s5, disk_used := disk_used s + 1, bufs := (bufs s)[b := (bufs s ! b)\<lparr>b_disk := False\<rparr>]\<rparr>"
  have chain: "free_chain (Suc NUM) 0 (s5\<lparr>info_b := (info_b s5)[0 := None]\<rparr>) =
      Inr ((), s5\<lparr>info_b := (info_b s5)[0 := None], vio := ?v, disk_free := replicate NUM True\<rparr>)"
    using c free_chain_run [of "s5\<lparr>info_b := (info_b s5)[0 := None]\<rparr>" b w]
    by (simp add: s5_def s4_def completed_def rings_ok_def)
  have fin: "unlock_vdisk (s5\<lparr>info_b := (info_b s5)[0 := None], vio := ?v, disk_free := replicate NUM True\<rparr>) = Inr ((), ?t)"
  proof -
    have i: "(replicate NUM None)[0 := None] = (replicate NUM None :: nat option list)"
      by (simp add: list_update_same_conv)
    have "s\<lparr>vregw := ws, bufs := bs, disk_used := u, info_b := replicate NUM None, vio := v, disk_free := replicate NUM True, vdisk_lock := initlock\<rparr> =
        s\<lparr>vio := v, vregw := ws, disk_used := u, bufs := bs\<rparr>" for ws bs u v
      using o(2,6,7) by (cases s) simp
    then show ?thesis
      using o(1,7) b(1) i by (subst unlock_run [of ?c]) (simp_all add: s5_def s4_def)
  qed
  have sub: "submit b w ?sector 0 1 2 (s\<lparr>kcpu := push_off1 ?c, vdisk_lock := held ?c, disk_free := ?F\<rparr>) =
    Inr ((), s\<lparr>kcpu := push_off1 ?c, vdisk_lock := held ?c, disk_free := ?F, vio := submitted (vio s) b w ?sector,
      bufs := (bufs s)[b := (bufs s ! b)\<lparr>b_disk := True\<rparr>], info_b := (info_b s)[0 := Some b]\<rparr>)"
    using o b by (subst submit_run) simp_all
  have "notify (s\<lparr>kcpu := push_off1 ?c, vdisk_lock := held ?c, disk_free := ?F, vio := submitted (vio s) b w ?sector,
      bufs := (bufs s)[b := (bufs s ! b)\<lparr>b_disk := True\<rparr>], info_b := (info_b s)[0 := Some b]\<rparr>) = Inr ((), s4)"
    using V by (simp add: notify_def run s4_def)
  moreover have "wait_bound s4 = wait_bound s" "length (info_b s5) = NUM"
    using o(7) by (simp_all add: s4_def s5_def)
  moreover have "alloc3_desc (s\<lparr>kcpu := push_off1 ?c, vdisk_lock := held ?c\<rparr>) =
      Inr (Some (0, 1, 2), s\<lparr>kcpu := push_off1 ?c, vdisk_lock := held ?c, disk_free := ?F\<rparr>)"
    using o(6) by (subst alloc3_run) simp_all
  ultimately have "virtio_disk_rw b w s = Inr ((), ?t)"
    using o(2) b(1) lock_run [of s] sub loop chain fin unfolding virtio_disk_rw_def
    by (simp add: run del: free_chain.simps mwhile.simps)
  moreover have "blk_moved b w (block_of (b_blockno (bufs s ! b))) (vio s) ?v"
    using c by (simp add: completed_def blk_moved_def)
  moreover have "drv_ok ?t"
    using o c by (simp add: drv_ok_def completed_def rings_ok_def)
  ultimately show thesis by (rule that)
qed

section \<open>Properties of the driver\<close>

text \<open>
  C20. With a device that serves requests as virtio block devices do, a call of \<open>virtio_disk_rw\<close> for
  a buffer whose block exists returns. A read leaves the contents of the block in the buffer, a
  write leaves the data of the buffer in the block; no other buffer and no other block changes,
  and afterwards all descriptors are free again, the lock is released and the driver is ready for
  the next request.
\<close>

theorem virtio_disk_rw_transfers:
  assumes "drv_ok s" and "b < length (bufs s)" and "b < length (v_data (vio s))"
    and "block_of (b_blockno (bufs s ! b)) < v_nblocks (vio s)"
  shows "wp (virtio_disk_rw b w) (\<lambda>_ t. drv_ok t \<and> \<not> b_disk (bufs t ! b) \<and>
    blk_moved b w (block_of (b_blockno (bufs s ! b))) (vio s) (vio t) \<and>
    (\<forall>i. i \<noteq> b \<longrightarrow> bufs t ! i = bufs s ! i \<and> v_data (vio t) ! i = v_data (vio s) ! i)) s"
proof -
  obtain v ws u where
    r: "virtio_disk_rw b w s = Inr ((), s\<lparr>vio := v, vregw := ws, disk_used := u, bufs := (bufs s)[b := (bufs s ! b)\<lparr>b_disk := False\<rparr>]\<rparr>)"
    and m: "blk_moved b w (block_of (b_blockno (bufs s ! b))) (vio s) v"
    and ok: "drv_ok (s\<lparr>vio := v, vregw := ws, disk_used := u, bufs := (bufs s)[b := (bufs s ! b)\<lparr>b_disk := False\<rparr>]\<rparr>)"
    by (rule virtio_disk_rw_run [OF assms])
  show ?thesis
    unfolding wp_def r using ok m assms(2) by (auto simp: blk_moved_def)
qed

text \<open>A disk of 8 blocks of one byte and a device that serves the chain at its position.\<close>

definition dev0 :: "vio \<Rightarrow> vio" where
  "dev0 v = (let i = unat (v_ring v ! (unat (v_seen v) mod NUM)); d = v_desc v ! unat (d_next (v_desc v ! i)) in
     case d_addr d of Dma_Data b \<Rightarrow> dev_served v i (op_type (v_ops v ! i) = T_OUT) b (op_sector (v_ops v ! i) div 2) 3 | _ \<Rightarrow> v)"

definition buf0 :: buf where
  "buf0 = \<lparr>b_valid = False, b_disk = False, b_dev = 0, b_blockno = 0, b_lock = initsleeplock, b_refcnt = 0, b_prev = 0, b_next = 0\<rparr>"

definition vio0 :: vio where
  "vio0 = \<lparr>v_desc = replicate NUM vdesc0, v_ring = replicate NUM 0, v_avail = 0, v_uring = replicate NUM \<lparr>used_id = 0, used_len = 0\<rparr>,
     v_used = 0, v_ops = replicate NUM \<lparr>op_type = 0, op_reserved = 0, op_sector = 0\<rparr>, v_status = replicate NUM 0, v_data = [[1], [2]],
     v_blocks = (\<lambda>n. [ucast n]), v_nblocks = 8, v_seen = 0, v_hist = []\<rparr>"

definition disk_kern0 :: disk_kern where
  "disk_kern0 = \<lparr>kcpu = \<lparr>noff = 0, intena = True, intr = True, cpu_id = 0\<rparr>, kpid = 1, vdisk_lock = initlock, vio = vio0,
     disk_free = replicate NUM True, disk_used = 0, info_b = replicate NUM None, bufs = [buf0, buf0\<lparr>b_blockno := 5\<rparr>],
     device = dev0, vreg = (\<lambda>_. 0), vregw = [], wait_bound = 2\<rparr>"

lemma dev0_serves: "serves dev0"
proof -
  have "dev0 v = dev_served v i w b (sector div 2) 3"
    if "v_ring v ! (unat (v_seen v) mod NUM) = of_nat i" "request v i j k w b sector" for v i j k w b sector
  proof -
    have "unat (of_nat i :: u16) = i" "unat (of_nat j :: u16) = j"
      using that(2) by (simp_all add: request_def unat_of_nat)
    with that show ?thesis by (auto simp: dev0_def request_def)
  qed
  then show ?thesis unfolding serves_def by blast
qed

theorem virtio_disk_rw_transfers_witness:
  "wp (virtio_disk_rw 1 False) (\<lambda>_ t. v_data (vio t) = [[1], [5]]) disk_kern0"
proof -
  have "drv_ok disk_kern0"
    using dev0_serves by (simp add: drv_ok_def disk_kern0_def vio0_def rings_ok_def cpu_ok_def)
  moreover have "block_of 5 = 5"
    by (simp add: block_of_def)
  ultimately show ?thesis
    by (intro wp_mono [OF virtio_disk_rw_transfers [of disk_kern0 1 False]])
      (simp_all add: disk_kern0_def vio0_def blk_moved_def)
qed

lemma free_chain_bound:
  "length (filter Not (disk_free s)) < n \<Longrightarrow> free_chain n i s \<noteq> Inl Diverge"
proof (induction n arbitrary: i s)
  case (Suc n)
  have less: "length (filter Not ((disk_free s)[i := True])) < n" if "i < length (disk_free s)" "\<not> disk_free s ! i"
    using that Suc.prems
    by (subst (asm) id_take_nth_drop [OF that(1)], subst upd_conv_take_nth_drop [OF that(1)]) simp
  have "vdesc_at i s = Inl e \<Longrightarrow> e \<noteq> Diverge" for e
    by (auto simp: run split: if_splits)
  then show ?case
    using less Suc.IH [of "disk_free_update (\<lambda>fs. fs[i := True]) (vio_update (v_desc_update (\<lambda>ds. ds[i := vdesc0])) s)"]
    by (auto simp: run free_desc_def split: if_splits)
qed simp

text \<open>
  C28. \<open>free_chain\<close> ends, whatever the descriptors in the shared memory contain: a chain that comes
  back to a descriptor that has been freed already makes \<open>free_desc\<close> panic, so that the loop runs
  at most once per descriptor.
\<close>

theorem free_chain_terminates:
  assumes "length (disk_free s) = NUM"
  shows "free_chain (Suc NUM) i s \<noteq> Inl Diverge"
  by (rule free_chain_bound) (use assms length_filter_le [of Not "disk_free s"] in linarith)

theorem free_chain_terminates_witness:
  "free_chain (Suc NUM) 0 (disk_kern0\<lparr>disk_free := replicate NUM False,
     vio := vio0\<lparr>v_desc := replicate NUM (vdesc0\<lparr>d_flags := F_NEXT\<rparr>)\<rparr>\<rparr>) \<noteq> Inl Diverge"
  by (rule free_chain_terminates) simp

end
