(* ===== verification/Xv6_Bio.thy ===== *)
theory Xv6_Bio
  imports Xv6_Disk
begin

text \<open>
  The buffer cache, \<open>guest/xv6/kernel/bio.c\<close>: buffers for disk blocks in a doubly linked list
  that is sorted by how recently they were used. Buffers are named by their index; the head of the
  list, \<open>bcache.head\<close>, is the element behind the last buffer.
\<close>

section \<open>Operations\<close>

abbreviation (input) NBUF :: nat where "NBUF \<equiv> 30"
abbreviation (input) HEAD :: nat where "HEAD \<equiv> 30"

record bcache_kern = disk_kern +
  bcache_lock :: xlock

type_synonym ('s, 'a) bcomp = "('s bcache_kern_scheme, 'a) comp"

abbreviation lock_bcache :: "('s, unit) bcomp" where
  "lock_bcache \<equiv> acquire bcache_lock bcache_lock_update"

abbreviation unlock_bcache :: "('s, unit) bcomp" where
  "unlock_bcache \<equiv> release bcache_lock bcache_lock_update"

definition buf_lock :: "nat \<Rightarrow> 's disk_kern_scheme \<Rightarrow> sleeplock" where
  "buf_lock b s = b_lock (bufs s ! b)"

definition upd_buf_lock :: "nat \<Rightarrow> (sleeplock \<Rightarrow> sleeplock) \<Rightarrow> 's disk_kern_scheme \<Rightarrow> 's disk_kern_scheme" where
  "upd_buf_lock b f = bufs_update (\<lambda>bs. bs[b := b_lock_update f (bs ! b)])"

text \<open>The loop of \<open>binit\<close> inserts every buffer behind the head.\<close>

definition binit1 :: "nat \<Rightarrow> ('s, unit) bcomp" where
  "binit1 b =
     mbind (buf_at HEAD) (\<lambda>h. let n = b_next h in
     mthen (upd_buf b (\<lambda>x. x\<lparr>b_next := n, b_prev := HEAD, b_lock := initsleeplock\<rparr>))
     (mthen (upd_buf n (b_prev_update (\<lambda>_. b)))
     (upd_buf HEAD (b_next_update (\<lambda>_. b)))))"

definition binit :: "('s, unit) bcomp" where
  "binit =
     mthen (mmod (bcache_lock_update (\<lambda>_. initlock)))
     (mthen (upd_buf HEAD (\<lambda>x. x\<lparr>b_prev := HEAD, b_next := HEAD\<rparr>))
     (mfor [0..<NBUF] binit1))"

text \<open>A walk through the list along \<open>dir\<close>, up to the first buffer with the property \<open>p\<close>.\<close>

primrec scan :: "(buf \<Rightarrow> nat) \<Rightarrow> nat \<Rightarrow> (buf \<Rightarrow> bool) \<Rightarrow> nat \<Rightarrow> ('s, nat option) bcomp" where
  "scan dir 0 p b = mfail Diverge"
| "scan dir (Suc n) p b =
     (if b = HEAD then mret None
      else mbind (buf_at b) (\<lambda>x. if p x then mret (Some b) else scan dir n p (dir x)))"

definition bget :: "u32 \<Rightarrow> u32 \<Rightarrow> ('s, nat) bcomp" where
  "bget dv blockno =
     mthen lock_bcache
     (mbind (buf_at HEAD) (\<lambda>h.
      mbind (scan b_next (Suc NBUF) (\<lambda>x. b_dev x = dv \<and> b_blockno x = blockno) (b_next h)) (\<lambda>r.
      case r of
        Some b \<Rightarrow>
          mthen (upd_buf b (b_refcnt_update (\<lambda>r. r + 1)))
          (mthen unlock_bcache
          (mthen (acquiresleep (buf_lock b) (upd_buf_lock b)) (mret b)))
      | None \<Rightarrow>
          mbind (scan b_prev (Suc NBUF) (\<lambda>x. b_refcnt x = 0) (b_prev h)) (\<lambda>r.
          case r of
            Some b \<Rightarrow>
              mthen (upd_buf b (\<lambda>x. x\<lparr>b_dev := dv, b_blockno := blockno, b_valid := False, b_refcnt := 1\<rparr>))
              (mthen unlock_bcache
              (mthen (acquiresleep (buf_lock b) (upd_buf_lock b)) (mret b)))
          | None \<Rightarrow> mfail (Panic ''bget: no buffers'')))))"

definition bread :: "u32 \<Rightarrow> u32 \<Rightarrow> ('s, nat) bcomp" where
  "bread dv blockno =
     mbind (bget dv blockno) (\<lambda>b. mbind (buf_at b) (\<lambda>x.
     if \<not> b_valid x
     then mthen (virtio_disk_rw b False) (mthen (upd_buf b (b_valid_update (\<lambda>_. True))) (mret b))
     else mret b))"

definition bwrite :: "nat \<Rightarrow> ('s, unit) bcomp" where
  "bwrite b = mbind (holdingsleep (buf_lock b) (upd_buf_lock b)) (\<lambda>h.
     if \<not> h then mfail (Panic ''bwrite'') else virtio_disk_rw b True)"

definition move_front :: "nat \<Rightarrow> ('s, unit) bcomp" where
  "move_front b =
     mbind (buf_at b) (\<lambda>x.
     mthen (upd_buf (b_next x) (b_prev_update (\<lambda>_. b_prev x)))
     (mthen (upd_buf (b_prev x) (b_next_update (\<lambda>_. b_next x)))
     (mbind (buf_at HEAD) (\<lambda>h. let n = b_next h in
      mthen (upd_buf b (\<lambda>x. x\<lparr>b_next := n, b_prev := HEAD\<rparr>))
     (mthen (upd_buf n (b_prev_update (\<lambda>_. b)))
     (upd_buf HEAD (b_next_update (\<lambda>_. b))))))))"

definition brelse :: "nat \<Rightarrow> ('s, unit) bcomp" where
  "brelse b = mbind (holdingsleep (buf_lock b) (upd_buf_lock b)) (\<lambda>h.
     if \<not> h then mfail (Panic ''brelse'')
     else
       mthen (releasesleep (buf_lock b) (upd_buf_lock b))
       (mthen lock_bcache
       (mthen (upd_buf b (b_refcnt_update (\<lambda>r. r - 1)))
       (mbind (buf_at b) (\<lambda>x.
        mthen (if b_refcnt x = 0 then move_front b else mret ()) unlock_bcache)))))"

definition bpin :: "nat \<Rightarrow> ('s, unit) bcomp" where
  "bpin b = mthen lock_bcache (mthen (upd_buf b (b_refcnt_update (\<lambda>r. r + 1))) unlock_bcache)"

definition bunpin :: "nat \<Rightarrow> ('s, unit) bcomp" where
  "bunpin b = mthen lock_bcache (mthen (upd_buf b (b_refcnt_update (\<lambda>r. r - 1))) unlock_bcache)"

section \<open>The list\<close>

definition linked :: "buf list \<Rightarrow> nat list \<Rightarrow> bool" where
  "linked bs xs \<longleftrightarrow> (\<forall>(x, y) \<in> set (zip xs (tl xs)). b_next (bs ! x) = y \<and> b_prev (bs ! y) = x)"

lemma linked_simps [simp]:
  "linked bs []" "linked bs [x]"
  "linked bs (x # y # zs) \<longleftrightarrow> b_next (bs ! x) = y \<and> b_prev (bs ! y) = x \<and> linked bs (y # zs)"
  by (auto simp: linked_def)

lemma linked_append: "linked bs (xs @ z # ys) \<longleftrightarrow> linked bs (xs @ [z]) \<and> linked bs (z # ys)"
proof (induction xs)
  case (Cons x xs)
  then show ?case by (cases xs) auto
qed simp

lemma linked_cong:
  assumes "\<And>x. x \<in> set (butlast xs) \<Longrightarrow> b_next (bs' ! x) = b_next (bs ! x)"
    and "\<And>x. x \<in> set (tl xs) \<Longrightarrow> b_prev (bs' ! x) = b_prev (bs ! x)"
  shows "linked bs' xs \<longleftrightarrow> linked bs xs"
  using assms
proof (induction xs)
  case (Cons x xs)
  then show ?case by (cases xs) auto
qed simp

lemma linked_snoc: "xs \<noteq> [] \<Longrightarrow> linked bs (xs @ [y]) \<longleftrightarrow> linked bs xs \<and> b_next (bs ! last xs) = y \<and> b_prev (bs ! y) = last xs"
proof (induction xs)
  case (Cons x xs)
  then show ?case by (cases xs) auto
qed simp

definition lru :: "buf list \<Rightarrow> nat list \<Rightarrow> bool" where
  "lru bs os \<longleftrightarrow> length bs = Suc NBUF \<and> distinct os \<and> set os = {..<NBUF} \<and> linked bs (HEAD # os @ [HEAD])"

text \<open>The walks visit the buffers in order, and in the opposite order.\<close>

lemma scan_next_run:
  assumes "linked (bufs s) (xs @ [HEAD])" and "set xs \<subseteq> {..<NBUF}" and "length (bufs s) = Suc NBUF" and "length xs < n"
  shows "scan b_next n p (hd (xs @ [HEAD])) s = Inr (find (\<lambda>i. p (bufs s ! i)) xs, s)"
  using assms
proof (induction xs arbitrary: n)
  case Nil
  then show ?case by (cases n) (simp_all add: run)
next
  case (Cons x xs)
  then obtain k where n: "n = Suc k" by (cases n) simp_all
  have "linked (bufs s) (xs @ [HEAD])" "b_next (bufs s ! x) = hd (xs @ [HEAD])"
    using Cons.prems(1) by (cases xs; simp)+
  with Cons n show ?case by (simp add: run)
qed

lemma scan_prev_run:
  assumes "linked (bufs s) (HEAD # xs)" and "set xs \<subseteq> {..<NBUF}" and "length (bufs s) = Suc NBUF" and "length xs < n"
  shows "scan b_prev n p (last (HEAD # xs)) s = Inr (find (\<lambda>i. p (bufs s ! i)) (rev xs), s)"
  using assms
proof (induction xs arbitrary: n rule: rev_induct)
  case Nil
  then show ?case by (cases n) (simp_all add: run)
next
  case (snoc x xs)
  then obtain k where n: "n = Suc k" by (cases n) simp_all
  have l: "linked (bufs s) (HEAD # xs)" "b_prev (bufs s ! x) = last (HEAD # xs)"
    using snoc.prems(1) linked_snoc [of "HEAD # xs" "bufs s" x] by simp_all
  with snoc n show ?case by (simp add: run)
qed

text \<open>\<open>move_front\<close> moves a buffer to the front and changes nothing but the links.\<close>

definition fronted :: "buf list \<Rightarrow> nat \<Rightarrow> buf list" where
  "fronted bs b =
     (let x = bs ! b; bs = bs[b_next x := (bs ! b_next x)\<lparr>b_prev := b_prev x\<rparr>];
          bs = bs[b_prev x := (bs ! b_prev x)\<lparr>b_next := b_next x\<rparr>]; n = b_next (bs ! HEAD);
          bs = bs[b := (bs ! b)\<lparr>b_next := n, b_prev := HEAD\<rparr>]; bs = bs[n := (bs ! n)\<lparr>b_prev := b\<rparr>]
      in bs[HEAD := (bs ! HEAD)\<lparr>b_next := b\<rparr>])"

definition core :: "buf \<Rightarrow> buf" where
  "core x = x\<lparr>b_prev := 0, b_next := 0\<rparr>"

lemma core_update [simp]: "core (x\<lparr>b_prev := p\<rparr>) = core x" "core (x\<lparr>b_next := p\<rparr>) = core x"
  by (simp_all add: core_def)

lemma core_list_update: "core y = core (bs ! i) \<Longrightarrow> core (bs[i := y] ! k) = core (bs ! k)"
  by (cases "i < length bs") (auto simp: nth_list_update list_update_beyond)

lemma fronted_core: "core (fronted bs b ! k) = core (bs ! k)"
  unfolding fronted_def Let_def by (simp add: core_list_update)

lemma fronted_length [simp]: "length (fronted bs b) = length bs"
  by (simp add: fronted_def Let_def)

lemma next_prev_update:
  "b_next (bs[i := (bs ! i)\<lparr>b_prev := p\<rparr>] ! k) = b_next (bs ! k)"
  "b_prev (bs[i := (bs ! i)\<lparr>b_next := p\<rparr>] ! k) = b_prev (bs ! k)"
  "i < length bs \<Longrightarrow> b_prev (bs[i := (bs ! i)\<lparr>b_prev := p\<rparr>] ! k) = (if k = i then p else b_prev (bs ! k))"
  "i < length bs \<Longrightarrow> b_next (bs[i := (bs ! i)\<lparr>b_next := p\<rparr>] ! k) = (if k = i then p else b_next (bs ! k))"
  "i < length bs \<Longrightarrow> b_next (bs[i := (bs ! i)\<lparr>b_next := p, b_prev := q\<rparr>] ! k) = (if k = i then p else b_next (bs ! k))"
  "i < length bs \<Longrightarrow> b_prev (bs[i := (bs ! i)\<lparr>b_next := p, b_prev := q\<rparr>] ! k) = (if k = i then q else b_prev (bs ! k))"
  by (simp_all add: nth_list_update) (cases "i < length bs"; simp add: nth_list_update list_update_beyond)+

lemma fronted_links:
  assumes "length bs = Suc NBUF" and "b < NBUF" and "b_next (bs ! b) \<le> NBUF" and "b_prev (bs ! b) \<le> NBUF" and "b_next (bs ! HEAD) \<le> NBUF"
    and "b_prev (bs ! b) \<noteq> b" and "b_next (bs ! b) \<noteq> b"
  defines "n \<equiv> (if b_prev (bs ! b) = HEAD then b_next (bs ! b) else b_next (bs ! HEAD))"
  shows "b_next (fronted bs b ! k) = (if k = HEAD then b else if k = b then n else if k = b_prev (bs ! b) then b_next (bs ! b) else b_next (bs ! k))"
    and "b_prev (fronted bs b ! k) = (if k = n then b else if k = b then HEAD else if k = b_next (bs ! b) then b_prev (bs ! b) else b_prev (bs ! k))"
  using assms unfolding fronted_def Let_def by (auto simp: next_prev_update)

lemma linked_around:
  assumes "linked bs (HEAD # xs @ b # ys @ [HEAD])"
  shows "linked bs (HEAD # xs)" and "b_prev (bs ! b) = last (HEAD # xs)" and "b_next (bs ! b) = hd (ys @ [HEAD])"
    and "linked bs (ys @ [HEAD])" and "b_next (bs ! HEAD) = hd (xs @ [b])"
proof -
  have L: "linked bs ((HEAD # xs) @ [b])" "linked bs (b # ys @ [HEAD])"
    using assms linked_append [of bs "HEAD # xs" b "ys @ [HEAD]"] by simp_all
  show "linked bs (HEAD # xs)" "b_prev (bs ! b) = last (HEAD # xs)"
    using L(1) linked_snoc [of "HEAD # xs" bs b] by blast+
  show "b_next (bs ! b) = hd (ys @ [HEAD])" "linked bs (ys @ [HEAD])"
    using L(2) by (cases ys; simp)+
  show "b_next (bs ! HEAD) = hd (xs @ [b])"
    using assms by (cases xs) simp_all
qed

lemma lru_fronted:
  assumes "lru bs (xs @ b # ys)"
  shows "lru (fronted bs b) (b # xs @ ys)"
proof -
  let ?p = "last (HEAD # xs)" and ?n = "hd (ys @ [HEAD])" and ?bs = "fronted bs b"
  have l: "length bs = Suc NBUF" "distinct (xs @ b # ys)" "set (xs @ b # ys) = {..<NBUF}" "linked bs (HEAD # xs @ b # ys @ [HEAD])"
    using assms by (simp_all add: lru_def)
  have m: "x < NBUF" "x \<noteq> HEAD" if "x \<in> set xs \<or> x = b \<or> x \<in> set ys" for x
  proof -
    have "x \<in> set (xs @ b # ys)" using that by auto
    then show "x < NBUF" "x \<noteq> HEAD" unfolding l(3) by simp_all
  qed
  note L = linked_around [OF l(4)]
  have p: "?p \<le> NBUF" "?p \<noteq> b" "?p = HEAD \<longleftrightarrow> xs = []"
    using m(1) [of "last xs"] m(2) [of "last xs"] m [of b] l(2) last_in_set [of xs] by (cases "xs = []"; auto)+
  have n: "?n \<le> NBUF" "?n \<noteq> b"
    using m(1) [of "hd ys"] m [of b] l(2) by (cases ys; auto)+
  have hn: "b_next (bs ! HEAD) \<le> NBUF"
    unfolding L(5) using m(1) [of "hd xs"] m(1) [of b] by (cases xs) simp_all
  have dy: "distinct (ys @ [HEAD])" using l(2) m(2) by auto
  let ?q = "hd (xs @ ys @ [HEAD])"
  have q: "(if b_prev (bs ! b) = HEAD then b_next (bs ! b) else b_next (bs ! HEAD)) = ?q"
    unfolding L(2,3,5) p(3) by (cases xs) simp_all
  have b: "b < NBUF" "b \<noteq> HEAD" using m by simp_all
  note F = fronted_links [OF l(1) b(1), unfolded q, unfolded L(2,3), OF n(1) p(1) hn p(2) n(2)]
  have qb: "?q \<noteq> b"
    using n(2) l(2) by (cases xs) auto
  have ys: "linked ?bs (ys @ [HEAD])"
  proof (rule linked_cong [THEN iffD2, OF _ _ L(4)])
    show "b_next (?bs ! x) = b_next (bs ! x)" if "x \<in> set (butlast (ys @ [HEAD]))" for x
      using that l(2) m(2) [of x] last_in_set [of xs] by (cases xs) (auto simp: F(1))
    show "b_prev (?bs ! x) = b_prev (bs ! x)" if "x \<in> set (tl (ys @ [HEAD]))" for x
    proof -
      have "x \<noteq> ?n" "x \<noteq> b" "xs \<noteq> [] \<Longrightarrow> x \<noteq> hd xs"
        using that dy l(2) b(2) m(2) [of "hd xs"] by (cases ys; cases xs; auto)+
      then show ?thesis by (cases xs) (auto simp: F(2))
    qed
  qed
  have "linked ?bs (xs @ ys @ [HEAD])"
  proof (cases "xs = []")
    case False
    obtain zs where zs: "ys @ [HEAD] = ?n # zs" by (cases ys) simp_all
    have "linked ?bs xs"
    proof (rule linked_cong [THEN iffD2])
      show "linked bs xs" using L(1) False by (cases xs) simp_all
      show "b_next (?bs ! x) = b_next (bs ! x)" if "x \<in> set (butlast xs)" for x
      proof -
        have "x \<in> set xs" "x \<noteq> last xs"
          using that l(2) False in_set_butlastD [of x xs] append_butlast_last_id [of xs] distinct_append [of "butlast xs" "[last xs]"] by auto
        then show ?thesis using l(2) m(2) [of x] False by (auto simp: F(1))
      qed
      show "b_prev (?bs ! x) = b_prev (bs ! x)" if "x \<in> set (tl xs)" for x
      proof -
        have "x \<in> set xs" "x \<noteq> hd xs" "x \<noteq> ?n"
          using that l(2) m(2) [of x] by (cases xs; cases ys; auto)+
        then show ?thesis using l(2) False by (auto simp: F(2))
      qed
    qed
    moreover have "b_next (?bs ! last xs) = ?n" "b_prev (?bs ! ?n) = last xs"
    proof -
      have "last xs \<in> set xs" "?n \<notin> set xs"
        using False m(2) l(2) by (cases ys; auto)+
      then show "b_next (?bs ! last xs) = ?n" "b_prev (?bs ! ?n) = last xs"
        using False m(2) [of "last xs"] l(2) n(2) hd_in_set [OF False] by (auto simp: F)
    qed
    ultimately show ?thesis
      using ys linked_append [of ?bs xs ?n zs, folded zs] linked_snoc [OF False, of ?bs ?n] by blast
  qed (use ys in simp)
  moreover have "b_next (?bs ! HEAD) = b" "b_prev (?bs ! b) = HEAD" "b_next (?bs ! b) = ?q" "b_prev (?bs ! ?q) = b"
    using b qb by (simp_all add: F)
  moreover obtain zs where zs: "xs @ ys @ [HEAD] = ?q # zs"
    by (cases "xs @ ys @ [HEAD]") auto
  ultimately have "linked ?bs (HEAD # b # xs @ ys @ [HEAD])"
    using linked_simps(3) [of ?bs b ?q zs, folded zs] linked_simps(3) [of ?bs HEAD b "xs @ ys @ [HEAD]"] by blast
  moreover have "set (b # xs @ ys) = set (xs @ b # ys)" by auto
  ultimately show ?thesis
    using l(1,2) unfolding lru_def l(3) by simp
qed

lemma move_front_run:
  assumes "lru (bufs s) os" and "b < NBUF"
  shows "move_front b s = Inr ((), s\<lparr>bufs := fronted (bufs s) b\<rparr>)" and "\<exists>os. lru (fronted (bufs s) b) os"
proof -
  have l: "length (bufs s) = Suc NBUF" "set os = {..<NBUF}"
    using assms(1) by (simp_all add: lru_def)
  then have "b \<in> set os" using assms(2) by simp
  then obtain xs ys where os: "os = xs @ b # ys" by (auto simp: in_set_conv_decomp)
  then show "\<exists>os. lru (fronted (bufs s) b) os"
    using lru_fronted assms(1) by blast
  have "linked (bufs s) (HEAD # xs @ b # ys @ [HEAD])"
    using assms(1) os by (simp add: lru_def)
  note L = linked_around [OF this]
  have in_os: "x < Suc NBUF" if "x \<in> set xs \<or> x \<in> set ys \<or> x = b" for x
  proof -
    have "x \<in> set os" using that os by auto
    then show ?thesis unfolding l(2) by simp
  qed
  have r: "b_prev (bufs s ! b) < Suc NBUF" "b_next (bufs s ! b) < Suc NBUF" "b_next (bufs s ! HEAD) < Suc NBUF"
    unfolding L(2,3,5) using in_os [of "last xs"] in_os [of "hd ys"] in_os [of "hd xs"] in_os [of b] by (cases xs; cases ys; simp)+
  show "move_front b s = Inr ((), s\<lparr>bufs := fronted (bufs s) b\<rparr>)"
    using r l(1) assms(2) by (simp add: move_front_def run fronted_def Let_def next_prev_update)
qed

section \<open>The locks\<close>

interpretation buf_sleep: kernel_sleeplock "buf_lock b" "upd_buf_lock b" "\<lambda>s. b < length (bufs s)" for b
proof (unfold_locales, goal_cases)
  case (3 s)
  have "(bufs s)[b := (bufs s ! b)\<lparr>b_lock := b_lock (bufs s ! b)\<rparr>] = bufs s" by simp
  then show ?case by (simp add: upd_buf_lock_def buf_lock_def)
next
  case (4 s f h)
  then have "b_lock_update f (bufs s ! b) = b_lock_update h (bufs s ! b)" by (cases "bufs s ! b") (simp add: buf_lock_def)
  then show ?case by (cases s) (simp add: upd_buf_lock_def)
next
  case (2 f h s)
  have "b_lock_update f (b_lock_update h x) = b_lock_update (\<lambda>l. f (h l)) x" for x by (cases x) simp
  then show ?case by (cases "b < length (bufs s)"; cases s) (simp_all add: upd_buf_lock_def list_update_beyond comp_def)
qed (simp_all add: upd_buf_lock_def buf_lock_def)

interpretation bcache: kernel_spinlock bcache_lock bcache_lock_update "\<lambda>_. True"
  by unfold_locales simp_all

lemma lock_bcache_run:
  "bcache_lock s = initlock \<Longrightarrow> lock_bcache s = Inr ((), s\<lparr>kcpu := push_off1 (kcpu s), bcache_lock := held (kcpu s)\<rparr>)"
  by (subst bcache.acquire_run) simp_all

lemma unlock_bcache_run:
  assumes "cpu_ok c" and "kcpu s = push_off1 c" and "bcache_lock s = held c"
  shows "unlock_bcache s = Inr ((), s\<lparr>kcpu := c, bcache_lock := initlock\<rparr>)"
  using assms cpu_ok_noff [OF assms(1)] by (subst bcache.release_run) simp_all

end
