(* ===== verification/Xv6_Cache.thy ===== *)
theory Xv6_Cache
  imports Xv6_Bio
begin

text \<open>
  What the buffer cache promises. The view of a state has the blocks on the disk and, for every
  block, its contents as the kernel sees them, the number of references to it and whether a
  process holds it; buffers and the order in which they are recycled do not appear in it. Every
  operation of \<open>bio.c\<close> is a simple change of the view.
\<close>

section \<open>The view\<close>

abbreviation (input) ROOTDEV :: u32 where "ROOTDEV \<equiv> 1"

definition names :: "'s bcache_kern_scheme \<Rightarrow> nat \<Rightarrow> u32 \<Rightarrow> bool" where
  "names s i n \<longleftrightarrow> i < NBUF \<and> b_dev (bufs s ! i) = ROOTDEV \<and> b_blockno (bufs s ! i) = n"

definition blk :: "'s bcache_kern_scheme \<Rightarrow> u32 \<Rightarrow> u8 list" where
  "blk s n = v_blocks (vio s) (ucast n)"

record entry =
  e_data :: "u8 list"
  e_refs :: u32
  e_held :: bool

definition entry_of :: "'s bcache_kern_scheme \<Rightarrow> nat \<Rightarrow> entry" where
  "entry_of s i = (let x = bufs s ! i in
     \<lparr>e_data = (if b_valid x then v_data (vio s) ! i else blk s (b_blockno x)), e_refs = b_refcnt x, e_held = slocked (b_lock x)\<rparr>)"

definition uncached :: "'s bcache_kern_scheme \<Rightarrow> u32 \<Rightarrow> entry" where
  "uncached s n = \<lparr>e_data = blk s n, e_refs = 0, e_held = False\<rparr>"

definition ent :: "'s bcache_kern_scheme \<Rightarrow> u32 \<Rightarrow> entry" where
  "ent s n = (case List.find (\<lambda>i. names s i n) [0..<NBUF] of Some i \<Rightarrow> entry_of s i | None \<Rightarrow> uncached s n)"

record view =
  cv_disk :: "u32 \<Rightarrow> u8 list"
  cv_ent :: "u32 \<Rightarrow> entry"
  cv_hist :: "(u64 \<times> u8 list) list"

definition view :: "'s bcache_kern_scheme \<Rightarrow> view" where
  "view s = \<lparr>cv_disk = blk s, cv_ent = ent s, cv_hist = v_hist (vio s)\<rparr>"

section \<open>The invariant\<close>

text \<open>
  No two buffers are for the same block. A buffer without references is not locked, and when it is
  valid it has what is on the disk: it can be recycled.
\<close>

definition buf_ok :: "'s bcache_kern_scheme \<Rightarrow> nat \<Rightarrow> bool" where
  "buf_ok s i \<longleftrightarrow> (let x = bufs s ! i in
     (b_lock x = initsleeplock \<or> b_lock x = sheld (kpid s)) \<and>
     (b_refcnt x = 0 \<longrightarrow> b_lock x = initsleeplock \<and> (b_valid x \<longrightarrow> v_data (vio s) ! i = blk s (b_blockno x))) \<and>
     (b_dev x = 0 \<and> b_refcnt x = 0 \<and> \<not> b_valid x \<or> b_dev x = ROOTDEV \<and> ucast (b_blockno x) < v_nblocks (vio s)))"

definition cache_ok :: "'s bcache_kern_scheme \<Rightarrow> bool" where
  "cache_ok s \<longleftrightarrow> drv_ok s \<and> bcache_lock s = initlock \<and> (\<exists>os. lru (bufs s) os) \<and> length (v_data (vio s)) = Suc NBUF \<and>
     v_nblocks (vio s) \<le> 2 ^ 31 \<and> (\<forall>i < NBUF. buf_ok s i) \<and> (\<forall>i j n. names s i n \<longrightarrow> names s j n \<longrightarrow> i = j)"

lemma cache_okD:
  assumes "cache_ok s"
  shows "drv_ok s" and "bcache_lock s = initlock" and "\<exists>os. lru (bufs s) os" and "length (bufs s) = Suc NBUF"
    and "length (v_data (vio s)) = Suc NBUF" and "v_nblocks (vio s) \<le> 2 ^ 31" and "i < NBUF \<Longrightarrow> buf_ok s i"
    and "names s i n \<Longrightarrow> names s j n \<Longrightarrow> i = j" and "cpu_ok (kcpu s)"
  using assms by (auto simp: cache_ok_def lru_def drv_ok_def)

lemma ent_names:
  assumes one: "\<And>i j. names s i n \<Longrightarrow> names s j n \<Longrightarrow> i = j" and i: "names s i n"
  shows "ent s n = entry_of s i"
proof -
  from i have "i \<in> set [0..<NBUF]" by (simp add: names_def)
  with i obtain j where "List.find (\<lambda>i. names s i n) [0..<NBUF] = Some j"
    by (cases "List.find (\<lambda>i. names s i n) [0..<NBUF]") (auto simp only: find_None_iff)
  moreover from this have "names s j n" by (auto simp: find_Some_iff)
  ultimately show ?thesis using one i by (auto simp: ent_def)
qed

lemma ent_none: "(\<And>i. \<not> names s i n) \<Longrightarrow> ent s n = uncached s n"
proof -
  assume "\<And>i. \<not> names s i n"
  then have "List.find (\<lambda>i. names s i n) [0..<NBUF] = None" by (simp only: find_None_iff) blast
  then show ?thesis by (simp add: ent_def)
qed

lemma unreferenced:
  assumes "buf_ok s i" and "b_refcnt (bufs s ! i) = 0"
  shows "entry_of s i = uncached s (b_blockno (bufs s ! i))"
  using assms by (simp add: buf_ok_def entry_of_def uncached_def Let_def initsleeplock_def)

text \<open>
  The view after a change of one buffer, which now is for block \<open>n\<close>: either it has been for that
  block before, or it was not referenced and no buffer was for the block. The disk may change at
  block \<open>n\<close> only.
\<close>

lemma ent_update:
  assumes s: "cache_ok s" and i: "names t i n"
    and old: "names s i n \<or> b_refcnt (bufs s ! i) = 0 \<and> (\<forall>j. \<not> names s j n)"
    and same: "\<And>j. j < NBUF \<Longrightarrow> j \<noteq> i \<Longrightarrow> core (bufs t ! j) = core (bufs s ! j) \<and> v_data (vio t) ! j = v_data (vio s) ! j"
    and disk: "\<And>k. k \<noteq> n \<Longrightarrow> blk t k = blk s k"
  shows "ent t = (ent s)(n := entry_of t i)" and "names t j k \<Longrightarrow> names t j' k \<Longrightarrow> j = j'"
proof -
  have fields: "b_dev (bufs t ! j) = b_dev (bufs s ! j) \<and> b_blockno (bufs t ! j) = b_blockno (bufs s ! j) \<and>
      b_valid (bufs t ! j) = b_valid (bufs s ! j) \<and> b_refcnt (bufs t ! j) = b_refcnt (bufs s ! j) \<and> b_lock (bufs t ! j) = b_lock (bufs s ! j)"
    if "core (bufs t ! j) = core (bufs s ! j)" for j
    using that by (cases "bufs t ! j"; cases "bufs s ! j") (simp add: core_def)
  have nm: "names t j k \<longleftrightarrow> names s j k" if "j \<noteq> i" for j k
    using fields [of j] same [of j] that by (auto simp: names_def)
  have n_only: "names t j n \<longleftrightarrow> j = i" for j
    using nm [of j] i old cache_okD(8) [OF s] by blast
  have uniq: "j = j'" if "names t j k" "names t j' k" for j j' k
  proof (cases "k = n")
    case True
    then have "names t j n" "names t j' n" using that by auto
    then show ?thesis unfolding n_only by simp
  next
    case False
    then have "j \<noteq> i" "j' \<noteq> i" using that i by (auto simp: names_def)
    with that nm cache_okD(8) [OF s] show ?thesis by blast
  qed
  then show "names t j k \<Longrightarrow> names t j' k \<Longrightarrow> j = j'" .
  have "ent t k = ent s k" if k: "k \<noteq> n" for k
  proof (cases "\<exists>j. names t j k")
    case True
    then obtain j where j: "names t j k" ..
    then have "j \<noteq> i" using i k by (auto simp: names_def)
    with j have js: "names s j k" "j < NBUF" using nm by (auto simp: names_def)
    then have "entry_of t j = entry_of s j"
      using fields [of j] same [of j] \<open>j \<noteq> i\<close> disk [OF k] by (simp add: entry_of_def names_def Let_def)
    then show ?thesis
      using ent_names [of t k j] ent_names [of s k j] uniq j js(1) cache_okD(8) [OF s] by metis
  next
    case False
    then have t: "ent t k = uncached t k" using ent_none by blast
    have u: "uncached t k = uncached s k" using disk [OF k] by (simp add: uncached_def)
    show ?thesis
    proof (cases "names s i k")
      case True
      then have "i < NBUF" "b_refcnt (bufs s ! i) = 0" "b_blockno (bufs s ! i) = k" using old k by (auto simp: names_def)
      then have "entry_of s i = uncached s k" using unreferenced cache_okD(7) [OF s] by blast
      then show ?thesis using t u ent_names [OF _ True] cache_okD(8) [OF s] by metis
    next
      case no: False
      then have "\<not> names s j k" for j using False nm [of j k] by (cases "j = i") auto
      then show ?thesis using t u ent_none by metis
    qed
  qed
  moreover have "ent t n = entry_of t i" using ent_names [OF uniq i] .
  ultimately show "ent t = (ent s)(n := entry_of t i)" by (auto simp: fun_eq_iff)
qed


lemma lru_cong:
  assumes "lru bs os" and "length bs' = length bs" and "\<And>k. b_next (bs' ! k) = b_next (bs ! k) \<and> b_prev (bs' ! k) = b_prev (bs ! k)"
  shows "lru bs' os"
  using assms linked_cong [of "HEAD # os @ [HEAD]" bs' bs] by (simp add: lru_def)

lemma lru_update:
  assumes "lru bs os" and "b_next x = b_next (bs ! i)" and "b_prev x = b_prev (bs ! i)"
  shows "lru (bs[i := x]) os"
proof (cases "i < length bs")
  case True
  then show ?thesis using assms by (intro lru_cong [OF assms(1)]) (auto simp: nth_list_update)
qed (use assms in \<open>simp add: list_update_beyond\<close>)

lemma lru_kept:
  "\<exists>os. lru bs os \<Longrightarrow> b_next x = b_next (bs ! i) \<Longrightarrow> b_prev x = b_prev (bs ! i) \<Longrightarrow> \<exists>os. lru (bs[i := x]) os"
  using lru_update by blast

text \<open>What the cache may change.\<close>

definition only_cache :: "'s bcache_kern_scheme \<Rightarrow> 's bcache_kern_scheme \<Rightarrow> bool" where
  "only_cache s t \<longleftrightarrow> t = s\<lparr>vio := vio t, vregw := vregw t, disk_used := disk_used t, bufs := bufs t\<rparr>"

lemma only_cache_refl [simp]: "only_cache s s"
  by (simp add: only_cache_def)

lemma only_cacheI: "only_cache s (s\<lparr>vio := v, vregw := ws, disk_used := u, bufs := bs\<rparr>)"
  by (simp add: only_cache_def)

lemma only_cache_fields:
  assumes "only_cache s t"
  shows "kcpu t = kcpu s" "kpid t = kpid s" "bcache_lock t = bcache_lock s" "bcache_kern.more t = bcache_kern.more s"
  using assms [unfolded only_cache_def, THEN arg_cong, of kcpu] assms [unfolded only_cache_def, THEN arg_cong, of kpid]
    assms [unfolded only_cache_def, THEN arg_cong, of bcache_lock] assms [unfolded only_cache_def, THEN arg_cong, of bcache_kern.more]
  by simp_all

lemma cache_update:
  assumes s: "cache_ok s" and i: "names t i n"
    and old: "names s i n \<or> b_refcnt (bufs s ! i) = 0 \<and> (\<forall>j. \<not> names s j n)"
    and same: "\<And>j. j < NBUF \<Longrightarrow> j \<noteq> i \<Longrightarrow> core (bufs t ! j) = core (bufs s ! j) \<and> v_data (vio t) ! j = v_data (vio s) ! j"
    and disk: "\<And>k. k \<noteq> n \<Longrightarrow> blk t k = blk s k"
    and t: "drv_ok t" "bcache_lock t = initlock" "\<exists>os. lru (bufs t) os" "length (v_data (vio t)) = length (v_data (vio s))"
      "v_nblocks (vio t) = v_nblocks (vio s)" "kpid t = kpid s"
    and b: "buf_ok t i"
  shows "cache_ok t" and "ent t = (ent s)(n := entry_of t i)"
proof -
  note u = ent_update [OF s i old same disk]
  then show "ent t = (ent s)(n := entry_of t i)" by blast
  have "buf_ok t j" if j: "j < NBUF" for j
  proof (cases "j = i")
    case False
    have c: "core (bufs t ! j) = core (bufs s ! j)" "v_data (vio t) ! j = v_data (vio s) ! j" using same [OF j False] by blast+
    then have f: "b_dev (bufs t ! j) = b_dev (bufs s ! j)" "b_blockno (bufs t ! j) = b_blockno (bufs s ! j)"
        "b_valid (bufs t ! j) = b_valid (bufs s ! j)" "b_refcnt (bufs t ! j) = b_refcnt (bufs s ! j)" "b_lock (bufs t ! j) = b_lock (bufs s ! j)"
      by (cases "bufs t ! j"; cases "bufs s ! j"; simp add: core_def)+
    have "blk t (b_blockno (bufs s ! j)) = blk s (b_blockno (bufs s ! j))" if "b_dev (bufs s ! j) = ROOTDEV"
    proof (rule disk)
      show "b_blockno (bufs s ! j) \<noteq> n"
        using u(2) [of j n i] i that j f False by (auto simp: names_def)
    qed
    then show ?thesis using cache_okD(7) [OF s j] c(2) f t(5,6) by (auto simp: buf_ok_def Let_def)
  qed (use b in simp)
  then show "cache_ok t" using t u(2) cache_okD(5,6) [OF s] unfolding cache_ok_def by simp
qed


section \<open>Getting a buffer\<close>

lemma unlock_bufs_run:
  assumes "cpu_ok (kcpu s)" and "bcache_lock s = initlock"
  shows "unlock_bcache (s\<lparr>kcpu := push_off1 (kcpu s), bcache_lock := held (kcpu s), bufs := bs\<rparr>) = Inr ((), s\<lparr>bufs := bs\<rparr>)"
proof -
  have "unlock_bcache (s\<lparr>kcpu := push_off1 (kcpu s), bcache_lock := held (kcpu s), bufs := bs\<rparr>) =
      Inr ((), s\<lparr>bufs := bs, kcpu := kcpu s, bcache_lock := bcache_lock s\<rparr>)"
    using assms unlock_bcache_run [of "kcpu s" "s\<lparr>kcpu := push_off1 (kcpu s), bcache_lock := held (kcpu s), bufs := bs\<rparr>"] by simp
  then show ?thesis by simp
qed

lemma refcnt_update: "b_refcnt_update f x = x\<lparr>b_refcnt := f (b_refcnt x)\<rparr>"
  by (cases x) simp

lemma take_run:
  assumes "cpu_ok (kcpu s)" and "bcache_lock s = initlock" and "i < length (bufs s)" and "b_lock (f (bufs s ! i)) = initsleeplock"
  shows "mthen (upd_buf i f) (mthen unlock_bcache (mthen (acquiresleep (buf_lock i) (upd_buf_lock i)) (mret i)))
      (s\<lparr>kcpu := push_off1 (kcpu s), bcache_lock := held (kcpu s)\<rparr>) =
    Inr (i, s\<lparr>bufs := (bufs s)[i := (f (bufs s ! i))\<lparr>b_lock := sheld (kpid s)\<rparr>]\<rparr>)"
proof -
  let ?s = "s\<lparr>bufs := (bufs s)[i := f (bufs s ! i)]\<rparr>"
  have u: "unlock_bcache (s\<lparr>kcpu := push_off1 (kcpu s), bcache_lock := held (kcpu s), bufs := (bufs s)[i := f (bufs s ! i)]\<rparr>) = Inr ((), ?s)"
    using assms by (intro unlock_bufs_run)
  have "acquiresleep (buf_lock i) (upd_buf_lock i) ?s = Inr ((), upd_buf_lock i (\<lambda>_. sheld (kpid s)) ?s)"
    using assms by (subst buf_sleep.acquiresleep_run) (simp_all add: buf_lock_def)
  with assms(3) u show ?thesis by (simp add: run upd_buf_lock_def)
qed

lemma bget_run:
  assumes ok: "cache_ok s" and n: "\<not> e_held (ent s n)" and room: "(\<exists>i. names s i n) \<or> (\<exists>i < NBUF. b_refcnt (bufs s ! i) = 0)"
  obtains i where "names s i n" "b_lock (bufs s ! i) = initsleeplock"
    "bget ROOTDEV n s = Inr (i, s\<lparr>bufs := (bufs s)[i := (bufs s ! i)\<lparr>b_refcnt := b_refcnt (bufs s ! i) + 1, b_lock := sheld (kpid s)\<rparr>]\<rparr>)"
  | i where "i < NBUF" "b_refcnt (bufs s ! i) = 0" "\<forall>j. \<not> names s j n"
    "bget ROOTDEV n s = Inr (i, s\<lparr>bufs := (bufs s)[i := (bufs s ! i)\<lparr>b_dev := ROOTDEV, b_blockno := n, b_valid := False, b_refcnt := 1,
       b_lock := sheld (kpid s)\<rparr>]\<rparr>)"
proof -
  let ?s = "s\<lparr>kcpu := push_off1 (kcpu s), bcache_lock := held (kcpu s)\<rparr>"
  obtain os where os: "lru (bufs s) os" using cache_okD(3) [OF ok] by blast
  then have l: "length (bufs s) = Suc NBUF" "distinct os" "set os = {..<NBUF}" "linked (bufs s) (HEAD # os @ [HEAD])"
    by (simp_all add: lru_def)
  have len: "length os < Suc NBUF" using distinct_card [OF l(2)] l(3) by simp
  have h: "b_next (bufs s ! HEAD) = hd (os @ [HEAD])" "linked (bufs s) (os @ [HEAD])" using l(4) by (cases os; simp)+
  have p: "b_prev (bufs s ! HEAD) = last (HEAD # os)" "linked (bufs s) (HEAD # os)"
    using l(4) linked_snoc [of "HEAD # os" "bufs s" HEAD] by simp_all
  let ?P = "\<lambda>x. b_dev x = ROOTDEV \<and> b_blockno x = n"
  have sn: "scan b_next (Suc NBUF) ?P (b_next (bufs s ! HEAD)) ?s = Inr (find (\<lambda>i. ?P (bufs s ! i)) os, ?s)"
    using scan_next_run [of ?s os "Suc NBUF" ?P] h l len by simp
  have sp: "scan b_prev (Suc NBUF) (\<lambda>x. b_refcnt x = 0) (b_prev (bufs s ! HEAD)) ?s = Inr (find (\<lambda>i. b_refcnt (bufs s ! i) = 0) (rev os), ?s)"
    using scan_prev_run [of ?s os "Suc NBUF" "\<lambda>x. b_refcnt x = 0"] p l len by simp
  note take = take_run [OF cache_okD(9) [OF ok] cache_okD(2) [OF ok]]
  note lk = lock_bcache_run [OF cache_okD(2) [OF ok]]
  show thesis
  proof (cases "find (\<lambda>i. ?P (bufs s ! i)) os")
    case (Some i)
    then have "i \<in> set os" "?P (bufs s ! i)" by (auto simp: find_Some_iff)
    then have i: "names s i n" "i < NBUF" using l(3) by (auto simp: names_def)
    then have "ent s n = entry_of s i" using ent_names cache_okD(8) [OF ok] by metis
    then have "\<not> slocked (b_lock (bufs s ! i))" using n by (simp add: entry_of_def Let_def)
    then have lk2: "b_lock (bufs s ! i) = initsleeplock"
      using cache_okD(7) [OF ok i(2)] by (auto simp: buf_ok_def Let_def sheld_def)
    have "bget ROOTDEV n s = Inr (i, s\<lparr>bufs := (bufs s)[i := (bufs s ! i)\<lparr>b_refcnt := b_refcnt (bufs s ! i) + 1, b_lock := sheld (kpid s)\<rparr>]\<rparr>)"
      using lk sn Some l(1) i(2) lk2 take [of i "b_refcnt_update (\<lambda>r. r + 1)"]
      unfolding bget_def by (simp add: run refcnt_update [of "\<lambda>r. r + 1"] del: scan.simps)
    with i(1) lk2 show thesis by (rule that(1))
  next
    case None
    then have none: "\<forall>j. \<not> names s j n" using l(3) by (auto simp: find_None_iff names_def)
    with room obtain i where i: "find (\<lambda>i. b_refcnt (bufs s ! i) = 0) (rev os) = Some i"
      using l(3) by (cases "find (\<lambda>i. b_refcnt (bufs s ! i) = 0) (rev os)") (auto simp: find_None_iff)
    then have i2: "i \<in> set os" "b_refcnt (bufs s ! i) = 0" by (auto simp: find_Some_iff) (metis nth_mem length_rev set_rev)
    then have i3: "i < NBUF" using l(3) by auto
    have lk2: "b_lock (bufs s ! i) = initsleeplock"
      using cache_okD(7) [OF ok i3] i2(2) by (auto simp: buf_ok_def Let_def)
    have "bget ROOTDEV n s = Inr (i, s\<lparr>bufs := (bufs s)[i := (bufs s ! i)\<lparr>b_dev := ROOTDEV, b_blockno := n, b_valid := False, b_refcnt := 1,
       b_lock := sheld (kpid s)\<rparr>]\<rparr>)"
      using lk sn sp None i l(1) i3 lk2 take [of i "\<lambda>x. x\<lparr>b_dev := ROOTDEV, b_blockno := n, b_valid := False, b_refcnt := 1\<rparr>"]
      unfolding bget_def by (simp add: run del: scan.simps)
    with i3 i2(2) none show thesis by (rule that(2))
  qed
qed


section \<open>Steps\<close>

text \<open>A buffer that the process holds, for block \<open>n\<close>.\<close>

definition handle :: "'s bcache_kern_scheme \<Rightarrow> nat \<Rightarrow> u32 \<Rightarrow> bool" where
  "handle s b n \<longleftrightarrow> names s b n \<and> b_valid (bufs s ! b) \<and> b_lock (bufs s ! b) = sheld (kpid s)"

text \<open>A step of the cache gives block \<open>n\<close> the entry \<open>e\<close> and keeps what the process holds.\<close>

definition cstep :: "u32 \<Rightarrow> entry \<Rightarrow> 's bcache_kern_scheme \<Rightarrow> 's bcache_kern_scheme \<Rightarrow> bool" where
  "cstep n e s t \<longleftrightarrow> cache_ok t \<and> only_cache s t \<and> v_nblocks (vio t) = v_nblocks (vio s) \<and> ent t = (ent s)(n := e) \<and>
     (\<forall>j k. k \<noteq> n \<longrightarrow> handle s j k \<longrightarrow> handle t j k)"

lemma lock_neq [simp]: "sheld p \<noteq> initsleeplock" "initsleeplock \<noteq> sheld p"
  by (simp_all add: sheld_def initsleeplock_def)

lemma core_fields:
  assumes "core x = core y"
  shows "b_dev x = b_dev y" "b_blockno x = b_blockno y" "b_valid x = b_valid y" "b_refcnt x = b_refcnt y" "b_lock x = b_lock y"
  using assms by (cases x; cases y; simp add: core_def)+

lemma cstepI:
  assumes s: "cache_ok s" and t: "only_cache s t" "drv_ok t" "\<exists>os. lru (bufs t) os" "length (v_data (vio t)) = length (v_data (vio s))"
      "v_nblocks (vio t) = v_nblocks (vio s)"
    and i: "names t i n" "buf_ok t i" and old: "names s i n \<or> b_refcnt (bufs s ! i) = 0 \<and> (\<forall>j. \<not> names s j n)"
    and same: "\<And>j. j < NBUF \<Longrightarrow> j \<noteq> i \<Longrightarrow> core (bufs t ! j) = core (bufs s ! j) \<and> v_data (vio t) ! j = v_data (vio s) ! j"
    and disk: "\<And>k. k \<noteq> n \<Longrightarrow> blk t k = blk s k"
  shows "cstep n (entry_of t i) s t"
proof -
  note f = only_cache_fields [OF t(1)]
  have b: "bcache_lock t = initlock" using f(3) cache_okD(2) [OF s] by simp
  note c = cache_update [OF s i(1) old same disk t(2) b t(3,4,5) f(2) i(2)]
  have "handle t j k" if k: "k \<noteq> n" and h: "handle s j k" for j k
  proof -
    have j: "j < NBUF" using h by (simp add: handle_def names_def)
    have "j \<noteq> i"
      using old h k cache_okD(7) [OF s j] by (auto simp: handle_def names_def buf_ok_def Let_def)
    then show ?thesis
      using same [OF j] core_fields [of "bufs t ! j" "bufs s ! j"] f(2) h by (simp add: handle_def names_def)
  qed
  with c t(1,5) show ?thesis by (simp add: cstep_def)
qed

definition room :: "'s bcache_kern_scheme \<Rightarrow> u32 \<Rightarrow> bool" where
  "room s n \<longleftrightarrow> e_refs (ent s n) \<noteq> 0 \<or> card {k. e_refs (ent s k) \<noteq> 0} < NBUF"

lemma room_buffer:
  assumes s: "cache_ok s" and "room s n"
  shows "(\<exists>i. names s i n) \<or> (\<exists>i < NBUF. b_refcnt (bufs s ! i) = 0)"
proof (rule ccontr)
  assume no: "\<not> ?thesis"
  then have "e_refs (ent s n) = 0" using ent_none [of s n] by (simp add: uncached_def)
  with assms(2) have c: "card {k. e_refs (ent s k) \<noteq> 0} < NBUF" by (simp add: room_def)
  let ?f = "\<lambda>i. b_blockno (bufs s ! i)"
  have nm: "names s i (?f i)" if "i < NBUF" for i
    using cache_okD(7) [OF s that] no that by (auto simp: names_def buf_ok_def Let_def)
  have "inj_on ?f {..<NBUF}"
    using nm cache_okD(8) [OF s] by (intro inj_onI) (metis lessThan_iff)
  moreover have sub: "?f ` {..<NBUF} \<subseteq> {k. e_refs (ent s k) \<noteq> 0}"
  proof clarsimp
    fix i assume i: "i < NBUF" and "e_refs (ent s (?f i)) = 0"
    then have "b_refcnt (bufs s ! i) = 0" using ent_names [OF cache_okD(8) [OF s] nm [OF i]] by (simp add: entry_of_def Let_def)
    with no i show False by blast
  qed
  ultimately have "NBUF \<le> card {k. e_refs (ent s k) \<noteq> 0}"
    using card_mono [OF _ sub] card_image [of ?f "{..<NBUF}"] by simp
  with c show False by simp
qed

text \<open>A disk of at most $2^{31}$ blocks: the number of a sector does not overflow.\<close>

lemma block_of_id:
  assumes "(ucast n :: u64) < m" and "m \<le> 2 ^ 31"
  shows "block_of n = ucast n"
proof -
  have u: "unat (ucast n :: u64) = unat n" by (simp add: unat_ucast_up)
  then have "unat n < 2 ^ 31" using assms by (simp add: word_less_nat_alt word_le_nat_alt)
  then have "unat (n * 2) = unat n * 2" by (simp add: unat_word_ariths)
  moreover have "unat (ucast (n * 2) :: u64) = unat (n * 2)" by (simp add: unat_ucast_up)
  ultimately have "unat (block_of n) = unat (ucast n :: u64)" by (simp only: block_of_def unat_div u) simp
  then show ?thesis by (simp only: word_unat_eq_iff)
qed

lemma ucast32_inj: "(ucast (n :: u32) :: u64) = ucast k \<longleftrightarrow> n = k"
  by (simp add: word_unat_eq_iff [where 'a = 64] unat_ucast_up) (simp add: word_unat_eq_iff)

section \<open>Operations\<close>

lemma bread_wp:
  assumes ok: "cache_ok s" and n: "ucast n < v_nblocks (vio s)" and free: "\<not> e_held (ent s n)" and max: "e_refs (ent s n) \<noteq> -1" and room: "room s n"
  shows "wp (bread ROOTDEV n) (\<lambda>b t. cstep n ((ent s n)\<lparr>e_refs := e_refs (ent s n) + 1, e_held := True\<rparr>) s t \<and>
    handle t b n \<and> blk t = blk s \<and> v_hist (vio t) = v_hist (vio s)) s"
proof -
  obtain i x where g: "bget ROOTDEV n s = Inr (i, s\<lparr>bufs := (bufs s)[i := x]\<rparr>)" and i: "i < NBUF"
    and old: "names s i n \<or> b_refcnt (bufs s ! i) = 0 \<and> (\<forall>j. \<not> names s j n)"
    and x: "b_dev x = ROOTDEV" "b_blockno x = n" "b_lock x = sheld (kpid s)" "b_refcnt x = e_refs (ent s n) + 1"
      "b_next x = b_next (bufs s ! i)" "b_prev x = b_prev (bufs s ! i)" "b_valid x \<Longrightarrow> v_data (vio s) ! i = e_data (ent s n)"
      "\<not> b_valid x \<Longrightarrow> blk s n = e_data (ent s n)"
  proof (rule bget_run [OF ok free room_buffer [OF ok room]])
    fix i assume i: "names s i n"
      and g: "bget ROOTDEV n s = Inr (i, s\<lparr>bufs := (bufs s)[i := (bufs s ! i)\<lparr>b_refcnt := b_refcnt (bufs s ! i) + 1, b_lock := sheld (kpid s)\<rparr>]\<rparr>)"
    then have "ent s n = entry_of s i" using ent_names cache_okD(8) [OF ok] by metis
    with i show thesis by (intro that [OF g]) (auto simp: names_def entry_of_def Let_def)
  next
    fix i assume i: "i < NBUF" "b_refcnt (bufs s ! i) = 0" "\<forall>j. \<not> names s j n"
      and g: "bget ROOTDEV n s = Inr (i, s\<lparr>bufs := (bufs s)[i := (bufs s ! i)\<lparr>b_dev := ROOTDEV, b_blockno := n, b_valid := False, b_refcnt := 1,
       b_lock := sheld (kpid s)\<rparr>]\<rparr>)"
    then have "ent s n = uncached s n" using ent_none by blast
    with i show thesis by (intro that [OF g]) (auto simp: uncached_def)
  qed
  note ok1 = cache_okD(1-6) [OF ok]
  obtain os where os: "lru (bufs s) os" using ok1(3) by blast
  have r: "e_refs (ent s n) + 1 \<noteq> 0" using max by (metis add.commute add_eq_0_iff2 minus_minus)
  have fin: "cstep n ((ent s n)\<lparr>e_refs := e_refs (ent s n) + 1, e_held := True\<rparr>) s t \<and> handle t i n"
    if t: "only_cache s t" "drv_ok t" "v_nblocks (vio t) = v_nblocks (vio s)" "blk t = blk s" "v_data (vio t) = (v_data (vio s))[i := e_data (ent s n)]"
      "bufs t = (bufs s)[i := x\<lparr>b_disk := d, b_valid := True\<rparr>]" for t d
  proof -
    have k: "kpid t = kpid s" using only_cache_fields(2) [OF t(1)] .
    have b: "bufs t ! i = x\<lparr>b_disk := d, b_valid := True\<rparr>" "v_data (vio t) ! i = e_data (ent s n)" using t(5,6) i ok1(4,5) by simp_all
    have l: "\<exists>os. lru (bufs t) os" unfolding t(6) using lru_update [OF os, of "x\<lparr>b_disk := d, b_valid := True\<rparr>"] x by auto
    have nm: "names t i n" using b i x by (simp add: names_def)
    have bo: "buf_ok t i" using b x n r k t(3) by (simp add: buf_ok_def Let_def)
    have "cstep n (entry_of t i) s t"
      using l nm bo old t(2,3,4) by (intro cstepI [OF ok t(1)]) (simp_all add: t(5,6))
    moreover have "entry_of t i = (ent s n)\<lparr>e_refs := e_refs (ent s n) + 1, e_held := True\<rparr>"
      using b x by (simp add: entry_of_def Let_def sheld_def)
    ultimately show ?thesis using nm b k x(3) by (simp add: handle_def)
  qed
  show ?thesis
  proof (cases "b_valid x")
    case True
    then have e: "(v_data (vio s))[i := e_data (ent s n)] = v_data (vio s)" using x(7) list_update_id by metis
    let ?t = "s\<lparr>bufs := (bufs s)[i := x]\<rparr>"
    have xx: "x\<lparr>b_disk := b_disk x, b_valid := True\<rparr> = x" using True by (cases x) simp
    have "cstep n ((ent s n)\<lparr>e_refs := e_refs (ent s n) + 1, e_held := True\<rparr>) s ?t \<and> handle ?t i n"
      using ok1(1) e by (intro fin [of ?t "b_disk x", unfolded xx]) (simp_all add: drv_ok_def only_cache_def blk_def fun_eq_iff)
    with True g i ok1(4) show ?thesis by (simp add: wp_def bread_def run blk_def fun_eq_iff)
  next
    case False
    let ?s = "s\<lparr>bufs := (bufs s)[i := x]\<rparr>"
    have "drv_ok ?s" using ok1(1) by (simp add: drv_ok_def)
    moreover have bo: "block_of n = ucast n" using n ok1(6) by (rule block_of_id)
    ultimately obtain v ws u where
      w: "virtio_disk_rw i False ?s = Inr ((), ?s\<lparr>vio := v, vregw := ws, disk_used := u, bufs := (bufs ?s)[i := (bufs ?s ! i)\<lparr>b_disk := False\<rparr>]\<rparr>)"
        "blk_moved i False (block_of (b_blockno (bufs ?s ! i))) (vio ?s) v"
        "drv_ok (?s\<lparr>vio := v, vregw := ws, disk_used := u, bufs := (bufs ?s)[i := (bufs ?s ! i)\<lparr>b_disk := False\<rparr>]\<rparr>)"
      using i ok1(4,5) n x(2) by (elim virtio_disk_rw_run [of ?s i False]) simp_all
    let ?t = "s\<lparr>vio := v, vregw := ws, disk_used := u, bufs := (bufs s)[i := x\<lparr>b_disk := False, b_valid := True\<rparr>]\<rparr>"
    have m: "v_data v = (v_data (vio s))[i := e_data (ent s n)]" "v_blocks v = v_blocks (vio s)" "v_hist v = v_hist (vio s)" "v_nblocks v = v_nblocks (vio s)"
      using w(2) x(2) x(8) [OF False] i ok1(4) bo by (simp_all add: blk_moved_def blk_def)
    have "drv_ok ?t" using w(3) by (simp add: drv_ok_def)
    with m have "cstep n ((ent s n)\<lparr>e_refs := e_refs (ent s n) + 1, e_held := True\<rparr>) s ?t \<and> handle ?t i n"
      by (intro fin [of _ False]) (simp_all add: only_cacheI blk_def fun_eq_iff)
    moreover have "bread ROOTDEV n s = Inr (i, ?t)"
      using g w(1) i ok1(4) False by (simp add: bread_def run)
    ultimately show ?thesis using m by (simp add: wp_def blk_def fun_eq_iff)
  qed
qed


text \<open>The operations on a buffer that the process holds.\<close>

lemma handleD:
  assumes "cache_ok s" and "handle s b n"
  shows "names s b n" "b < NBUF" "b < length (bufs s)" "b < length (v_data (vio s))" "b_lock (bufs s ! b) = sheld (kpid s)"
    "ent s n = \<lparr>e_data = v_data (vio s) ! b, e_refs = b_refcnt (bufs s ! b), e_held = True\<rparr>" "b_blockno (bufs s ! b) = n"
    "ucast n < v_nblocks (vio s)" "e_refs (ent s n) \<noteq> 0" "b_valid (bufs s ! b)" "b_dev (bufs s ! b) = ROOTDEV"
proof -
  show nm: "names s b n" and b: "b < NBUF" and l: "b_lock (bufs s ! b) = sheld (kpid s)" "b_blockno (bufs s ! b) = n"
    and v: "b_valid (bufs s ! b)" "b_dev (bufs s ! b) = ROOTDEV"
    using assms(2) by (simp_all add: handle_def names_def)
  show "b < length (bufs s)" "b < length (v_data (vio s))" using b cache_okD(4,5) [OF assms(1)] by simp_all
  have "ent s n = entry_of s b" using ent_names [OF cache_okD(8) [OF assms(1)] nm] .
  then show e: "ent s n = \<lparr>e_data = v_data (vio s) ! b, e_refs = b_refcnt (bufs s ! b), e_held = True\<rparr>"
    using v l by (simp add: entry_of_def Let_def sheld_def)
  show "ucast n < v_nblocks (vio s)" "e_refs (ent s n) \<noteq> 0"
    using cache_okD(7) [OF assms(1) b] l v e by (auto simp: buf_ok_def Let_def)
qed

text \<open>A change of the buffer \<open>b\<close> and its data that keeps the list.\<close>

lemma handle_step:
  assumes ok: "cache_ok s" and h: "handle s b n" and t: "only_cache s t" "drv_ok t" "v_nblocks (vio t) = v_nblocks (vio s)"
      "v_data (vio t) = (v_data (vio s))[b := d]" "\<exists>os. lru (bufs t) os"
    and x: "core (bufs t ! b) = core x" "b_dev x = ROOTDEV" "b_blockno x = n" "b_valid x"
      "b_lock x = (if h' then sheld (kpid s) else initsleeplock)" "b_refcnt x = r" "r = 0 \<Longrightarrow> \<not> h' \<and> d = blk t n"
    and same: "\<And>j. j \<noteq> b \<Longrightarrow> core (bufs t ! j) = core (bufs s ! j)" and disk: "\<And>k. k \<noteq> n \<Longrightarrow> blk t k = blk s k"
  shows "cstep n \<lparr>e_data = d, e_refs = r, e_held = h'\<rparr> s t \<and> (h' \<longrightarrow> handle t b n)"
proof -
  note H = handleD [OF ok h]
  have k: "kpid t = kpid s" using only_cache_fields(2) [OF t(1)] .
  note c = core_fields [OF x(1)]
  have d: "v_data (vio t) ! b = d" using t(4) H(4) by simp
  have nm: "names t b n" using H(2) x c by (simp add: names_def)
  have "buf_ok t b" using x c k d H(8) t(3) by (auto simp: buf_ok_def Let_def)
  then have "cstep n (entry_of t b) s t"
    using t nm H(1) same disk by (intro cstepI [OF ok t(1,2,5)]) simp_all
  moreover have "entry_of t b = \<lparr>e_data = d, e_refs = r, e_held = h'\<rparr>"
    using c x d by (simp add: entry_of_def Let_def sheld_def initsleeplock_def)
  ultimately show ?thesis using nm c x k by (simp add: handle_def)
qed

lemma bwrite_wp:
  assumes ok: "cache_ok s" and h: "handle s b n"
  shows "wp (bwrite b) (\<lambda>_ t. cstep n (ent s n) s t \<and> handle t b n \<and> blk t = (blk s)(n := e_data (ent s n)) \<and>
    v_hist (vio t) = (ucast n, e_data (ent s n)) # v_hist (vio s)) s"
proof -
  note H = handleD [OF ok h] and ok1 = cache_okD(1-6,9) [OF ok]
  have bo: "block_of n = ucast n" using H(8) ok1(6) by (rule block_of_id)
  have "block_of (b_blockno (bufs s ! b)) < v_nblocks (vio s)" using H bo by simp
  from virtio_disk_rw_run [where w = True, OF ok1(1) H(3,4) this] obtain v ws u where
    w: "virtio_disk_rw b True s = Inr ((), s\<lparr>vio := v, vregw := ws, disk_used := u, bufs := (bufs s)[b := (bufs s ! b)\<lparr>b_disk := False\<rparr>]\<rparr>)"
      "blk_moved b True (block_of (b_blockno (bufs s ! b))) (vio s) v"
      "drv_ok (s\<lparr>vio := v, vregw := ws, disk_used := u, bufs := (bufs s)[b := (bufs s ! b)\<lparr>b_disk := False\<rparr>]\<rparr>)"
    .
  let ?t = "s\<lparr>vio := v, vregw := ws, disk_used := u, bufs := (bufs s)[b := (bufs s ! b)\<lparr>b_disk := False\<rparr>]\<rparr>"
  have m: "v_data v = v_data (vio s)" "v_blocks v = (v_blocks (vio s))(ucast n := e_data (ent s n))"
      "v_hist v = (ucast n, e_data (ent s n)) # v_hist (vio s)" "v_nblocks v = v_nblocks (vio s)"
    using w(2) H bo by (simp_all add: blk_moved_def)
  have b: "blk ?t = (blk s)(n := e_data (ent s n))"
    using m by (auto simp: blk_def fun_eq_iff ucast32_inj)
  have "cstep n \<lparr>e_data = v_data (vio s) ! b, e_refs = b_refcnt (bufs s ! b), e_held = True\<rparr> s ?t \<and> (True \<longrightarrow> handle ?t b n)"
    using H m b w(3) lru_kept [OF ok1(3)] by (intro handle_step [OF ok h only_cacheI, where x = "(bufs s ! b)\<lparr>b_disk := False\<rparr>"]) auto
  moreover have "holdingsleep (buf_lock b) (upd_buf_lock b) s = Inr (True, s)"
    using H(3,5) ok1(7) by (subst buf_sleep.holdingsleep_run) (simp_all add: buf_lock_def sheld_def)
  ultimately show ?thesis
    using w(1) b m H(6) by (simp add: wp_def bwrite_def run)
qed


text \<open>The contents of a buffer.\<close>

definition bdata :: "nat \<Rightarrow> ('s, u8 list) bcomp" where
  "bdata b = mbind (mget (\<lambda>s. v_data (vio s))) (\<lambda>ds. mnth ds b)"

definition set_bdata :: "nat \<Rightarrow> u8 list \<Rightarrow> ('s, unit) bcomp" where
  "set_bdata b xs = mthen (bdata b) (mmod (vio_update (v_data_update (\<lambda>ds. ds[b := xs]))))"

lemma bdata_run: "cache_ok s \<Longrightarrow> handle s b n \<Longrightarrow> bdata b s = Inr (e_data (ent s n), s)"
  using handleD [of s b n] by (simp add: bdata_def run)

lemma set_bdata_wp:
  assumes ok: "cache_ok s" and h: "handle s b n"
  shows "wp (set_bdata b xs) (\<lambda>_ t. cstep n ((ent s n)\<lparr>e_data := xs\<rparr>) s t \<and> handle t b n \<and> blk t = blk s \<and> v_hist (vio t) = v_hist (vio s)) s"
proof -
  note H = handleD [OF ok h] and ok1 = cache_okD(1-6,9) [OF ok]
  let ?t = "s\<lparr>vio := vio s\<lparr>v_data := (v_data (vio s))[b := xs]\<rparr>\<rparr>"
  have "only_cache s ?t" by (simp add: only_cache_def)
  moreover have "drv_ok ?t" using ok1(1) by (simp add: drv_ok_def rings_ok_def)
  ultimately have "cstep n \<lparr>e_data = xs, e_refs = b_refcnt (bufs s ! b), e_held = True\<rparr> s ?t \<and> (True \<longrightarrow> handle ?t b n)"
    using H ok1(3) by (intro handle_step [OF ok h, where x = "bufs s ! b"]) (auto simp: blk_def)
  moreover have "set_bdata b xs s = Inr ((), ?t)"
    using H(4) by (simp add: set_bdata_def bdata_def run)
  ultimately show ?thesis
    using H(6) by (simp add: wp_def blk_def fun_eq_iff)
qed

lemma count_run:
  assumes "cpu_ok (kcpu s)" and "bcache_lock s = initlock" and "b < length (bufs s)"
  shows "mthen lock_bcache (mthen (upd_buf b (b_refcnt_update f)) unlock_bcache) s =
    Inr ((), s\<lparr>bufs := (bufs s)[b := (bufs s ! b)\<lparr>b_refcnt := f (b_refcnt (bufs s ! b))\<rparr>]\<rparr>)"
  using assms unlock_bufs_run [OF assms(1,2)] lock_bcache_run [OF assms(2)] by (simp add: run refcnt_update [of f])

lemma count_step:
  assumes ok: "cache_ok s" and h: "handle s b n" and r: "r \<noteq> 0"
  defines "t \<equiv> s\<lparr>bufs := (bufs s)[b := (bufs s ! b)\<lparr>b_refcnt := r\<rparr>]\<rparr>"
  shows "cstep n ((ent s n)\<lparr>e_refs := r\<rparr>) s t \<and> handle t b n \<and> blk t = blk s \<and> v_hist (vio t) = v_hist (vio s)"
proof -
  note H = handleD [OF ok h] and ok1 = cache_okD(1-6,9) [OF ok]
  have "cstep n \<lparr>e_data = v_data (vio s) ! b, e_refs = r, e_held = True\<rparr> s t \<and> (True \<longrightarrow> handle t b n)"
    using H ok1(1,3) r lru_kept [OF ok1(3)]
    by (intro handle_step [OF ok h, where x = "(bufs s ! b)\<lparr>b_refcnt := r\<rparr>"]) (auto simp: t_def blk_def drv_ok_def only_cache_def)
  then show ?thesis using H(6) by (simp add: t_def blk_def fun_eq_iff)
qed

lemma bpin_wp:
  assumes ok: "cache_ok s" and h: "handle s b n" and r: "e_refs (ent s n) \<noteq> -1"
  shows "wp (bpin b) (\<lambda>_ t. cstep n ((ent s n)\<lparr>e_refs := e_refs (ent s n) + 1\<rparr>) s t \<and> handle t b n \<and> blk t = blk s \<and>
    v_hist (vio t) = v_hist (vio s)) s"
proof -
  note H = handleD [OF ok h]
  have "b_refcnt (bufs s ! b) + 1 \<noteq> 0" using r H(6) by (metis add.commute add_eq_0_iff2 minus_minus entry.simps(2))
  from count_step [OF ok h this] count_run [OF cache_okD(9) [OF ok] cache_okD(2) [OF ok] H(3)] H(6) show ?thesis
    by (simp add: wp_def bpin_def)
qed

lemma bunpin_wp:
  assumes ok: "cache_ok s" and h: "handle s b n" and r: "e_refs (ent s n) \<noteq> 1"
  shows "wp (bunpin b) (\<lambda>_ t. cstep n ((ent s n)\<lparr>e_refs := e_refs (ent s n) - 1\<rparr>) s t \<and> handle t b n \<and> blk t = blk s \<and>
    v_hist (vio t) = v_hist (vio s)) s"
proof -
  note H = handleD [OF ok h]
  have "b_refcnt (bufs s ! b) - 1 \<noteq> 0" using r H(6) by simp
  from count_step [OF ok h this] count_run [OF cache_okD(9) [OF ok] cache_okD(2) [OF ok] H(3)] H(6) show ?thesis
    by (simp add: wp_def bunpin_def)
qed


lemma brelse_run:
  assumes ok: "cache_ok s" and h: "handle s b n"
  defines "x \<equiv> (bufs s ! b)\<lparr>b_lock := initsleeplock, b_refcnt := b_refcnt (bufs s ! b) - 1\<rparr>"
  shows "\<exists>bs. brelse b s = Inr ((), s\<lparr>bufs := bs\<rparr>) \<and> (\<exists>os. lru bs os) \<and> (\<forall>j. core (bs ! j) = core ((bufs s)[b := x] ! j))"
proof -
  note H = handleD [OF ok h] and ok1 = cache_okD(1-6,9) [OF ok]
  let ?bs = "(bufs s)[b := x]" and ?c = "kcpu s"
  have hold: "holdingsleep (buf_lock b) (upd_buf_lock b) s = Inr (True, s)"
    using H(3,5) ok1(7) by (subst buf_sleep.holdingsleep_run) (simp_all add: buf_lock_def sheld_def)
  let ?s = "s\<lparr>bufs := (bufs s)[b := (bufs s ! b)\<lparr>b_lock := initsleeplock\<rparr>]\<rparr>"
  have rel: "releasesleep (buf_lock b) (upd_buf_lock b) s = Inr ((), ?s)"
    using H(3,5) ok1(7) by (subst buf_sleep.releasesleep_run [of b s "kpid s"]) (simp_all add: buf_lock_def upd_buf_lock_def)
  have lock: "lock_bcache ?s = Inr ((), ?s\<lparr>kcpu := push_off1 ?c, bcache_lock := held ?c\<rparr>)"
    using ok1(2) by (subst lock_bcache_run) simp_all
  let ?s2 = "s\<lparr>kcpu := push_off1 ?c, bcache_lock := held ?c, bufs := ?bs\<rparr>"
  have cnt: "upd_buf b (b_refcnt_update (\<lambda>r. r - 1)) (?s\<lparr>kcpu := push_off1 ?c, bcache_lock := held ?c\<rparr>) = Inr ((), ?s2)"
    using H(3) by (simp add: run x_def refcnt_update [of "\<lambda>r. r - 1"])
  have l: "\<exists>os. lru ?bs os" using lru_kept [OF ok1(3)] by (simp add: x_def)
  then obtain os where os: "lru ?bs os" ..
  have at: "buf_at b ?s2 = Inr (x, ?s2)" using H(3) by (simp add: run)
  define bs where "bs = (if b_refcnt x = 0 then fronted ?bs b else ?bs)"
  have mv: "(if b_refcnt x = 0 then move_front b else mret ()) ?s2 = Inr ((), s\<lparr>kcpu := push_off1 ?c, bcache_lock := held ?c, bufs := bs\<rparr>)"
    using move_front_run(1) [of ?s2 os b] os H(2) by (simp add: bs_def run)
  have un: "unlock_bcache (s\<lparr>kcpu := push_off1 ?c, bcache_lock := held ?c, bufs := bs\<rparr>) = Inr ((), s\<lparr>bufs := bs\<rparr>)"
    using ok1(2,7) by (intro unlock_bufs_run)
  have "brelse b s = Inr ((), s\<lparr>bufs := bs\<rparr>)"
    unfolding brelse_def using hold rel lock cnt at mv un by (simp add: mbind_def)
  moreover have "\<exists>os. lru bs os" using move_front_run(2) [of ?s2 os b] os H(2) by (auto simp: bs_def)
  moreover have "\<forall>j. core (bs ! j) = core (?bs ! j)" by (simp add: bs_def fronted_core)
  ultimately show ?thesis by blast
qed

lemma brelse_wp:
  assumes ok: "cache_ok s" and h: "handle s b n" and r: "e_refs (ent s n) = 1 \<Longrightarrow> e_data (ent s n) = blk s n"
  shows "wp (brelse b) (\<lambda>_ t. cstep n ((ent s n)\<lparr>e_refs := e_refs (ent s n) - 1, e_held := False\<rparr>) s t \<and> blk t = blk s \<and>
    v_hist (vio t) = v_hist (vio s)) s"
proof -
  note H = handleD [OF ok h] and ok1 = cache_okD(1-6,9) [OF ok]
  define x where "x = (bufs s ! b)\<lparr>b_lock := initsleeplock, b_refcnt := b_refcnt (bufs s ! b) - 1\<rparr>"
  obtain bs where bs: "brelse b s = Inr ((), s\<lparr>bufs := bs\<rparr>)" "\<exists>os. lru bs os" "\<forall>j. core (bs ! j) = core ((bufs s)[b := x] ! j)"
    using brelse_run [OF ok h, folded x_def] by blast
  let ?t = "s\<lparr>bufs := bs\<rparr>"
  have c: "core (bs ! b) = core x" "\<And>j. j \<noteq> b \<Longrightarrow> core (bs ! j) = core (bufs s ! j)"
    using bs(3) H(3) by simp_all
  have "cstep n \<lparr>e_data = v_data (vio s) ! b, e_refs = b_refcnt (bufs s ! b) - 1, e_held = False\<rparr> s ?t \<and> (False \<longrightarrow> handle ?t b n)"
    using H ok1(1) bs(2) c r
    by (intro handle_step [OF ok h, where x = x]) (auto simp: x_def blk_def drv_ok_def only_cache_def)
  then show ?thesis
    using bs(1) H(6) by (simp add: wp_def blk_def fun_eq_iff)
qed


section \<open>Initialisation\<close>

definition inserted :: "buf list \<Rightarrow> nat \<Rightarrow> buf list" where
  "inserted bs b =
     (let n = b_next (bs ! HEAD); bs = bs[b := (bs ! b)\<lparr>b_next := n, b_prev := HEAD, b_lock := initsleeplock\<rparr>];
          bs = bs[n := (bs ! n)\<lparr>b_prev := b\<rparr>]
      in bs[HEAD := (bs ! HEAD)\<lparr>b_next := b\<rparr>])"

lemma inserted_length [simp]: "length (inserted bs b) = length bs"
  by (simp add: inserted_def Let_def)

lemma inserted_links:
  assumes "length bs = Suc NBUF" and "b < NBUF" and "b_next (bs ! HEAD) \<le> NBUF" and "b_next (bs ! HEAD) \<noteq> b"
  shows "b_next (inserted bs b ! k) = (if k = HEAD then b else if k = b then b_next (bs ! HEAD) else b_next (bs ! k))"
    and "b_prev (inserted bs b ! k) = (if k = b_next (bs ! HEAD) then b else if k = b then HEAD else b_prev (bs ! k))"
    and "core (inserted bs b ! k) = (if k = b then core (bs ! b)\<lparr>b_lock := initsleeplock\<rparr> else core (bs ! k))"
  using assms by (auto simp: inserted_def Let_def nth_list_update core_def)

lemma linked_inserted:
  assumes l: "length bs = Suc NBUF" and xs: "linked bs (HEAD # xs @ [HEAD])" "set xs \<subseteq> {..<NBUF}" "distinct xs" and b: "b < NBUF" "b \<notin> set xs"
  shows "linked (inserted bs b) (HEAD # (b # xs) @ [HEAD])"
proof -
  let ?n = "hd (xs @ [HEAD])"
  have n: "b_next (bs ! HEAD) = ?n" using xs(1) by (cases xs) simp_all
  have n2: "?n \<le> NBUF" "?n \<noteq> b" using xs(2) b by (cases xs; auto)+
  note F = inserted_links [OF l b(1), unfolded n, OF n2]
  have "linked (inserted bs b) (xs @ [HEAD])"
  proof (rule linked_cong [THEN iffD2])
    show "linked bs (xs @ [HEAD])" using xs(1) by (cases xs) simp_all
    show "b_next (inserted bs b ! x) = b_next (bs ! x)" if "x \<in> set (butlast (xs @ [HEAD]))" for x
      using that b xs(2) by (auto simp: F(1))
    show "b_prev (inserted bs b ! x) = b_prev (bs ! x)" if "x \<in> set (tl (xs @ [HEAD]))" for x
      using that b xs(2,3) by (cases xs) (auto simp: F(2))
  qed
  moreover have "b_next (inserted bs b ! HEAD) = b" "b_prev (inserted bs b ! b) = HEAD" "b_next (inserted bs b ! b) = ?n" "b_prev (inserted bs b ! ?n) = b"
    using b n2 by (simp_all add: F)
  ultimately show ?thesis by (cases xs) simp_all
qed

lemma binit1_run:
  assumes "length (bufs s) = Suc NBUF" and "b < NBUF" and "b_next (bufs s ! HEAD) \<le> NBUF"
  shows "binit1 b s = Inr ((), s\<lparr>bufs := inserted (bufs s) b\<rparr>)"
  using assms by (simp add: binit1_def run inserted_def Let_def)

text \<open>\<open>binit\<close> puts all buffers, the last one first, into the list.\<close>

definition chained :: "nat \<Rightarrow> buf list \<Rightarrow> buf list \<Rightarrow> bool" where
  "chained k bs bs' \<longleftrightarrow> length bs' = Suc NBUF \<and> linked bs' (HEAD # rev [0..<k] @ [HEAD]) \<and>
     (\<forall>i < NBUF. core (bs' ! i) = (if i < k then core (bs ! i)\<lparr>b_lock := initsleeplock\<rparr> else core (bs ! i)))"

lemma binit_run:
  assumes "length (bufs s) = Suc NBUF"
  shows "\<exists>bs. binit s = Inr ((), s\<lparr>bcache_lock := initlock, bufs := bs\<rparr>) \<and> chained NBUF (bufs s) bs"
proof -
  let ?s = "s\<lparr>bcache_lock := initlock, bufs := (bufs s)[HEAD := (bufs s ! HEAD)\<lparr>b_prev := HEAD, b_next := HEAD\<rparr>]\<rparr>"
  have step: "\<exists>bs. mfor [0..<k] binit1 ?s = Inr ((), ?s\<lparr>bufs := bs\<rparr>) \<and> chained k (bufs s) bs" if "k \<le> NBUF" for k
    using that
  proof (induction k)
    case 0
    have "chained 0 (bufs s) (bufs ?s)" using assms by (simp add: chained_def)
    then show ?case by (intro exI [of _ "bufs ?s"]) (simp add: run)
  next
    case (Suc k)
    then obtain bs where bs: "mfor [0..<k] binit1 ?s = Inr ((), ?s\<lparr>bufs := bs\<rparr>)" "chained k (bufs s) bs" by auto
    then have c: "length bs = Suc NBUF" "linked bs (HEAD # rev [0..<k] @ [HEAD])" by (simp_all add: chained_def)
    then have n: "b_next (bs ! HEAD) = hd (rev [0..<k] @ [HEAD])" by (cases "rev [0..<k]") simp_all
    have n2: "b_next (bs ! HEAD) \<le> NBUF" "b_next (bs ! HEAD) \<noteq> k" using Suc.prems unfolding n by (cases k; simp)+
    have "linked (inserted bs k) (HEAD # (k # rev [0..<k]) @ [HEAD])"
      using Suc.prems by (intro linked_inserted [OF c]) auto
    moreover have "core (inserted bs k ! i) = (if i < Suc k then core (bufs s ! i)\<lparr>b_lock := initsleeplock\<rparr> else core (bufs s ! i))"
      if "i < NBUF" for i
      using inserted_links(3) [OF c(1) _ n2, of i] bs(2) that Suc.prems by (auto simp: chained_def)
    ultimately have "chained (Suc k) (bufs s) (inserted bs k)" using c(1) by (simp add: chained_def)
    moreover have "binit1 k (?s\<lparr>bufs := bs\<rparr>) = Inr ((), ?s\<lparr>bufs := inserted bs k\<rparr>)"
      using binit1_run [of "?s\<lparr>bufs := bs\<rparr>" k] c(1) n2 Suc.prems by simp
    moreover have "mfor [0..<Suc k] binit1 ?s = mbind (mfor [0..<k] binit1) (\<lambda>_. binit1 k) ?s"
      by (simp add: mfor_append mbind_def mret_def split: sum.splits)
    ultimately show ?case using bs(1) by (auto simp: mbind_def)
  qed
  from step [of NBUF] obtain bs where bs: "mfor [0..<NBUF] binit1 ?s = Inr ((), ?s\<lparr>bufs := bs\<rparr>)" "chained NBUF (bufs s) bs" by auto
  have "binit s = Inr ((), ?s\<lparr>bufs := bs\<rparr>)"
    using assms bs(1) by (simp add: binit_def run del: mfor.simps upt_rec_numeral)
  with bs(2) show ?thesis by auto
qed


section \<open>Properties of the buffer cache\<close>

text \<open>
  A kernel whose variables are zero, as the loader leaves them: no buffer is in use, and the driver
  of the disk has not been initialised yet. In this state \<open>main\<close> calls \<open>binit\<close> and then
  \<open>virtio_disk_init\<close>.
\<close>

definition booted :: "'s bcache_kern_scheme \<Rightarrow> bool" where
  "booted s \<longleftrightarrow> drv_new s \<and> length (bufs s) = Suc NBUF \<and> length (v_data (vio s)) = Suc NBUF \<and> v_nblocks (vio s) \<le> 2 ^ 31 \<and>
     list_all (\<lambda>x. \<not> b_valid x \<and> b_dev x = 0 \<and> b_refcnt x = 0) (bufs s)"

definition started :: "buf list \<Rightarrow> (vmmio \<times> u32) list \<Rightarrow> 's bcache_kern_scheme \<Rightarrow> 's bcache_kern_scheme" where
  "started bs ws s = s\<lparr>bcache_lock := initlock, bufs := bs, vdisk_lock := initlock, vio := vio_reset (vio s), vregw := ws,
     disk_free := replicate NUM True\<rparr>"

lemma started_simps [simp]:
  "bufs (started bs ws s) = bs" "vio (started bs ws s) = vio_reset (vio s)" "bcache_lock (started bs ws s) = initlock"
  "kpid (started bs ws s) = kpid s" "kcpu (started bs ws s) = kcpu s"
  by (simp_all add: started_def)

lemma started_blk [simp]: "blk (started bs ws s) = blk s"
  by (simp add: blk_def fun_eq_iff)

lemma started_run:
  assumes "booted s"
  obtains bs ws where "mthen binit (virtio_disk_init pfn) s = Inr ((), started bs ws s)" "chained NBUF (bufs s) bs" "drv_ok (started bs ws s)"
proof -
  obtain bs where bs: "binit s = Inr ((), s\<lparr>bcache_lock := initlock, bufs := bs\<rparr>)" "chained NBUF (bufs s) bs"
    using binit_run [of s] assms by (auto simp: booted_def)
  have n: "drv_new (s\<lparr>bcache_lock := initlock, bufs := bs\<rparr>)" using assms by (simp add: booted_def drv_new_def)
  obtain ws where ws: "virtio_disk_init pfn (s\<lparr>bcache_lock := initlock, bufs := bs\<rparr>) = Inr ((), started bs ws s)"
    by (rule virtio_disk_init_run [OF n, of pfn]) (simp add: started_def)
  have "drv_ok (started bs ws s)" using drv_new_ok [OF n, of ws] by (simp add: started_def)
  with bs ws show thesis by (intro that [of bs ws]) (simp_all add: run)
qed

lemma started_cache_ok:
  assumes "booted s"
  obtains bs ws where "mthen binit (virtio_disk_init pfn) s = Inr ((), started bs ws s)" "cache_ok (started bs ws s)"
    "ent (started bs ws s) = uncached s"
proof -
  have b: "length (v_data (vio s)) = Suc NBUF" "v_nblocks (vio s) \<le> 2 ^ 31"
    "\<And>i. i < NBUF \<Longrightarrow> \<not> b_valid (bufs s ! i) \<and> b_dev (bufs s ! i) = 0 \<and> b_refcnt (bufs s ! i) = 0"
    using assms by (auto simp: booted_def list_all_length)
  obtain bs ws where bs: "mthen binit (virtio_disk_init pfn) s = Inr ((), started bs ws s)" "chained NBUF (bufs s) bs" "drv_ok (started bs ws s)"
    by (rule started_run [OF assms])
  let ?t = "started bs ws s"
  have z: "\<not> b_valid (bs ! i) \<and> b_dev (bs ! i) = 0 \<and> b_refcnt (bs ! i) = 0 \<and> b_lock (bs ! i) = initsleeplock" if i: "i < NBUF" for i
  proof -
    have "core (bs ! i) = core ((bufs s ! i)\<lparr>b_lock := initsleeplock\<rparr>)" using bs(2) i by (simp add: chained_def core_def)
    from core_fields [OF this] b(3) [OF i] show ?thesis by simp
  qed
  have "lru bs (rev [0..<NBUF])" using bs(2) by (simp add: chained_def lru_def lessThan_atLeast0 del: upt_rec_numeral)
  moreover have no: "\<not> names ?t i n" for i n using z by (auto simp: names_def)
  moreover have "buf_ok ?t i" if "i < NBUF" for i using z [OF that] by (simp add: buf_ok_def Let_def)
  ultimately have "cache_ok ?t" using b bs(3) unfolding cache_ok_def by auto
  moreover have "ent ?t n = uncached s n" for n
    using ent_none [OF no] by (simp add: uncached_def)
  ultimately show thesis using bs(1) by (intro that [of bs ws]) auto
qed

text \<open>
  C27. \<open>binit\<close> and \<open>virtio_disk_init\<close>, called by \<open>main\<close> in this order, turn the zeroed variables into an
  empty cache over a driver that is ready: every buffer is in the list exactly once, in both
  directions, no two buffers are for the same block, all locks and all descriptors are free, and
  every block is seen as it is on the disk. The device is a virtio disk that has served nothing yet.
\<close>

theorem binit_establishes:
  assumes "booted s"
  shows "wp (mthen binit (virtio_disk_init pfn))
    (\<lambda>_ t. cache_ok t \<and> view t = \<lparr>cv_disk = blk s, cv_ent = uncached s, cv_hist = v_hist (vio s)\<rparr>) s"
proof -
  obtain bs ws where "mthen binit (virtio_disk_init pfn) s = Inr ((), started bs ws s)" "cache_ok (started bs ws s)"
    "ent (started bs ws s) = uncached s"
    by (rule started_cache_ok [OF assms])
  then show ?thesis by (simp add: wp_def view_def)
qed

definition vreg0 :: "vmmio \<Rightarrow> u32" where
  "vreg0 r = (case r of MAGIC_VALUE \<Rightarrow> 0x74726976 | VERSION \<Rightarrow> 1 | DEVICE_ID \<Rightarrow> 2 | VENDOR_ID \<Rightarrow> 0x554d4551 | QUEUE_NUM_MAX \<Rightarrow> 1024
     | _ \<Rightarrow> 0)"

definition bcache0 :: bcache_kern where
  "bcache0 = \<lparr>kcpu = \<lparr>noff = 0, intena = True, intr = True, cpu_id = 0\<rparr>, kpid = 1, vdisk_lock = initlock,
     vio = vio0\<lparr>v_data := replicate (Suc NBUF) [0]\<rparr>, disk_free = replicate NUM False, disk_used = 0, info_b = replicate NUM None,
     bufs = replicate (Suc NBUF) buf0, device = dev0, vreg = vreg0, vregw = [], wait_bound = 2, bcache_lock = initlock\<rparr>"

lemma bcache0_booted: "booted bcache0"
  using dev0_serves
  by (simp add: booted_def bcache0_def drv_new_def vio0_def vreg0_def cpu_ok_def buf0_def list_all_iff)

theorem binit_establishes_witness:
  "wp (mthen binit (virtio_disk_init 0x40100)) (\<lambda>_ t. cache_ok t \<and> e_data (cv_ent (view t) 5) = [5]) bcache0"
  by (rule wp_mono [OF binit_establishes [OF bcache0_booted]]) (auto simp: uncached_def blk_def bcache0_def vio0_def)

text \<open>
  C21. \<open>bread\<close> on a block of the disk that the process does not hold, with a buffer left: it returns a
  buffer that is locked for the block and has its current contents, from the cache or from the
  disk. For the other blocks, and for the disk, nothing changes, whichever buffer was recycled, and
  the buffers that the process holds stay where they are.
\<close>

theorem bread_refines:
  assumes "cache_ok s" and "ucast n < v_nblocks (vio s)" and "\<not> e_held (ent s n)" and "e_refs (ent s n) \<noteq> -1" and "room s n"
  shows "wp (bread ROOTDEV n) (\<lambda>b t. cache_ok t \<and> names t b n \<and> b_lock (bufs t ! b) = sheld (kpid s) \<and>
    v_data (vio t) ! b = e_data (ent s n) \<and> (\<forall>j k. k \<noteq> n \<and> handle s j k \<longrightarrow> handle t j k) \<and>
    view t = (view s)\<lparr>cv_ent := (ent s)(n := (ent s n)\<lparr>e_refs := e_refs (ent s n) + 1, e_held := True\<rparr>)\<rparr>) s"
proof (rule wp_mono [OF bread_wp [OF assms]])
  fix b t
  assume a: "cstep n ((ent s n)\<lparr>e_refs := e_refs (ent s n) + 1, e_held := True\<rparr>) s t \<and> handle t b n \<and> blk t = blk s \<and> v_hist (vio t) = v_hist (vio s)"
  then have c: "cache_ok t" "only_cache s t" "ent t n = (ent s n)\<lparr>e_refs := e_refs (ent s n) + 1, e_held := True\<rparr>" by (auto simp: cstep_def)
  have "v_data (vio t) ! b = e_data (ent s n)" using handleD(6) [OF c(1), of b n] a c(3) by (cases "ent s n") simp
  with a show "cache_ok t \<and> names t b n \<and> b_lock (bufs t ! b) = sheld (kpid s) \<and>
    v_data (vio t) ! b = e_data (ent s n) \<and> (\<forall>j k. k \<noteq> n \<and> handle s j k \<longrightarrow> handle t j k) \<and>
    view t = (view s)\<lparr>cv_ent := (ent s)(n := (ent s n)\<lparr>e_refs := e_refs (ent s n) + 1, e_held := True\<rparr>)\<rparr>"
    using only_cache_fields(2) [OF c(2)] by (auto simp: cstep_def view_def handle_def)
qed


theorem bread_refines_witness:
  "wp (mthen (mthen binit (virtio_disk_init 0x40100)) (bread ROOTDEV 5)) (\<lambda>b t. cache_ok t \<and> v_data (vio t) ! b = [5]) bcache0"
proof -
  obtain bs ws where bs: "mthen binit (virtio_disk_init 0x40100) bcache0 = Inr ((), started bs ws bcache0)"
    "cache_ok (started bs ws bcache0)" "ent (started bs ws bcache0) = uncached bcache0"
    by (rule started_cache_ok [OF bcache0_booted])
  let ?t = "started bs ws bcache0"
  have e: "ent ?t n = \<lparr>e_data = [ucast (ucast n :: u64)], e_refs = 0, e_held = False\<rparr>" for n
    using bs(3) by (simp add: uncached_def blk_def bcache0_def vio0_def)
  have "room ?t 5" using e by (simp add: room_def)
  then have "wp (bread ROOTDEV 5) (\<lambda>b t. cache_ok t \<and> v_data (vio t) ! b = [5]) ?t"
    using e by (intro wp_mono [OF bread_refines [OF bs(2), of 5]]) (auto simp: bcache0_def vio0_def)
  then show ?thesis by (simp add: wp_def mbind_run [where m = "mthen binit (virtio_disk_init 0x40100)", OF bs(1)])
qed

end
