(* ===== verification/Xv6_Log.thy ===== *)
theory Xv6_Log
  imports Xv6_Cache
begin

text \<open>
  The log of the guest's file system, \<open>guest/xv6/kernel/log.c\<close>: the blocks that a group of system
  calls has changed are first written to the log, then a header block says that they are all
  there, and only then they are written to their places. Integers of the source that count are
  \<open>int\<close> here; block numbers and what is read from the disk keep their width.
\<close>

section \<open>Operations\<close>

abbreviation (input) MAXOPBLOCKS :: nat where "MAXOPBLOCKS \<equiv> 10"
abbreviation (input) LOGSIZE :: nat where "LOGSIZE \<equiv> 30"

record superblock =
  sb_magic :: u32
  sb_size :: u32
  sb_nblocks :: u32
  sb_ninodes :: u32
  sb_nlog :: u32
  sb_logstart :: u32
  sb_inodestart :: u32
  sb_bmapstart :: u32

record log_kern = bcache_kern +
  log_lock :: xlock
  log_start :: u32
  log_size :: int
  outstanding :: int
  committing :: bool
  log_dev :: u32
  lh_n :: int
  lh_block :: "u32 list"

type_synonym ('s, 'a) lcomp = "('s log_kern_scheme, 'a) comp"

abbreviation lock_log :: "('s, unit) lcomp" where
  "lock_log \<equiv> acquire log_lock log_lock_update"

abbreviation unlock_log :: "('s, unit) lcomp" where
  "unlock_log \<equiv> release log_lock log_lock_update"

text \<open>The header block is an array of 32-bit words: the count, then the block numbers.\<close>

definition hword :: "u8 list \<Rightarrow> nat \<Rightarrow> u32" where
  "hword xs k = ucast (xs ! (4 * k)) OR push_bit 8 (ucast (xs ! (4 * k + 1))) OR push_bit 16 (ucast (xs ! (4 * k + 2))) OR
     push_bit 24 (ucast (xs ! (4 * k + 3)))"

definition set_hword :: "nat \<Rightarrow> u32 \<Rightarrow> u8 list \<Rightarrow> u8 list" where
  "set_hword k w xs = xs[4 * k := ucast w, 4 * k + 1 := ucast (drop_bit 8 w), 4 * k + 2 := ucast (drop_bit 16 w), 4 * k + 3 := ucast (drop_bit 24 w)]"

definition head_r :: "nat \<Rightarrow> nat \<Rightarrow> ('s, u32) lcomp" where
  "head_r b k = mbind (bdata b) (\<lambda>xs. mthen (massert (4 * k + 3 < length xs) Out_Of_Bounds) (mret (hword xs k)))"

definition head_w :: "nat \<Rightarrow> nat \<Rightarrow> u32 \<Rightarrow> ('s, unit) lcomp" where
  "head_w b k w = mbind (bdata b) (\<lambda>xs. mthen (massert (4 * k + 3 < length xs) Out_Of_Bounds) (set_bdata b (set_hword k w xs)))"

definition block_r :: "nat \<Rightarrow> ('s, u32) lcomp" where
  "block_r i = mbind (mget lh_block) (\<lambda>bs. mnth bs i)"

definition block_w :: "nat \<Rightarrow> u32 \<Rightarrow> ('s, unit) lcomp" where
  "block_w i w = mthen (block_r i) (mmod (lh_block_update (\<lambda>bs. bs[i := w])))"

text \<open>\<open>memmove\<close> between the data of two buffers, and the write of the second.\<close>

definition copy_block :: "nat \<Rightarrow> nat \<Rightarrow> ('s, unit) lcomp" where
  "copy_block from to = mthen (mbind (bdata from) (set_bdata to)) (bwrite to)"

definition install1 :: "bool \<Rightarrow> nat \<Rightarrow> ('s, unit) lcomp" where
  "install1 recovering tail =
     mbind (mget log_dev) (\<lambda>dv. mbind (mget log_start) (\<lambda>start.
     mbind (bread dv (start + of_nat tail + 1)) (\<lambda>lbuf.
     mbind (block_r tail) (\<lambda>blk.
     mbind (bread dv blk) (\<lambda>dbuf.
     mthen (copy_block lbuf dbuf)
     (mthen (if \<not> recovering then bunpin dbuf else mret ())
     (mthen (brelse lbuf) (brelse dbuf))))))))"

definition install_trans :: "bool \<Rightarrow> ('s, unit) lcomp" where
  "install_trans recovering = mbind (mget lh_n) (\<lambda>n. mfor [0..<nat n] (install1 recovering))"

definition read_head :: "('s, unit) lcomp" where
  "read_head =
     mbind (mget log_dev) (\<lambda>dv. mbind (mget log_start) (\<lambda>start.
     mbind (bread dv start) (\<lambda>b.
     mbind (head_r b 0) (\<lambda>n.
     mthen (mmod (lh_n_update (\<lambda>_. sint n)))
     (mthen (mfor [0..<nat (sint n)] (\<lambda>i. mbind (head_r b (Suc i)) (block_w i)))
     (brelse b))))))"

definition write_head :: "('s, unit) lcomp" where
  "write_head =
     mbind (mget log_dev) (\<lambda>dv. mbind (mget log_start) (\<lambda>start.
     mbind (bread dv start) (\<lambda>b.
     mbind (mget lh_n) (\<lambda>n.
     mthen (head_w b 0 (word_of_int n))
     (mthen (mfor [0..<nat n] (\<lambda>i. mbind (block_r i) (head_w b (Suc i))))
     (mthen (bwrite b) (brelse b)))))))"

definition recover_from_log :: "('s, unit) lcomp" where
  "recover_from_log =
     mthen read_head (mthen (install_trans True) (mthen (mmod (lh_n_update (\<lambda>_. 0))) write_head))"

definition initlog :: "u32 \<Rightarrow> superblock \<Rightarrow> ('s, unit) lcomp" where
  "initlog dv sb =
     (if BSIZE \<le> 4 * Suc LOGSIZE then mfail (Panic ''initlog: too big logheader'')
      else
        mthen (mmod (log_lock_update (\<lambda>_. initlock)))
        (mthen (mmod (log_start_update (\<lambda>_. sb_logstart sb)))
        (mthen (mmod (log_size_update (\<lambda>_. sint (sb_nlog sb))))
        (mthen (mmod (log_dev_update (\<lambda>_. dv)))
        recover_from_log))))"

text \<open>With one process, the loop of \<open>begin_op\<close> that sleeps until there is space would sleep forever.\<close>

definition begin_op :: "('s, unit) lcomp" where
  "begin_op =
     mthen lock_log
     (mbind (mget committing) (\<lambda>c. if c then mfail Deadlock else
      mbind (mget lh_n) (\<lambda>n. mbind (mget outstanding) (\<lambda>k.
      if int LOGSIZE < n + (k + 1) * int MAXOPBLOCKS then mfail Deadlock
      else mthen (mmod (outstanding_update (\<lambda>k. k + 1))) unlock_log))))"

definition write_log1 :: "nat \<Rightarrow> ('s, unit) lcomp" where
  "write_log1 tail =
     mbind (mget log_dev) (\<lambda>dv. mbind (mget log_start) (\<lambda>start.
     mbind (bread dv (start + of_nat tail + 1)) (\<lambda>to.
     mbind (block_r tail) (\<lambda>blk.
     mbind (bread dv blk) (\<lambda>from.
     mthen (copy_block from to)
     (mthen (brelse from) (brelse to)))))))"

definition write_log :: "('s, unit) lcomp" where
  "write_log = mbind (mget lh_n) (\<lambda>n. mfor [0..<nat n] write_log1)"

definition commit :: "('s, unit) lcomp" where
  "commit = mbind (mget lh_n) (\<lambda>n.
     if 0 < n
     then mthen write_log (mthen write_head (mthen (install_trans False)
       (mthen (mmod (lh_n_update (\<lambda>_. 0))) write_head)))
     else mret ())"

definition end_op :: "('s, unit) lcomp" where
  "end_op =
     mthen lock_log
     (mthen (mmod (outstanding_update (\<lambda>k. k - 1)))
     (mbind (mget committing) (\<lambda>c. if c then mfail (Panic ''log.committing'') else
      mbind (mget outstanding) (\<lambda>k. let do_commit = (k = 0) in
      mthen (if do_commit then mmod (committing_update (\<lambda>_. True)) else mret ())
      (mthen unlock_log
      (if do_commit
       then mthen commit (mthen lock_log (mthen (mmod (committing_update (\<lambda>_. False))) unlock_log))
       else mret ()))))))"

definition log_write :: "nat \<Rightarrow> ('s, unit) lcomp" where
  "log_write b =
     mthen lock_log
     (mbind (mget lh_n) (\<lambda>n. mbind (mget log_size) (\<lambda>size.
      if int LOGSIZE \<le> n \<or> size - 1 \<le> n then mfail (Panic ''too big a transaction'')
      else mbind (mget outstanding) (\<lambda>k. if k < 1 then mfail (Panic ''log_write outside of trans'')
      else mbind (buf_at b) (\<lambda>x. mbind (mget lh_block) (\<lambda>bs.
        let i = length (takeWhile (\<lambda>c. c \<noteq> b_blockno x) (take (nat n) bs)) in
        mthen (block_w i (b_blockno x))
        (mthen (if int i = n then mthen (bpin b) (mmod (lh_n_update (\<lambda>n. n + 1))) else mret ())
        unlock_log)))))))"


section \<open>The cache between operations\<close>

text \<open>
  Between two operations no buffer is held; exactly the blocks in \<open>P\<close> are pinned, each once, with
  contents that may not be on the disk yet.
\<close>

type_synonym pins = "u32 \<rightharpoonup> u8 list"

definition pin_of :: "'s bcache_kern_scheme \<Rightarrow> pins \<Rightarrow> u32 \<Rightarrow> entry" where
  "pin_of s P n = (case P n of None \<Rightarrow> uncached s n | Some xs \<Rightarrow> \<lparr>e_data = xs, e_refs = 1, e_held = False\<rparr>)"

definition cached :: "'s bcache_kern_scheme \<Rightarrow> pins \<Rightarrow> bool" where
  "cached s P \<longleftrightarrow> cache_ok s \<and> card (dom P) < NBUF \<and> ent s = pin_of s P"

lemma pin_of_simps [simp]:
  "P n = None \<Longrightarrow> pin_of s P n = uncached s n"
  "P n = Some xs \<Longrightarrow> pin_of s P n = \<lparr>e_data = xs, e_refs = 1, e_held = False\<rparr>"
  by (simp_all add: pin_of_def)

lemma pin_refs: "e_refs (pin_of s P k) \<noteq> 0 \<longleftrightarrow> k \<in> dom P"
  by (auto simp: pin_of_def uncached_def split: option.splits)

lemma uncached_simps [simp]: "e_data (uncached s n) = blk s n" "e_refs (uncached s n) = 0" "e_held (uncached s n) = False"
  by (simp_all add: uncached_def)

text \<open>The blocks that a computation has written, in order.\<close>

definition upds :: "(u32 \<Rightarrow> u8 list) \<Rightarrow> (u32 \<times> u8 list) list \<Rightarrow> u32 \<Rightarrow> u8 list" where
  "upds D ws = foldl (\<lambda>D (a, x). D(a := x)) D ws"

lemma upds_simps [simp]: "upds D [] = D" "upds D ((a, x) # ws) = upds (D(a := x)) ws" "upds D (vs @ ws) = upds (upds D vs) ws"
  by (simp_all add: upds_def)

lemma upds_other: "a \<notin> fst ` set ws \<Longrightarrow> upds D ws a = D a"
  by (induction ws arbitrary: D) auto

lemma upds_in: "distinct (map fst ws) \<Longrightarrow> (a, x) \<in> set ws \<Longrightarrow> upds D ws a = x"
  by (induction ws arbitrary: D) (auto simp: upds_other image_iff)

definition wrote :: "(u32 \<times> u8 list) list \<Rightarrow> 's bcache_kern_scheme \<Rightarrow> 's bcache_kern_scheme \<Rightarrow> bool" where
  "wrote ws s t \<longleftrightarrow> only_cache s t \<and> v_nblocks (vio t) = v_nblocks (vio s) \<and> blk t = upds (blk s) ws \<and>
     v_hist (vio t) = rev (map (\<lambda>(a, x). (ucast a, x)) ws) @ v_hist (vio s)"

lemma only_cacheE:
  assumes "only_cache s t"
  obtains v ws d bs where "t = s\<lparr>vio := v, vregw := ws, disk_used := d, bufs := bs\<rparr>"
  using assms unfolding only_cache_def by blast

lemma only_cache_trans: "only_cache s t \<Longrightarrow> only_cache t u \<Longrightarrow> only_cache s u"
  by (elim only_cacheE) (simp add: only_cacheI)

lemma wrote_trans: "wrote vs s t \<Longrightarrow> wrote ws t u \<Longrightarrow> wrote (vs @ ws) s u"
  by (auto simp: wrote_def intro: only_cache_trans)

lemma wrote_refl [simp]: "wrote [] s s"
  by (simp add: wrote_def)

lemma cstep_wrote: "cstep n e s t \<Longrightarrow> blk t = blk s \<Longrightarrow> v_hist (vio t) = v_hist (vio s) \<Longrightarrow> wrote [] s t"
  by (simp add: wrote_def cstep_def)

lemma cstep_trans: "cstep n e s t \<Longrightarrow> cstep n e' t u \<Longrightarrow> cstep n e' s u"
  by (auto simp: cstep_def intro: only_cache_trans)

lemma wrote_log:
  assumes "wrote ws s t"
  shows "log_start t = log_start s" "log_size t = log_size s" "log_dev t = log_dev s" "lh_n t = lh_n s" "lh_block t = lh_block s"
    "log_lock t = log_lock s" "outstanding t = outstanding s" "committing t = committing s"
proof -
  from assms obtain v ws d bs where "t = s\<lparr>vio := v, vregw := ws, disk_used := d, bufs := bs\<rparr>"
    unfolding wrote_def by (blast elim: only_cacheE)
  then show "log_start t = log_start s" "log_size t = log_size s" "log_dev t = log_dev s" "lh_n t = lh_n s" "lh_block t = lh_block s"
    "log_lock t = log_lock s" "outstanding t = outstanding s" "committing t = committing s" by simp_all
qed

lemma cachedD:
  assumes "cached s P"
  shows "cache_ok s" "card (dom P) < NBUF" "ent s = pin_of s P" "\<And>n. room s n"
  using assms by (auto simp: cached_def room_def pin_refs)

text \<open>
  Symbolic execution: since the state \<open>s\<close> the blocks \<open>ws\<close> have been written, the entries are \<open>E\<close>, and
  the process holds the buffers \<open>hs\<close>, given with their blocks.
\<close>

definition since :: "'s bcache_kern_scheme \<Rightarrow> (u32 \<times> u8 list) list \<Rightarrow> (u32 \<Rightarrow> entry) \<Rightarrow> (nat \<times> u32) list \<Rightarrow> 's bcache_kern_scheme \<Rightarrow> bool" where
  "since s ws E hs t \<longleftrightarrow> cache_ok t \<and> wrote ws s t \<and> ent t = E \<and> (\<forall>(b, n) \<in> set hs. handle t b n)"

lemma since_refl: "cache_ok s \<Longrightarrow> since s [] (ent s) [] s"
  by (simp add: since_def)

lemma sinceD:
  assumes "since s ws E hs t"
  shows "cache_ok t" "wrote ws s t" "ent t = E" "(b, n) \<in> set hs \<Longrightarrow> handle t b n"
  using assms by (auto simp: since_def)

lemma handle_unique: "cache_ok s \<Longrightarrow> handle s b n \<Longrightarrow> handle s b' n \<Longrightarrow> b' = b"
  using cache_okD(8) by (auto simp: handle_def)

lemma since_step:
  assumes s: "since s ws E hs t" and c: "cstep n e t u" and b: "blk u = upds (blk t) vs" "v_hist (vio u) = rev (map (\<lambda>(a, x). (ucast a, x)) vs) @ v_hist (vio t)"
    and h: "\<And>b k. (b, k) \<in> set hs' \<Longrightarrow> (b, k) \<in> set hs \<and> k \<noteq> n \<or> handle u b k"
  shows "since s (ws @ vs) (E(n := e)) hs' u"
proof -
  have "wrote vs t u" using c b by (simp add: wrote_def cstep_def)
  then have "wrote (ws @ vs) s u" using sinceD(2) [OF s] wrote_trans by blast
  moreover have "handle u b k" if "(b, k) \<in> set hs'" for b k
    using h [OF that] sinceD(4) [OF s] c by (auto simp: cstep_def)
  ultimately show ?thesis
    using c sinceD(3) [OF s] by (auto simp: since_def cstep_def)
qed

lemma since_quiet:
  assumes "since s ws E hs t" and "cstep n e t u" and "blk u = blk t" and "v_hist (vio u) = v_hist (vio t)"
    and "\<And>b k. (b, k) \<in> set hs' \<Longrightarrow> (b, k) \<in> set hs \<and> k \<noteq> n \<or> handle u b k"
  shows "since s ws (E(n := e)) hs' u"
  using since_step [OF assms(1,2), where vs = "[]"] assms(3-5) by simp

definition on_disk :: "'s bcache_kern_scheme \<Rightarrow> u32 \<Rightarrow> bool" where
  "on_disk s n \<longleftrightarrow> ucast n < v_nblocks (vio s)"

lemma bread_since:
  assumes s: "since s ws E hs t" and n: "on_disk s n" "\<not> e_held (E n)" "e_refs (E n) \<noteq> -1" "e_refs (E n) \<noteq> 0 \<or> card {k. e_refs (E k) \<noteq> 0} < NBUF"
  shows "wp (bread ROOTDEV n) (\<lambda>b. since s ws (E(n := (E n)\<lparr>e_refs := e_refs (E n) + 1, e_held := True\<rparr>)) ((b, n) # hs)) t"
proof -
  note d = sinceD(1-3) [OF s]
  have "(b, n) \<notin> set hs" for b using handleD(6) [OF d(1)] sinceD(4) [OF s] n(2) d(3) by force
  moreover have "ucast n < v_nblocks (vio t)" "room t n" using n d by (auto simp: on_disk_def room_def wrote_def)
  ultimately show ?thesis
    using n sinceD(4) [OF s] by (intro wp_mono [OF bread_wp [OF d(1), of n, unfolded d(3)]]) (auto intro!: since_quiet [OF s])
qed

lemma bdata_since: "since s ws E hs t \<Longrightarrow> (b, n) \<in> set hs \<Longrightarrow> wp (bdata b) (\<lambda>xs u. xs = e_data (E n) \<and> u = t) t"
  using bdata_run sinceD by (fastforce simp: wp_def)

lemma set_bdata_since:
  assumes s: "since s ws E hs t" and b: "(b, n) \<in> set hs"
  shows "wp (set_bdata b xs) (\<lambda>_. since s ws (E(n := (E n)\<lparr>e_data := xs\<rparr>)) hs) t"
proof -
  note d = sinceD(1-3) [OF s] and h = sinceD(4) [OF s b]
  show ?thesis
    using d sinceD(4) [OF s] handle_unique [OF d(1) h] since_step [OF s, where vs = "[]"]
    by (intro wp_mono [OF set_bdata_wp [OF d(1) h]]) force
qed

lemma bwrite_since:
  assumes s: "since s ws E hs t" and b: "(b, n) \<in> set hs"
  shows "wp (bwrite b) (\<lambda>_. since s (ws @ [(n, e_data (E n))]) E hs) t"
proof -
  note d = sinceD(1-3) [OF s] and h = sinceD(4) [OF s b]
  have e: "E(n := E n) = E" by simp
  show ?thesis
    using d sinceD(4) [OF s] handle_unique [OF d(1) h] since_step [OF s, where vs = "[(n, e_data (E n))]" and e = "E n", unfolded e]
    by (intro wp_mono [OF bwrite_wp [OF d(1) h]]) force
qed

lemma bunpin_since:
  assumes s: "since s ws E hs t" and b: "(b, n) \<in> set hs" and r: "e_refs (E n) \<noteq> 1"
  shows "wp (bunpin b) (\<lambda>_. since s ws (E(n := (E n)\<lparr>e_refs := e_refs (E n) - 1\<rparr>)) hs) t"
proof -
  note d = sinceD(1-3) [OF s] and h = sinceD(4) [OF s b]
  show ?thesis
    using d r sinceD(4) [OF s] handle_unique [OF d(1) h] since_step [OF s, where vs = "[]"]
    by (intro wp_mono [OF bunpin_wp [OF d(1) h]]) force+
qed

lemma bpin_since:
  assumes s: "since s ws E hs t" and b: "(b, n) \<in> set hs" and r: "e_refs (E n) \<noteq> -1"
  shows "wp (bpin b) (\<lambda>_. since s ws (E(n := (E n)\<lparr>e_refs := e_refs (E n) + 1\<rparr>)) hs) t"
proof -
  note d = sinceD(1-3) [OF s] and h = sinceD(4) [OF s b]
  show ?thesis
    using d r sinceD(4) [OF s] handle_unique [OF d(1) h] since_step [OF s, where vs = "[]"]
    by (intro wp_mono [OF bpin_wp [OF d(1) h]]) force+
qed

lemma brelse_since:
  assumes s: "since s ws E hs t" and b: "(b, n) \<in> set hs" and r: "e_refs (E n) = 1 \<Longrightarrow> e_data (E n) = upds (blk s) ws n"
  shows "wp (brelse b) (\<lambda>_. since s ws (E(n := (E n)\<lparr>e_refs := e_refs (E n) - 1, e_held := False\<rparr>)) (filter (\<lambda>(b, k). k \<noteq> n) hs)) t"
proof -
  note d = sinceD(1-3) [OF s] and h = sinceD(4) [OF s b]
  have "e_refs (ent t n) = 1 \<Longrightarrow> e_data (ent t n) = blk t n" using d r by (simp add: wrote_def)
  then show ?thesis
    using d sinceD(4) [OF s] since_step [OF s, where vs = "[]"]
    by (intro wp_mono [OF brelse_wp [OF d(1) h]]) force+
qed


section \<open>Copying blocks\<close>

lemma since_cached: "cached s P \<Longrightarrow> since s [] (pin_of s P) [] s"
  using since_refl [of s] by (simp add: cached_def)

lemma cachedI: "since s ws E [] t \<Longrightarrow> card (dom P) < NBUF \<Longrightarrow> (\<And>n. E n = pin_of t P n) \<Longrightarrow> cached t P \<and> wrote ws s t"
  by (simp add: since_def cached_def fun_eq_iff)

lemma block_r_since:
  assumes "since s ws E hs t" and "i < length (lh_block s)"
  shows "block_r i t = Inr (lh_block s ! i, t)"
  using wrote_log(5) [OF sinceD(2) [OF assms(1)]] assms(2) by (simp add: block_r_def run)

lemma copy_since:
  assumes s: "since s ws E hs t" and h: "(a, x) \<in> set hs" "(b, y) \<in> set hs"
  shows "wp (copy_block a b)
    (\<lambda>_. since s (ws @ [(y, e_data (E x))]) (E(y := (E y)\<lparr>e_data := e_data (E x)\<rparr>)) hs) t"
proof -
  have "wp (bwrite b) (\<lambda>_. since s (ws @ [(y, e_data (E x))]) (E(y := (E y)\<lparr>e_data := e_data (E x)\<rparr>)) hs) u"
    if "since s ws (E(y := (E y)\<lparr>e_data := e_data (E x)\<rparr>)) hs u" for u
    using bwrite_since [OF that h(2)] by simp
  then have "wp (mthen (set_bdata b (e_data (E x))) (bwrite b)) (\<lambda>_. since s (ws @ [(y, e_data (E x))]) (E(y := (E y)\<lparr>e_data := e_data (E x)\<rparr>)) hs) t"
    using wp_mono [OF set_bdata_since [OF s h(2)]] by (simp add: wps)
  then show ?thesis
    using wp_mono [OF bdata_since [OF s h(1)]] by (simp add: copy_block_def wps)
qed

lemma write_log1_wp:
  assumes c: "cached s P" and l: "log_dev s = ROOTDEV" "i < length (lh_block s)" "log_start s + of_nat i + 1 = x" "lh_block s ! i = y"
    and x: "on_disk s x" "P x = None" and y: "on_disk s y" "P y = Some d"
  shows "wp (write_log1 i) (\<lambda>_ t. cached t P \<and> wrote [(x, d)] s t) s"
proof -
  have xy: "x \<noteq> y" using x(2) y(2) by auto
  note cd = cachedD(2) [OF c]
  have refs: "{k. e_refs (pin_of s P k) \<noteq> 0} = dom P" by (auto simp: pin_refs)
  let ?E = "\<lambda>a b. (pin_of s P)(x := a, y := b)"
  have "wp (bread ROOTDEV x) (\<lambda>b. since s [] ((pin_of s P)(x := \<lparr>e_data = blk s x, e_refs = 1, e_held = True\<rparr>)) [(b, x)]) s"
    using bread_since [OF since_cached [OF c] x(1)] x(2) cd refs by (simp add: uncached_def)
  from wp_runD [OF this] obtain a s1 where 1: "bread ROOTDEV x s = Inr (a, s1)"
    "since s [] ((pin_of s P)(x := \<lparr>e_data = blk s x, e_refs = 1, e_held = True\<rparr>)) [(a, x)] s1" by blast
  have "wp (bread ROOTDEV y) (\<lambda>b. since s [] (?E \<lparr>e_data = blk s x, e_refs = 1, e_held = True\<rparr> \<lparr>e_data = d, e_refs = 2, e_held = True\<rparr>) [(b, y), (a, x)]) s1"
    using bread_since [OF 1(2) y(1)] y(2) xy by simp
  from wp_runD [OF this] obtain b s2 where 2: "bread ROOTDEV y s1 = Inr (b, s2)"
    "since s [] (?E \<lparr>e_data = blk s x, e_refs = 1, e_held = True\<rparr> \<lparr>e_data = d, e_refs = 2, e_held = True\<rparr>) [(b, y), (a, x)] s2" by blast
  have "wp (copy_block b a)
      (\<lambda>_. since s [(x, d)] (?E \<lparr>e_data = d, e_refs = 1, e_held = True\<rparr> \<lparr>e_data = d, e_refs = 2, e_held = True\<rparr>) [(b, y), (a, x)]) s2"
    using copy_since [OF 2(2), of b y a x] xy by (simp add: fun_upd_twist)
  from wp_runD [OF this] obtain s3 where 3: "copy_block b a s2 = Inr ((), s3)"
    "since s [(x, d)] (?E \<lparr>e_data = d, e_refs = 1, e_held = True\<rparr> \<lparr>e_data = d, e_refs = 2, e_held = True\<rparr>) [(b, y), (a, x)] s3" by auto
  have "wp (brelse b) (\<lambda>_. since s [(x, d)] (?E \<lparr>e_data = d, e_refs = 1, e_held = True\<rparr> \<lparr>e_data = d, e_refs = 1, e_held = False\<rparr>) [(a, x)]) s3"
    using brelse_since [OF 3(2), of b y] xy by simp
  from wp_runD [OF this] obtain s4 where 4: "brelse b s3 = Inr ((), s4)"
    "since s [(x, d)] (?E \<lparr>e_data = d, e_refs = 1, e_held = True\<rparr> \<lparr>e_data = d, e_refs = 1, e_held = False\<rparr>) [(a, x)] s4" by auto
  have "wp (brelse a) (\<lambda>_. since s [(x, d)] (?E \<lparr>e_data = d, e_refs = 0, e_held = False\<rparr> \<lparr>e_data = d, e_refs = 1, e_held = False\<rparr>) []) s4"
    using brelse_since [OF 4(2), of a x] xy by (simp add: fun_upd_twist)
  from wp_runD [OF this] obtain s5 where 5: "brelse a s4 = Inr ((), s5)"
    "since s [(x, d)] (?E \<lparr>e_data = d, e_refs = 0, e_held = False\<rparr> \<lparr>e_data = d, e_refs = 1, e_held = False\<rparr>) [] s5" by auto
  have "blk s5 = (blk s)(x := d)" using sinceD(2) [OF 5(2)] by (simp add: wrote_def)
  then have "cached s5 P \<and> wrote [(x, d)] s s5"
    using x(2) y(2) by (intro cachedI [OF 5(2) cd]) (auto simp: pin_of_def uncached_def split: option.splits)
  then show ?thesis
    using l 1(1) block_r_since [OF 1(2) l(2)] 2(1) 3(1) 4(1) 5(1)
    by (simp add: wp_def write_log1_def mbind_def mget_def)
qed


text \<open>\<open>install_trans\<close> after a commit, when the block is pinned, and after a crash, when nothing is.\<close>

lemma install1_wp:
  assumes c: "cached s P" and l: "log_dev s = ROOTDEV" "i < length (lh_block s)" "log_start s + of_nat i + 1 = x" "lh_block s ! i = y"
    and x: "on_disk s x" "P x = None" and y: "on_disk s y" "x \<noteq> y" and P: "if rcv then P = Map.empty else y \<in> dom P"
  shows "wp (install1 rcv i) (\<lambda>_ t. cached t (P(y := None)) \<and> wrote [(y, blk s x)] s t) s"
proof -
  note cd = cachedD(2) [OF c]
  have refs: "{k. e_refs (pin_of s P k) \<noteq> 0} = dom P" by (auto simp: pin_refs)
  let ?E = "\<lambda>b. (pin_of s P)(x := \<lparr>e_data = blk s x, e_refs = 1, e_held = True\<rparr>, y := b)" and ?r = "if rcv then 1 else 2 :: u32" and ?d = "blk s x"
  have "wp (bread ROOTDEV x) (\<lambda>b. since s [] ((pin_of s P)(x := \<lparr>e_data = blk s x, e_refs = 1, e_held = True\<rparr>)) [(b, x)]) s"
    using bread_since [OF since_cached [OF c] x(1)] x(2) cd refs by (simp add: uncached_def)
  from wp_runD [OF this] obtain a s1 where 1: "bread ROOTDEV x s = Inr (a, s1)"
    "since s [] ((pin_of s P)(x := \<lparr>e_data = blk s x, e_refs = 1, e_held = True\<rparr>)) [(a, x)] s1" by blast
  obtain d where d: "pin_of s P y = \<lparr>e_data = d, e_refs = ?r - 1, e_held = False\<rparr>"
    using P by (cases rcv) (auto simp: uncached_def)
  have "{k. e_refs (((pin_of s P)(x := \<lparr>e_data = blk s x, e_refs = 1, e_held = True\<rparr>)) k) \<noteq> 0} = insert x (dom P)"
    using refs by auto
  then have "wp (bread ROOTDEV y) (\<lambda>b. since s [] (?E \<lparr>e_data = d, e_refs = ?r, e_held = True\<rparr>) [(b, y), (a, x)]) s1"
    using bread_since [OF 1(2) y(1)] y(2) d P by (cases rcv) simp_all
  from wp_runD [OF this] obtain b s2 where 2: "bread ROOTDEV y s1 = Inr (b, s2)"
    "since s [] (?E \<lparr>e_data = d, e_refs = ?r, e_held = True\<rparr>) [(b, y), (a, x)] s2" by blast
  have "wp (copy_block a b)
      (\<lambda>_. since s [(y, ?d)] (?E \<lparr>e_data = ?d, e_refs = ?r, e_held = True\<rparr>) [(b, y), (a, x)]) s2"
    using copy_since [OF 2(2), of a x b y] y(2) by simp
  from wp_runD [OF this] obtain s3 where 3: "copy_block a b s2 = Inr ((), s3)"
    "since s [(y, ?d)] (?E \<lparr>e_data = ?d, e_refs = ?r, e_held = True\<rparr>) [(b, y), (a, x)] s3" by auto
  have "wp (if \<not> rcv then bunpin b else mret ()) (\<lambda>_. since s [(y, ?d)] (?E \<lparr>e_data = ?d, e_refs = 1, e_held = True\<rparr>) [(b, y), (a, x)]) s3"
    using bunpin_since [OF 3(2), of b y] 3(2) by (cases rcv) (simp_all add: wps)
  from wp_runD [OF this] obtain s4 where 4: "(if \<not> rcv then bunpin b else mret ()) s3 = Inr ((), s4)"
    "since s [(y, ?d)] (?E \<lparr>e_data = ?d, e_refs = 1, e_held = True\<rparr>) [(b, y), (a, x)] s4" by auto
  let ?F = "\<lambda>b. (pin_of s P)(x := \<lparr>e_data = blk s x, e_refs = 0, e_held = False\<rparr>, y := b)"
  have "wp (brelse a) (\<lambda>_. since s [(y, ?d)] (?F \<lparr>e_data = ?d, e_refs = 1, e_held = True\<rparr>) [(b, y)]) s4"
    using brelse_since [OF 4(2), of a x] y(2) by (simp add: fun_upd_twist)
  from wp_runD [OF this] obtain s5 where 5: "brelse a s4 = Inr ((), s5)"
    "since s [(y, ?d)] (?F \<lparr>e_data = ?d, e_refs = 1, e_held = True\<rparr>) [(b, y)] s5" by auto
  have "wp (brelse b) (\<lambda>_. since s [(y, ?d)] (?F \<lparr>e_data = ?d, e_refs = 0, e_held = False\<rparr>) []) s5"
    using brelse_since [OF 5(2), of b y] by simp
  from wp_runD [OF this] obtain s6 where 6: "brelse b s5 = Inr ((), s6)"
    "since s [(y, ?d)] (?F \<lparr>e_data = ?d, e_refs = 0, e_held = False\<rparr>) [] s6" by auto
  have "blk s6 = (blk s)(y := ?d)" using sinceD(2) [OF 6(2)] by (simp add: wrote_def)
  moreover have "card (dom (P(y := None))) < NBUF" using cd card_Diff1_le [of "dom P" y] by simp
  ultimately have "cached s6 (P(y := None)) \<and> wrote [(y, ?d)] s s6"
    using x(2) y(2) by (intro cachedI [OF 6(2)]) (auto simp: pin_of_def uncached_def split: option.splits)
  then show ?thesis
    using l 1(1) block_r_since [OF 1(2) l(2)] 2(1) 3(1) 4(1) 5(1) 6(1)
    by (simp add: wp_def install1_def mbind_def mget_def)
qed


section \<open>The header block\<close>

lemma set_hword_length [simp]: "length (set_hword k w xs) = length xs"
  by (simp add: set_hword_def)

lemma hword_same:
  assumes "4 * k + 3 < length xs"
  shows "hword (set_hword k w xs) k = w"
proof (rule bit_word_eqI)
  fix n assume "n < LENGTH(32)"
  then consider "n < 8" | "8 \<le> n" "n < 16" | "16 \<le> n" "n < 24" | "24 \<le> n" "n < 32" by fastforce
  then show "bit (hword (set_hword k w xs) k) n \<longleftrightarrow> bit w n"
    using assms by cases (auto simp: hword_def set_hword_def bit_simps)
qed

lemma hword_other:
  assumes "k \<noteq> j"
  shows "hword (set_hword j w xs) k = hword xs k"
proof -
  have n: "set_hword j w xs ! (4 * k + b) = xs ! (4 * k + b)" if "b < 4" for b
  proof -
    have "4 * j + a \<noteq> 4 * k + b" if "a < 4" for a using assms that \<open>b < 4\<close> by presburger
    from this [of 0] this [of 1] this [of 2] this [of 3] show ?thesis by (simp add: set_hword_def)
  qed
  from n [of 0] n [of 1] n [of 2] n [of 3] show ?thesis by (simp add: hword_def)
qed

definition head_upto :: "nat \<Rightarrow> u32 \<Rightarrow> u32 list \<Rightarrow> u8 list \<Rightarrow> u8 list" where
  "head_upto k n bs xs = foldl (\<lambda>xs i. set_hword (Suc i) (bs ! i) xs) (set_hword 0 n xs) [0..<k]"

lemma head_upto_simps [simp]:
  "head_upto 0 n bs xs = set_hword 0 n xs" "head_upto (Suc k) n bs xs = set_hword (Suc k) (bs ! k) (head_upto k n bs xs)"
  by (simp_all add: head_upto_def)

lemma head_upto_length [simp]: "length (head_upto k n bs xs) = length xs"
  by (induction k) simp_all

lemma head_upto_hword:
  assumes "4 * k + 3 < length xs"
  shows "hword (head_upto k n bs xs) 0 = n" and "i < k \<Longrightarrow> hword (head_upto k n bs xs) (Suc i) = bs ! i"
  using assms by (induction k) (auto simp: hword_same hword_other less_Suc_eq)

lemma head_w_since:
  assumes s: "since s ws E hs t" and b: "(b, n) \<in> set hs" and k: "4 * k + 3 < length (e_data (E n))"
  shows "wp (head_w b k w) (\<lambda>_. since s ws (E(n := (E n)\<lparr>e_data := set_hword k w (e_data (E n))\<rparr>)) hs) t"
  using wp_mono [OF bdata_since [OF s b]] set_bdata_since [OF s b] k by (simp add: head_w_def wps)

lemma head_r_since:
  assumes s: "since s ws E hs t" and b: "(b, n) \<in> set hs" and k: "4 * k + 3 < length (e_data (E n))"
  shows "head_r b k t = Inr (hword (e_data (E n)) k, t)"
  using wp_runD [OF bdata_since [OF s b]] k by (auto simp: head_r_def run)

lemma write_head_wp:
  assumes c: "cached s P" and l: "log_dev s = ROOTDEV" "on_disk s (log_start s)" "P (log_start s) = None" "length (blk s (log_start s)) = BSIZE"
    and n: "lh_n s = int n" "n \<le> length (lh_block s)" "n \<le> LOGSIZE"
  shows "wp write_head (\<lambda>_ t. cached t P \<and> wrote [(log_start s, head_upto n (of_nat n) (lh_block s) (blk s (log_start s)))] s t) s"
proof -
  let ?x = "log_start s" and ?E = "\<lambda>xs. (pin_of s P)(log_start s := \<lparr>e_data = xs, e_refs = 1, e_held = True\<rparr>)"
  let ?h = "\<lambda>k. head_upto k (of_nat n) (lh_block s) (blk s ?x)"
  have refs: "{k. e_refs (pin_of s P k) \<noteq> 0} = dom P" by (auto simp: pin_refs)
  have "wp (bread ROOTDEV ?x) (\<lambda>b. since s [] (?E (blk s ?x)) [(b, ?x)]) s"
    using bread_since [OF since_cached [OF c] l(2)] l(3) cachedD(2) [OF c] refs by (simp add: uncached_def)
  from wp_runD [OF this] obtain b s1 where 1: "bread ROOTDEV ?x s = Inr (b, s1)" "since s [] (?E (blk s ?x)) [(b, ?x)] s1" by blast
  have "wp (head_w b 0 (of_nat n)) (\<lambda>_. since s [] (?E (?h 0)) [(b, ?x)]) s1"
    using head_w_since [OF 1(2), of b ?x 0] l(4) by simp
  from wp_runD [OF this] obtain s2 where 2: "head_w b 0 (of_nat n) s1 = Inr ((), s2)" "since s [] (?E (?h 0)) [(b, ?x)] s2" by auto
  have "wp (mfor [0..<n] (\<lambda>i. mbind (block_r i) (head_w b (Suc i)))) (\<lambda>_. since s [] (?E (?h (length [0..<n]))) [(b, ?x)]) s2"
  proof (rule wp_mfor [where I = "\<lambda>k. since s [] (?E (?h k)) [(b, ?x)]", OF 2(2)])
    fix k t assume k: "k < length [0..<n]" and t: "since s [] (?E (?h k)) [(b, ?x)] t"
    have "wp (head_w b (Suc k) (lh_block s ! k)) (\<lambda>_. since s [] (?E (?h (Suc k))) [(b, ?x)]) t"
      using head_w_since [OF t, of b ?x "Suc k"] l(4) n k by simp
    moreover have "block_r k t = Inr (lh_block s ! k, t)" using block_r_since [OF t] n k by simp
    ultimately show "wp (mbind (block_r ([0..<n] ! k)) (head_w b (Suc ([0..<n] ! k)))) (\<lambda>_. since s [] (?E (?h (Suc k))) [(b, ?x)]) t"
      using k by (simp add: wp_def run)
  qed
  from wp_runD [OF this] obtain s3 where 3: "mfor [0..<n] (\<lambda>i. mbind (block_r i) (head_w b (Suc i))) s2 = Inr ((), s3)"
    "since s [] (?E (?h n)) [(b, ?x)] s3" by auto
  from wp_runD [OF bwrite_since [OF 3(2), of b ?x]] obtain s4 where 4: "bwrite b s3 = Inr ((), s4)" "since s [(?x, ?h n)] (?E (?h n)) [(b, ?x)] s4" by auto
  have "wp (brelse b) (\<lambda>_. since s [(?x, ?h n)] ((pin_of s P)(?x := \<lparr>e_data = ?h n, e_refs = 0, e_held = False\<rparr>)) []) s4"
    using brelse_since [OF 4(2), of b ?x] by simp
  from wp_runD [OF this] obtain s5 where 5: "brelse b s4 = Inr ((), s5)"
    "since s [(?x, ?h n)] ((pin_of s P)(?x := \<lparr>e_data = ?h n, e_refs = 0, e_held = False\<rparr>)) [] s5" by auto
  have "blk s5 = (blk s)(?x := ?h n)" using sinceD(2) [OF 5(2)] by (simp add: wrote_def)
  then have "cached s5 P \<and> wrote [(?x, ?h n)] s s5"
    using l(3) by (intro cachedI [OF 5(2) cachedD(2) [OF c]]) (auto simp: pin_of_def uncached_def split: option.splits)
  moreover have "lh_n s1 = int n" using wrote_log(4) [OF sinceD(2) [OF 1(2)]] n(1) by simp
  ultimately show ?thesis
    using l(1) 1(1) 2(1) 3(1) 4(1) 5(1) by (simp add: wp_def write_head_def mbind_def mget_def)
qed


section \<open>Loops over the log\<close>

text \<open>The block of the log for the \<open>i\<close>-th entry of the header.\<close>

definition slot :: "'s log_kern_scheme \<Rightarrow> nat \<Rightarrow> u32" where
  "slot s i = log_start s + of_nat i + 1"

lemma wrote_disk: "wrote ws s t \<Longrightarrow> on_disk t n \<longleftrightarrow> on_disk s n"
  by (simp add: wrote_def on_disk_def)

lemma wrote_slot: "wrote ws s t \<Longrightarrow> slot t i = slot s i"
  by (simp add: slot_def wrote_log(1))

lemma wrote_blk: "wrote ws s t \<Longrightarrow> blk t = upds (blk s) ws"
  by (simp add: wrote_def)

definition log_entries :: "'s log_kern_scheme \<Rightarrow> nat \<Rightarrow> bool" where
  "log_entries s n \<longleftrightarrow> log_dev s = ROOTDEV \<and> lh_n s = int n \<and> n \<le> length (lh_block s) \<and> n \<le> LOGSIZE \<and>
     (\<forall>i < n. on_disk s (slot s i) \<and> on_disk s (lh_block s ! i) \<and> (\<forall>j < n. slot s j \<noteq> lh_block s ! i))"

lemma log_entries_wrote: "wrote ws s t \<Longrightarrow> log_entries t n \<longleftrightarrow> log_entries s n"
  by (simp add: log_entries_def wrote_log wrote_disk wrote_slot)

lemma write_log_wp:
  assumes c: "cached s P" and l: "log_entries s n" and P: "\<And>i. i < n \<Longrightarrow> P (slot s i) = None \<and> P (lh_block s ! i) = Some (d i)"
  shows "wp write_log (\<lambda>_ t. cached t P \<and> wrote (map (\<lambda>i. (slot s i, d i)) [0..<n]) s t) s"
proof -
  have "wp (mfor [0..<n] write_log1) (\<lambda>_ t. cached t P \<and> wrote (map (\<lambda>i. (slot s i, d i)) [0..<length [0..<n]]) s t) s"
  proof (rule wp_mfor)
    show "cached s P \<and> wrote (map (\<lambda>i. (slot s i, d i)) [0..<0]) s s" using c by simp
    fix k t assume k: "k < length [0..<n]" and t: "cached t P \<and> wrote (map (\<lambda>i. (slot s i, d i)) [0..<k]) s t"
    then have w: "wrote (map (\<lambda>i. (slot s i, d i)) [0..<k]) s t" by simp
    have "wp (write_log1 k) (\<lambda>_ u. cached u P \<and> wrote [(slot s k, d k)] t u) t"
      using t k l P [of k] by (intro write_log1_wp [where y = "lh_block s ! k"]) (auto simp: log_entries_def wrote_log [OF w] wrote_disk [OF w] slot_def)
    then show "wp (write_log1 ([0..<n] ! k)) (\<lambda>_ u. cached u P \<and> wrote (map (\<lambda>i. (slot s i, d i)) [0..<Suc k]) s u) t"
      using k wrote_trans [OF w] by (auto elim: wp_mono)
  qed
  then show ?thesis using l by (simp add: write_log_def wps log_entries_def)
qed

lemma install_wp:
  assumes c: "cached s P" and l: "log_entries s n" and P: "\<And>i. i < n \<Longrightarrow> P (slot s i) = None"
    and r: "if rcv then P = Map.empty else distinct (take n (lh_block s)) \<and> (\<forall>i < n. lh_block s ! i \<in> dom P)"
  shows "wp (install_trans rcv) (\<lambda>_ t. cached t (P |` (- set (take n (lh_block s)))) \<and>
    wrote (map (\<lambda>i. (lh_block s ! i, blk s (slot s i))) [0..<n]) s t) s"
proof -
  let ?P = "\<lambda>k. P |` (- set (take k (lh_block s)))" and ?W = "\<lambda>k. map (\<lambda>i. (lh_block s ! i, blk s (slot s i))) [0..<k]"
  have len: "n \<le> length (lh_block s)" using l by (simp add: log_entries_def)
  have "wp (mfor [0..<n] (install1 rcv)) (\<lambda>_ t. cached t (?P (length [0..<n])) \<and> wrote (?W (length [0..<n])) s t) s"
  proof (rule wp_mfor)
    show "cached s (?P 0) \<and> wrote (?W 0) s s" using c by (simp add: restrict_map_def)
    fix k t assume k: "k < length [0..<n]" and t: "cached t (?P k) \<and> wrote (?W k) s t"
    then have w: "wrote (?W k) s t" and kn: "k < n" by simp_all
    have y: "?P k (lh_block s ! k) = P (lh_block s ! k)" if "\<not> rcv"
    proof -
      have "distinct (take n (lh_block s))" using r that by simp
      then have "lh_block s ! k \<notin> set (take k (lh_block s))"
        using kn len by (auto simp: distinct_conv_nth in_set_conv_nth)
      then show ?thesis by (simp add: restrict_map_def)
    qed
    have b: "blk t (slot s k) = blk s (slot s k)"
      unfolding wrote_blk [OF w] using l kn by (intro upds_other) (force simp: log_entries_def)
    have e: "(?P k)(lh_block s ! k := None) = ?P (Suc k)"
      using kn len by (auto simp: restrict_map_def fun_eq_iff take_Suc_conv_app_nth)
    have "wp (install1 rcv k) (\<lambda>_ u. cached u ((?P k)(lh_block s ! k := None)) \<and> wrote [(lh_block s ! k, blk t (slot s k))] t u) t"
      using t kn l P [of k] r y
      by (intro install1_wp) (auto simp: log_entries_def wrote_log [OF w] wrote_disk [OF w] slot_def restrict_map_def split: if_splits)
    then show "wp (install1 rcv ([0..<n] ! k)) (\<lambda>_ u. cached u (?P (Suc k)) \<and> wrote (?W (Suc k)) s u) t"
      unfolding e b using k wrote_trans [OF w] by (auto elim: wp_mono)
  qed
  then show ?thesis using l by (simp add: install_trans_def wps log_entries_def)
qed


section \<open>Reading the header\<close>

lemma cache_cong:
  assumes "bufs t = bufs s" and "vio t = vio s" and "kpid t = kpid s" and "bcache_lock t = bcache_lock s" and "drv_ok t = drv_ok s"
  shows "cache_ok t = cache_ok s" "ent t = ent s" "blk t = blk s" "handle t = handle s" "uncached t = uncached s"
proof -
  have nm: "names t = names s" using assms by (simp add: names_def fun_eq_iff)
  show b: "blk t = blk s" using assms by (simp add: blk_def fun_eq_iff)
  show "handle t = handle s" using assms by (simp add: handle_def nm fun_eq_iff)
  show u: "uncached t = uncached s" by (simp add: uncached_def b fun_eq_iff)
  have "entry_of t = entry_of s" using assms by (simp add: entry_of_def Let_def b fun_eq_iff)
  with u show "ent t = ent s" by (intro ext) (simp only: ent_def nm)
  show "cache_ok t = cache_ok s" using assms by (simp add: cache_ok_def nm buf_ok_def b)
qed

lemma log_upd_cache:
  "cache_ok (s\<lparr>lh_n := n, lh_block := bs\<rparr>) = cache_ok s" "ent (s\<lparr>lh_n := n, lh_block := bs\<rparr>) = ent s"
  "blk (s\<lparr>lh_n := n, lh_block := bs\<rparr>) = blk s" "handle (s\<lparr>lh_n := n, lh_block := bs\<rparr>) = handle s"
  by (intro cache_cong; simp add: drv_ok_def)+

lemma log_upd_only: "only_cache s t \<Longrightarrow> only_cache (s\<lparr>lh_n := n, lh_block := bs\<rparr>) (t\<lparr>lh_n := n, lh_block := bs\<rparr>)"
  by (elim only_cacheE) (simp add: only_cache_def)

lemma log_upd_since:
  "since s ws E hs t \<Longrightarrow> since (s\<lparr>lh_n := n, lh_block := bs\<rparr>) ws E hs (t\<lparr>lh_n := n, lh_block := bs\<rparr>)"
  using log_upd_only by (auto simp: since_def wrote_def log_upd_cache)

lemma log_upd_cached: "cached (s\<lparr>lh_n := n, lh_block := bs\<rparr>) P = cached s P"
  by (simp add: cached_def log_upd_cache pin_of_def uncached_def fun_eq_iff split: option.splits)

definition lh_loaded :: "'s log_kern_scheme \<Rightarrow> nat \<Rightarrow> u32 list" where
  "lh_loaded s k = map (\<lambda>i. hword (blk s (log_start s)) (Suc i)) [0..<k] @ drop k (lh_block s)"

lemma lh_loaded_Suc: "k < length (lh_block s) \<Longrightarrow> (lh_loaded s k)[k := hword (blk s (log_start s)) (Suc k)] = lh_loaded s (Suc k)"
  by (simp add: lh_loaded_def list_update_append Cons_nth_drop_Suc [symmetric])

lemma block_w_run: "k < length (lh_block t) \<Longrightarrow> block_w k w t = Inr ((), t\<lparr>lh_block := (lh_block t)[k := w]\<rparr>)"
  by (cases t) (simp add: block_w_def block_r_def run)

lemma read_head_wp:
  assumes c: "cached s P" and l: "log_dev s = ROOTDEV" "on_disk s (log_start s)" "P (log_start s) = None" "length (blk s (log_start s)) = BSIZE"
    and n: "hword (blk s (log_start s)) 0 = of_nat n" "n \<le> length (lh_block s)" "n \<le> LOGSIZE"
  shows "wp read_head (\<lambda>_ t. cached t P \<and> wrote [] (s\<lparr>lh_n := int n, lh_block := lh_loaded s n\<rparr>) t) s"
proof -
  let ?x = "log_start s" and ?D = "blk s (log_start s)" and ?s = "\<lambda>k. s\<lparr>lh_n := int n, lh_block := lh_loaded s k\<rparr>"
  let ?E = "(pin_of s P)(log_start s := \<lparr>e_data = blk s (log_start s), e_refs = 1, e_held = True\<rparr>)"
  have refs: "{k. e_refs (pin_of s P k) \<noteq> 0} = dom P" by (auto simp: pin_refs)
  have sn: "sint (of_nat n :: u32) = int n" using n(3) by (simp add: signed_of_nat signed_take_bit_int_eq_self)
  have "wp (bread ROOTDEV ?x) (\<lambda>b. since s [] ?E [(b, ?x)]) s"
    using bread_since [OF since_cached [OF c] l(2)] l(3) cachedD(2) [OF c] refs by (simp add: uncached_def)
  from wp_runD [OF this] obtain b s1 where 1: "bread ROOTDEV ?x s = Inr (b, s1)" "since s [] ?E [(b, ?x)] s1" by blast
  have h0: "head_r b 0 s1 = Inr (of_nat n, s1)" using head_r_since [OF 1(2), of b ?x 0] l(4) n(1) by simp
  have lb: "lh_loaded s 0 = lh_block s" "lh_block s1 = lh_block s" using wrote_log(5) [OF sinceD(2) [OF 1(2)]] by (simp_all add: lh_loaded_def)
  have 2: "since (?s 0) [] ?E [(b, ?x)] (s1\<lparr>lh_n := int n\<rparr>)"
    using log_upd_since [OF 1(2), where n = "int n" and bs = "lh_block s1"] by (simp add: lb(1) lb(2) [symmetric])
  let ?f = "\<lambda>i. mbind (head_r b (Suc i)) (block_w i)"
  have "wp (mfor [0..<n] ?f) (\<lambda>_. since (?s (length [0..<n])) [] ?E [(b, ?x)]) (s1\<lparr>lh_n := int n\<rparr>)"
  proof (rule wp_mfor [where I = "\<lambda>k. since (?s k) [] ?E [(b, ?x)]", OF 2])
    fix k t assume k: "k < length [0..<n]" and t: "since (?s k) [] ?E [(b, ?x)] t"
    have "head_r b (Suc k) t = Inr (hword ?D (Suc k), t)" using head_r_since [OF t, of b ?x "Suc k"] l(4) n k by simp
    moreover have lt: "lh_block t = lh_loaded s k" "int n = lh_n t" using wrote_log(4,5) [OF sinceD(2) [OF t]] by simp_all
    moreover have "since (?s (Suc k)) [] ?E [(b, ?x)] (t\<lparr>lh_block := lh_loaded s (Suc k)\<rparr>)"
      using log_upd_since [OF t, where n = "lh_n t" and bs = "lh_loaded s (Suc k)"] by (simp add: lt(2))
    moreover have "k < length (lh_loaded s k)" using k n by (simp add: lh_loaded_def)
    ultimately show "wp (?f ([0..<n] ! k)) (\<lambda>_. since (?s (Suc k)) [] ?E [(b, ?x)]) t"
      using k n lh_loaded_Suc [of k s] by (simp add: wp_def block_w_run run)
  qed
  from wp_runD [OF this] obtain s3 where 3: "mfor [0..<n] ?f (s1\<lparr>lh_n := int n\<rparr>) = Inr ((), s3)" "since (?s n) [] ?E [(b, ?x)] s3" by auto
  have "blk (?s n) = blk s" by (rule log_upd_cache)
  then have "wp (brelse b) (\<lambda>_. since (?s n) [] (pin_of s P) []) s3"
    using brelse_since [OF 3(2), of b ?x] l(3) by (simp add: uncached_def fun_upd_idem)
  from wp_runD [OF this] obtain s4 where 4: "brelse b s3 = Inr ((), s4)" "since (?s n) [] (pin_of s P) [] s4" by auto
  have "blk s4 = blk s" using sinceD(2) [OF 4(2)] by (simp add: wrote_def log_upd_cache)
  then have "cached s4 P \<and> wrote [] (?s n) s4"
    by (intro cachedI [OF 4(2) cachedD(2) [OF c]]) (simp add: pin_of_def uncached_def split: option.splits)
  then show ?thesis
    using l(1) 1(1) h0 sn 3(1) 4(1) by (simp add: wp_def read_head_def mbind_def mget_def mmod_def)
qed

end
