(* ===== verification/Xv6_Crash.thy ===== *)
theory Xv6_Crash
  imports Xv6_Log
begin

text \<open>
  What the log of \<open>guest/xv6/kernel/log.c\<close> is for: system calls that change several blocks are atomic, even
  when the machine stops in the middle. Recovery and commit as sequences of block writes, every prefix of a
  commit as the next start finds it, and the operations that a system call uses.
\<close>

section \<open>Recovery\<close>

lemma lh_n_upd_cache:
  "cached (s\<lparr>lh_n := n\<rparr>) P = cached s P" "blk (s\<lparr>lh_n := n\<rparr>) = blk s"
  using log_upd_cached [where s = s and n = n and bs = "lh_block s" and P = P] log_upd_cache(3) [where s = s and n = n and bs = "lh_block s"]
  by simp_all

lemma slot_neq_start: "i < LOGSIZE \<Longrightarrow> slot s i \<noteq> log_start s"
proof
  assume i: "i < LOGSIZE" and "slot s i = log_start s"
  then have "(of_nat (Suc i) :: u32) = 0" by (simp add: slot_def algebra_simps)
  then have "unat (of_nat (Suc i) :: u32) = 0" by (simp only: unsigned_0)
  then show False using i by (simp add: unat_of_nat del: of_nat_Suc)
qed

lemma only_cache_lh_n: "only_cache s t \<Longrightarrow> only_cache (s\<lparr>lh_n := n\<rparr>) (t\<lparr>lh_n := n\<rparr>)"
  by (elim only_cacheE) (simp add: only_cache_def)

lemma wrote_lh_n: "wrote ws s t \<Longrightarrow> wrote ws (s\<lparr>lh_n := n\<rparr>) (t\<lparr>lh_n := n\<rparr>)"
  using only_cache_lh_n by (auto simp: wrote_def lh_n_upd_cache)

definition head_of :: "'s log_kern_scheme \<Rightarrow> u8 list" where
  "head_of s = blk s (log_start s)"

text \<open>The log on the disk: where it is, and \<open>n\<close> blocks that are to be installed.\<close>

definition log_on_disk :: "'s log_kern_scheme \<Rightarrow> nat \<Rightarrow> bool" where
  "log_on_disk s n \<longleftrightarrow> log_dev s = ROOTDEV \<and> length (lh_block s) = LOGSIZE \<and> length (head_of s) = BSIZE \<and> on_disk s (log_start s) \<and>
     n \<le> LOGSIZE \<and> hword (head_of s) 0 = of_nat n \<and>
     (\<forall>i < n. on_disk s (slot s i) \<and> on_disk s (hword (head_of s) (Suc i)) \<and> hword (head_of s) (Suc i) \<noteq> log_start s \<and>
       (\<forall>j < n. slot s j \<noteq> hword (head_of s) (Suc i)))"

definition installs :: "'s log_kern_scheme \<Rightarrow> nat \<Rightarrow> (u32 \<times> u8 list) list" where
  "installs s n = map (\<lambda>i. (hword (head_of s) (Suc i), blk s (slot s i))) [0..<n]"

lemma recover_wp:
  assumes c: "cached s Map.empty" and l: "log_on_disk s n"
  shows "wp recover_from_log (\<lambda>_ t. cached t Map.empty \<and>
    wrote (installs s n @ [(log_start s, set_hword 0 0 (head_of s))]) (s\<lparr>lh_n := 0, lh_block := lh_loaded s n\<rparr>) t) s"
proof -
  let ?s = "s\<lparr>lh_n := int n, lh_block := lh_loaded s n\<rparr>"
  have d: "log_dev s = ROOTDEV" "length (lh_block s) = LOGSIZE" "length (blk s (log_start s)) = BSIZE" "on_disk s (log_start s)"
    "n \<le> LOGSIZE" "hword (blk s (log_start s)) 0 = of_nat n"
    using l by (simp_all add: log_on_disk_def head_of_def)
  have ld: "lh_loaded s n ! i = hword (head_of s) (Suc i)" if "i < n" for i using that by (simp add: lh_loaded_def head_of_def nth_append)
  have e: "log_entries ?s n"
    using l ld by (auto simp: log_entries_def log_on_disk_def slot_def on_disk_def lh_loaded_def)
  have b: "blk ?s = blk s" by (rule log_upd_cache)
  let ?W = "map (\<lambda>i. (lh_loaded s n ! i, blk s (slot s i))) [0..<n]"
  have W: "?W = installs s n" using ld by (simp add: installs_def)
  have 2: "wp (install_trans True) (\<lambda>_ u. cached u Map.empty \<and> wrote (installs s n) ?s u) t" if t: "cached t Map.empty" "wrote [] ?s t" for t
  proof -
    have f: "log_entries t n" using log_entries_wrote [OF t(2)] e by blast
    have "lh_block t = lh_loaded s n" "\<And>i. slot t i = slot s i" "blk t = blk s"
      using wrote_log [OF t(2)] wrote_slot [OF t(2)] wrote_blk [OF t(2)] b by (simp_all add: slot_def)
    with install_wp [OF t(1) f, of True] W have "wp (install_trans True) (\<lambda>_ u. cached u Map.empty \<and> wrote (installs s n) t u) t" by simp
    then show ?thesis using wrote_trans [OF t(2)] by (auto elim: wp_mono)
  qed
  have 3: "wp write_head (\<lambda>_ v. cached v Map.empty \<and>
      wrote (installs s n @ [(log_start s, set_hword 0 0 (head_of s))]) (s\<lparr>lh_n := 0, lh_block := lh_loaded s n\<rparr>) v) (u\<lparr>lh_n := 0\<rparr>)"
    if u: "cached u Map.empty" "wrote (installs s n) ?s u" for u
  proof -
    have f: "log_dev u = ROOTDEV" "log_start u = log_start s" "on_disk u (log_start s)" "blk u = upds (blk s) (installs s n)"
      using wrote_log [OF u(2)] wrote_disk [OF u(2)] wrote_blk [OF u(2)] b d by (simp_all add: on_disk_def)
    have h: "blk u (log_start s) = head_of s"
      unfolding f(4) head_of_def using l by (intro upds_other) (auto simp: installs_def log_on_disk_def)
    have "wp write_head (\<lambda>_ v. cached v Map.empty \<and> wrote [(log_start s, set_hword 0 0 (head_of s))] (u\<lparr>lh_n := 0\<rparr>) v) (u\<lparr>lh_n := 0\<rparr>)"
      using write_head_wp [of "u\<lparr>lh_n := 0\<rparr>" Map.empty 0] f h d u(1) by (simp add: lh_n_upd_cache on_disk_def head_of_def)
    moreover have "wrote (installs s n) (s\<lparr>lh_n := 0, lh_block := lh_loaded s n\<rparr>) (u\<lparr>lh_n := 0\<rparr>)"
    proof -
      have "?s\<lparr>lh_n := 0\<rparr> = s\<lparr>lh_n := 0, lh_block := lh_loaded s n\<rparr>" by (cases s) simp
      with wrote_lh_n [OF u(2), of 0] show ?thesis by (simp only:)
    qed
    ultimately show ?thesis
      using wrote_trans by (elim wp_mono) blast
  qed
  have "wp read_head (\<lambda>_ t. cached t Map.empty \<and> wrote [] ?s t) s"
    using d by (intro read_head_wp [OF c]) simp_all
  then show ?thesis
    unfolding recover_from_log_def wp_prims(5) wp_prims(4) using 2 3 by (elim wp_mono) (blast intro: wp_mono)
qed


section \<open>Commit\<close>

text \<open>The log is the header and the blocks after it, \<open>log_size\<close> blocks in all.\<close>

definition outside_log :: "'s log_kern_scheme \<Rightarrow> u32 \<Rightarrow> bool" where
  "outside_log s a \<longleftrightarrow> (\<forall>i. int i < log_size s \<longrightarrow> a \<noteq> log_start s + of_nat i)"

lemma outside_logD:
  assumes "outside_log s a"
  shows "0 < log_size s \<Longrightarrow> a \<noteq> log_start s" "int (Suc i) < log_size s \<Longrightarrow> a \<noteq> slot s i"
proof -
  have o: "a \<noteq> log_start s + of_nat i" if "int i < log_size s" for i using assms that by (simp add: outside_log_def)
  show "a \<noteq> log_start s" if "0 < log_size s" using o [of 0] that by simp
  show "a \<noteq> slot s i" if "int (Suc i) < log_size s" using o [OF that] by (simp add: slot_def algebra_simps)
qed

text \<open>
  The state of the log between system calls: \<open>n\<close> different blocks outside the log are to be written, these
  are pinned with the contents \<open>P\<close>, and the log on the disk is empty.
\<close>

definition log_ok :: "'s log_kern_scheme \<Rightarrow> nat \<Rightarrow> pins \<Rightarrow> bool" where
  "log_ok s n P \<longleftrightarrow> cached s P \<and> log_entries s n \<and> length (lh_block s) = LOGSIZE \<and> length (head_of s) = BSIZE \<and> on_disk s (log_start s) \<and>
     hword (head_of s) 0 = 0 \<and> dom P = set (take n (lh_block s)) \<and> distinct (take n (lh_block s)) \<and> (\<forall>i < n. outside_log s (lh_block s ! i)) \<and>
     int n < log_size s"

definition log_writes :: "'s log_kern_scheme \<Rightarrow> nat \<Rightarrow> pins \<Rightarrow> (u32 \<times> u8 list) list" where
  "log_writes s n P = map (\<lambda>i. (slot s i, the (P (lh_block s ! i)))) [0..<n]"

definition home_writes :: "'s log_kern_scheme \<Rightarrow> nat \<Rightarrow> pins \<Rightarrow> (u32 \<times> u8 list) list" where
  "home_writes s n P = map (\<lambda>i. (lh_block s ! i, the (P (lh_block s ! i)))) [0..<n]"

definition new_head :: "'s log_kern_scheme \<Rightarrow> nat \<Rightarrow> u8 list" where
  "new_head s n = head_upto n (of_nat n) (lh_block s) (head_of s)"

definition commit_writes :: "'s log_kern_scheme \<Rightarrow> nat \<Rightarrow> pins \<Rightarrow> (u32 \<times> u8 list) list" where
  "commit_writes s n P = log_writes s n P @ (log_start s, new_head s n) # home_writes s n P @ [(log_start s, set_hword 0 0 (new_head s n))]"

lemma slot_inj:
  assumes "i < LOGSIZE" and "j < LOGSIZE"
  shows "slot s i = slot s j \<longleftrightarrow> i = j"
proof
  assume "slot s i = slot s j"
  then have "unat (of_nat i :: u32) = unat (of_nat j :: u32)" by (simp add: slot_def)
  with assms show "i = j" by (simp add: unat_of_nat)
qed simp

lemma fst_writes [simp]:
  "fst ` set (log_writes s n P) = slot s ` {..<n}" "fst ` set (home_writes s n P) = (!) (lh_block s) ` {..<n}"
  by (force simp: log_writes_def home_writes_def)+

lemma start_notin_slots: "n \<le> LOGSIZE \<Longrightarrow> log_start s \<notin> slot s ` {..<n}"
proof (clarsimp)
  fix i assume "n \<le> LOGSIZE" "i < n" "log_start s = slot s i"
  then show False using slot_neq_start [of i s] by simp
qed

lemma log_okD:
  assumes "log_ok s n P"
  shows "cached s P" "log_entries s n" "n \<le> LOGSIZE" "length (lh_block s) = LOGSIZE" "length (head_of s) = BSIZE" "on_disk s (log_start s)"
    "hword (head_of s) 0 = 0" "dom P = set (take n (lh_block s))" "distinct (take n (lh_block s))" "P (log_start s) = None"
    "\<And>i. i < n \<Longrightarrow> P (slot s i) = None" "\<And>i. i < n \<Longrightarrow> lh_block s ! i \<in> dom P"
    "\<And>i. i < n \<Longrightarrow> lh_block s ! i \<noteq> log_start s" "\<And>i j. i < n \<Longrightarrow> j < n \<Longrightarrow> slot s j \<noteq> lh_block s ! i"
    "\<And>i. i < n \<Longrightarrow> outside_log s (lh_block s ! i)" "int n < log_size s"
proof -
  show d: "cached s P" "log_entries s n" "n \<le> LOGSIZE" "length (lh_block s) = LOGSIZE" "length (head_of s) = BSIZE" "on_disk s (log_start s)"
    "hword (head_of s) 0 = 0" "dom P = set (take n (lh_block s))" "distinct (take n (lh_block s))"
    and sl: "\<And>i j. i < n \<Longrightarrow> j < n \<Longrightarrow> slot s j \<noteq> lh_block s ! i"
    and out: "\<And>i. i < n \<Longrightarrow> outside_log s (lh_block s ! i)" "int n < log_size s"
    using assms by (simp_all add: log_ok_def log_entries_def)
  show st: "\<And>i. i < n \<Longrightarrow> lh_block s ! i \<noteq> log_start s" using out outside_logD(1) by force
  have dm: "a \<in> dom P \<longleftrightarrow> (\<exists>i < n. a = lh_block s ! i)" for a
    unfolding d(8) using d(3,4) by (auto simp: in_set_conv_nth)
  have "log_start s \<notin> dom P" using dm st by force
  then show "P (log_start s) = None" by blast
  show "P (slot s i) = None" if "i < n" for i
  proof -
    have "slot s i \<notin> dom P" using dm sl that by metis
    then show ?thesis by blast
  qed
  show "lh_block s ! i \<in> dom P" if "i < n" for i using dm that by blast
qed

lemma upds_slots:
  assumes "n \<le> LOGSIZE" and "i < n"
  shows "upds D (log_writes s n P) (slot s i) = the (P (lh_block s ! i))"
proof (rule upds_in)
  show "distinct (map fst (log_writes s n P))"
    using assms(1) slot_inj [of _ _ s] by (auto simp: log_writes_def distinct_map inj_on_def)
  show "(slot s i, the (P (lh_block s ! i))) \<in> set (log_writes s n P)" using assms(2) by (auto simp: log_writes_def)
qed

lemma commit_wp:
  assumes ok: "log_ok s n P" and n: "0 < n"
  shows "wp commit (\<lambda>_ t. only_cache (s\<lparr>lh_n := 0\<rparr>) t \<and> cached t Map.empty \<and> lh_n t = 0 \<and> v_nblocks (vio t) = v_nblocks (vio s) \<and> blk t = upds (blk s) (commit_writes s n P) \<and>
    v_hist (vio t) = rev (map (\<lambda>(a, x). (ucast a, x)) (commit_writes s n P)) @ v_hist (vio s)) s"
proof -
  note d = log_okD [OF ok]
  let ?W1 = "log_writes s n P" and ?h = "(log_start s, new_head s n)" and ?W2 = "home_writes s n P" and ?h2 = "(log_start s, set_hword 0 0 (new_head s n))"
  have l: "log_dev s = ROOTDEV" "lh_n s = int n" using d(2) by (simp_all add: log_entries_def)
  have home: "log_start s \<notin> (!) (lh_block s) ` {..<n}" using d(13) by force
  have 1: "wp write_log (\<lambda>_ t. cached t P \<and> wrote ?W1 s t) s"
    unfolding log_writes_def using d(11) d(12) [unfolded domIff] by (intro write_log_wp [OF d(1,2)]) simp
  have 2: "wp write_head (\<lambda>_ u. cached u P \<and> wrote (?W1 @ [?h]) s u) t" if t: "cached t P" "wrote ?W1 s t" for t
  proof -
    have h: "blk t (log_start s) = head_of s"
      unfolding wrote_blk [OF t(2)] head_of_def using start_notin_slots [OF d(3), of s] by (intro upds_other) simp
    then have "wp write_head (\<lambda>_ u. cached u P \<and> wrote [?h] t u) t"
      using write_head_wp [OF t(1), of n] l d(3-6,10) wrote_log [OF t(2)] wrote_disk [OF t(2)] by (simp add: new_head_def)
    then show ?thesis using wrote_trans [OF t(2)] by (auto elim: wp_mono)
  qed
  have 3: "wp (install_trans False) (\<lambda>_ v. cached v Map.empty \<and> wrote (?W1 @ ?h # ?W2) s v) u" if u: "cached u P" "wrote (?W1 @ [?h]) s u" for u
  proof -
    note f = wrote_log [OF u(2)] wrote_slot [OF u(2)]
    have "blk u (slot s i) = the (P (lh_block s ! i))" if "i < n" for i
      unfolding wrote_blk [OF u(2)] using upds_slots [OF d(3) that] slot_neq_start [of i s] that d(3) by simp
    then have "map (\<lambda>i. (lh_block s ! i, blk u (slot s i))) [0..<n] = ?W2" by (simp add: home_writes_def)
    moreover have "P |` (- set (take n (lh_block s))) = Map.empty" unfolding d(8) [symmetric] by (auto simp: restrict_map_def fun_eq_iff)
    moreover have "log_entries u n" using log_entries_wrote [OF u(2)] d(2) by blast
    ultimately have "wp (install_trans False) (\<lambda>_ v. cached v Map.empty \<and> wrote ?W2 u v) u"
      using install_wp [OF u(1), of n False] d(9,11,12) f by simp
    then show ?thesis using wrote_trans [OF u(2)] by (auto elim: wp_mono)
  qed
  have 4: "wp write_head (\<lambda>_ w. only_cache (s\<lparr>lh_n := 0\<rparr>) w \<and> cached w Map.empty \<and> lh_n w = 0 \<and> v_nblocks (vio w) = v_nblocks (vio s) \<and> blk w = upds (blk s) (commit_writes s n P) \<and>
      v_hist (vio w) = rev (map (\<lambda>(a, x). (ucast a, x)) (commit_writes s n P)) @ v_hist (vio s)) (v\<lparr>lh_n := 0\<rparr>)"
    if v: "cached v Map.empty" "wrote (?W1 @ ?h # ?W2) s v" for v
  proof -
    have h: "blk v (log_start s) = new_head s n"
      unfolding wrote_blk [OF v(2)] using home by (simp add: upds_other)
    then have "wp write_head (\<lambda>_ w. cached w Map.empty \<and> wrote [?h2] (v\<lparr>lh_n := 0\<rparr>) w) (v\<lparr>lh_n := 0\<rparr>)"
      using write_head_wp [of "v\<lparr>lh_n := 0\<rparr>" Map.empty 0] l d(5,6) v(1) wrote_log [OF v(2)] wrote_disk [OF v(2)]
      by (simp add: lh_n_upd_cache on_disk_def new_head_def)
    moreover have "lh_n w = 0" if "wrote [?h2] (v\<lparr>lh_n := 0\<rparr>) w" for w using wrote_log(4) [OF that] by simp
    moreover have "only_cache (s\<lparr>lh_n := 0\<rparr>) (v\<lparr>lh_n := 0\<rparr>)" using v(2) only_cache_lh_n by (auto simp: wrote_def)
    ultimately show ?thesis
      using v(2) only_cache_trans by (elim wp_mono) (auto simp: wrote_def commit_writes_def lh_n_upd_cache)
  qed
  have "wp (mthen write_log (mthen write_head (mthen (install_trans False) (mthen (mmod (lh_n_update (\<lambda>_. 0))) write_head))))
      (\<lambda>_ t. only_cache (s\<lparr>lh_n := 0\<rparr>) t \<and> cached t Map.empty \<and> lh_n t = 0 \<and> v_nblocks (vio t) = v_nblocks (vio s) \<and> blk t = upds (blk s) (commit_writes s n P) \<and>
      v_hist (vio t) = rev (map (\<lambda>(a, x). (ucast a, x)) (commit_writes s n P)) @ v_hist (vio s)) s"
    unfolding wp_prims(4,5) using 1 2 3 4 by (elim wp_mono) (blast intro: wp_mono)
  then show ?thesis using l(2) n by (simp add: commit_def wp_prims)
qed


section \<open>Crashes\<close>

text \<open>A kernel before its start, with the variables of the log zero as well.\<close>

definition zeroed :: "'s log_kern_scheme \<Rightarrow> bool" where
  "zeroed u \<longleftrightarrow> booted u \<and> length (lh_block u) = LOGSIZE \<and> outstanding u = 0 \<and> \<not> committing u"

text \<open>
  The start as far as the disk is concerned: \<open>main\<close> calls \<open>binit\<close> and \<open>virtio_disk_init\<close>, and the first
  process calls \<open>initlog\<close> from \<open>fsinit\<close>.
\<close>

abbreviation restart :: "u32 \<Rightarrow> superblock \<Rightarrow> ('s, unit) lcomp" where
  "restart pfn sb \<equiv> mthen (mthen binit (virtio_disk_init pfn)) (initlog ROOTDEV sb)"

text \<open>A log that is empty, in memory and on the disk, with no system call running.\<close>

definition log_ready :: "'s log_kern_scheme \<Rightarrow> bool" where
  "log_ready t \<longleftrightarrow> log_ok t 0 Map.empty \<and> log_lock t = initlock \<and> outstanding t = 0 \<and> \<not> committing t"

lemma log_readyI:
  assumes "cached t Map.empty" and "length H = BSIZE" and "head_of t = set_hword 0 0 H" and "log_dev t = ROOTDEV" and "lh_n t = 0"
    and "length (lh_block t) = LOGSIZE" and "on_disk t (log_start t)" and "0 < log_size t" and "log_lock t = initlock" and "outstanding t = 0"
    and "\<not> committing t"
  shows "log_ready t"
  using assms by (simp add: log_ready_def log_ok_def log_entries_def hword_same)

lemma boot_wp:
  assumes b: "zeroed u" and l: "log_on_disk (u\<lparr>log_start := sb_logstart sb, log_dev := ROOTDEV\<rparr>) n" and sz: "0 < sint (sb_nlog sb)"
  defines "u0 \<equiv> u\<lparr>log_start := sb_logstart sb, log_dev := ROOTDEV\<rparr>"
  shows "wp (restart pfn sb) (\<lambda>_ t. log_ready t \<and> log_start t = sb_logstart sb \<and> log_size t = sint (sb_nlog sb) \<and>
    v_nblocks (vio t) = v_nblocks (vio u) \<and> blk t = upds (blk u) (installs u0 n @ [(sb_logstart sb, set_hword 0 0 (head_of u0))])) u"
proof -
  have z: "booted u" "outstanding u = 0" "\<not> committing u" using b by (simp_all add: zeroed_def)
  obtain bs ws where bs: "mthen binit (virtio_disk_init pfn) u = Inr ((), started bs ws u)" "cache_ok (started bs ws u)"
    "ent (started bs ws u) = uncached u"
    by (rule started_cache_ok [OF z(1)])
  let ?u = "started bs ws u"
  let ?t = "?u\<lparr>log_lock := initlock, log_start := sb_logstart sb, log_size := sint (sb_nlog sb), log_dev := ROOTDEV\<rparr>"
  let ?W = "installs u0 n @ [(sb_logstart sb, set_hword 0 0 (head_of u0))]"
  have c: "cache_ok ?t = cache_ok ?u" "ent ?t = ent ?u" "blk ?t = blk ?u" "uncached ?t = uncached ?u"
    by (intro cache_cong; simp add: drv_ok_def)+
  have bu: "uncached ?u = uncached u" by (simp add: uncached_def fun_eq_iff)
  have e: "cached ?t Map.empty" using bs(2,3) c bu by (simp add: cached_def pin_of_def fun_eq_iff)
  have h: "head_of ?t = head_of u0" "slot ?t = slot u0" "blk ?t = blk u" "blk u0 = blk u"
    using c(3) by (simp_all add: head_of_def u0_def blk_def slot_def fun_eq_iff)
  have st: "lh_block ?t = lh_block u" "outstanding ?t = 0" "\<not> committing ?t" using z by (simp_all add: started_def)
  have l2: "log_on_disk ?t n" using l h st by (simp add: log_on_disk_def on_disk_def u0_def [symmetric]) (simp add: u0_def on_disk_def)
  have i: "installs ?t n = installs u0 n" using h by (simp add: installs_def)
  have "wp recover_from_log (\<lambda>_ t. log_ready t \<and> log_start t = sb_logstart sb \<and> log_size t = sint (sb_nlog sb) \<and>
      v_nblocks (vio t) = v_nblocks (vio u) \<and> blk t = upds (blk u) ?W) ?t"
  proof (rule wp_mono [OF recover_wp [OF e l2]], elim conjE)
    fix v
    assume v: "cached v Map.empty" "wrote (installs ?t n @ [(log_start ?t, set_hword 0 0 (head_of ?t))]) (?t\<lparr>lh_n := 0, lh_block := lh_loaded ?t n\<rparr>) v"
    note f = wrote_log [OF v(2)] wrote_disk [OF v(2)] wrote_blk [OF v(2)]
    have "v_nblocks (vio v) = v_nblocks (vio u)" using v(2) by (simp add: wrote_def)
    moreover have bv: "blk v = upds (blk u) ?W" using f(10) h i by (simp add: log_upd_cache)
    moreover have "log_ready v"
    proof (rule log_readyI [OF v(1)])
      show "length (head_of u0) = BSIZE" using l by (simp add: log_on_disk_def u0_def)
      show "head_of v = set_hword 0 0 (head_of u0)" using bv f(1) by (simp add: head_of_def)
      show "length (lh_block v) = LOGSIZE" using f(5) l2 by (simp add: lh_loaded_def log_on_disk_def)
      show "on_disk v (log_start v)" using f(1,9) l2 by (simp add: log_on_disk_def on_disk_def)
    qed (use f st sz in simp_all)
    ultimately show "log_ready v \<and> log_start v = sb_logstart sb \<and> log_size v = sint (sb_nlog sb) \<and>
      v_nblocks (vio v) = v_nblocks (vio u) \<and> blk v = upds (blk u) ?W" using f by simp
  qed
  moreover have "restart pfn sb u = recover_from_log ?t"
    unfolding mbind_run [where m = "mthen binit (virtio_disk_init pfn)", OF bs(1)] by (simp add: initlog_def run)
  ultimately show ?thesis by (simp add: wp_def)
qed

text \<open>
  A machine that starts again after a crash: the variables are zero, and the disk is what it was in the
  state \<open>s\<close>, with the blocks \<open>ws\<close> written.
\<close>

definition crashed :: "'s log_kern_scheme \<Rightarrow> (u64 \<times> u8 list) list \<Rightarrow> 's log_kern_scheme \<Rightarrow> bool" where
  "crashed s ws u \<longleftrightarrow> zeroed u \<and> v_nblocks (vio u) = v_nblocks (vio s) \<and>
     v_blocks (vio u) = foldl (\<lambda>D (a, x). D(a := x)) (v_blocks (vio s)) ws"

lemma foldl_blocks:
  "foldl (\<lambda>D (a, x). D(a := x)) D (map (\<lambda>(a, x). (ucast (a :: u32) :: u64, x)) ws) (ucast n) = upds (\<lambda>n. D (ucast n)) ws n"
proof (induction ws arbitrary: D)
  case (Cons w ws)
  obtain a x where w: "w = (a, x)" by (cases w)
  have "(\<lambda>n. (D(ucast a := x)) (ucast n)) = (\<lambda>n :: u32. D (ucast n))(a := x)" by (auto simp: fun_eq_iff ucast32_inj)
  with Cons w show ?case by simp
qed simp

lemma crashed_blk: "crashed s (map (\<lambda>(a, x). (ucast a, x)) ws) u \<Longrightarrow> blk u = upds (blk s) ws"
proof
  fix n assume "crashed s (map (\<lambda>(a, x). (ucast a, x)) ws) u"
  moreover have "blk s = (\<lambda>n. v_blocks (vio s) (ucast n))" by (simp add: blk_def fun_eq_iff)
  ultimately show "blk u n = upds (blk s) ws n" by (simp add: crashed_def blk_def foldl_blocks)
qed

lemma home_final:
  assumes ok: "log_ok s n P" and a: "outside_log s a" and X: "a \<notin> dom P \<Longrightarrow> X a = blk s a"
  shows "upds X (home_writes s n P) a = e_data (ent s a)"
proof -
  note d = log_okD [OF ok]
  have e: "ent s a = pin_of s P a" using cachedD(3) [OF d(1)] by simp
  have h: "a \<in> dom P \<longleftrightarrow> a \<in> (!) (lh_block s) ` {..<n}" unfolding d(8) using d(3,4) by (auto simp: in_set_conv_nth)
  show ?thesis
  proof (cases "a \<in> dom P")
    case True
    then obtain i where i: "i < n" "a = lh_block s ! i" using h by auto
    have "distinct (map fst (home_writes s n P))"
      using d(3,4,9) by (auto simp: home_writes_def distinct_map inj_on_def distinct_conv_nth)
    moreover have "(a, the (P a)) \<in> set (home_writes s n P)" using i by (auto simp: home_writes_def)
    ultimately have "upds X (home_writes s n P) a = the (P a)" by (rule upds_in)
    with True e show ?thesis by auto
  next
    case False
    then have "upds X (home_writes s n P) a = X a" using h by (intro upds_other) simp
    with False X e show ?thesis by (simp add: domIff)
  qed
qed

lemma outside_slots:
  assumes "outside_log s a" and "log_ok s n P"
  shows "a \<notin> slot s ` {..<n}" and "a \<noteq> log_start s"
proof -
  have n: "int n < log_size s" using log_okD(16) [OF assms(2)] .
  show "a \<noteq> log_start s" using outside_logD(1) [OF assms(1)] n by simp
  have "a \<noteq> slot s i" if "i < n" for i using outside_logD(2) [OF assms(1), of i] n that by simp
  then show "a \<notin> slot s ` {..<n}" by blast
qed

text \<open>The fields of the superblock that say where the log is.\<close>

definition sb_log :: "superblock \<Rightarrow> 's log_kern_scheme \<Rightarrow> bool" where
  "sb_log sb s \<longleftrightarrow> sb_logstart sb = log_start s \<and> sint (sb_nlog sb) = log_size s"

text \<open>The three stages of a commit, as the next start finds them.\<close>

lemma recover_before:
  assumes ok: "log_ok s n P" and k: "k \<le> n" and u: "zeroed u" "v_nblocks (vio u) = v_nblocks (vio s)"
    "blk u = upds (blk s) (take k (log_writes s n P))" and sb: "sb_log sb s"
  shows "wp (restart pfn sb) (\<lambda>_ v. log_ready v \<and> (\<forall>a. outside_log s a \<longrightarrow> blk v a = blk s a)) u"
proof -
  note d = log_okD [OF ok]
  have lh: "length (lh_block u) = LOGSIZE" "0 < sint (sb_nlog sb)" and st: "sb_logstart sb = log_start s"
    using u(1) sb d(16) by (simp_all add: zeroed_def sb_log_def)
  have sub: "fst ` set (take k (log_writes s n P)) \<subseteq> slot s ` {..<n}"
    unfolding fst_writes(1) [of s n P, symmetric] by (intro image_mono set_take_subset)
  let ?u = "u\<lparr>log_start := log_start s, log_dev := ROOTDEV\<rparr>"
  have "head_of ?u = blk u (log_start s)" by (simp add: head_of_def blk_def)
  also have "\<dots> = head_of s" unfolding u(3) head_of_def using sub start_notin_slots [OF d(3), of s] by (intro upds_other) blast
  finally have "log_on_disk ?u 0" using d lh u(2) by (simp add: log_on_disk_def on_disk_def)
  moreover have "upds (blk s) (take k (log_writes s n P)) a = blk s a" if "outside_log s a" for a
    using outside_slots [OF that ok] sub by (intro upds_other) blast
  ultimately show ?thesis
    using wp_mono [OF boot_wp [OF u(1), of sb 0, unfolded st, OF _ lh(2)]] u(3) outside_slots(2) [OF _ ok] by (simp add: installs_def)
qed


lemma new_head_words:
  assumes "log_ok s n P"
  shows "hword (new_head s n) 0 = of_nat n" "i < n \<Longrightarrow> hword (new_head s n) (Suc i) = lh_block s ! i" "length (new_head s n) = BSIZE"
  using log_okD(3,5) [OF assms] head_upto_hword [of n "head_of s"] by (simp_all add: new_head_def)

lemma recover_within:
  assumes ok: "log_ok s n P" and u: "zeroed u" "v_nblocks (vio u) = v_nblocks (vio s)"
    "blk u = upds (blk s) (log_writes s n P @ (log_start s, new_head s n) # take j (home_writes s n P))" and sb: "sb_log sb s"
  shows "wp (restart pfn sb) (\<lambda>_ v. log_ready v \<and> (\<forall>a. outside_log s a \<longrightarrow> blk v a = e_data (ent s a))) u"
proof -
  note d = log_okD [OF ok] and w = new_head_words [OF ok]
  have lh: "length (lh_block u) = LOGSIZE" "0 < sint (sb_nlog sb)" and st: "sb_logstart sb = log_start s"
    using u(1) sb d(16) by (simp_all add: zeroed_def sb_log_def)
  have sub: "fst ` set (take j (home_writes s n P)) \<subseteq> (!) (lh_block s) ` {..<n}"
    unfolding fst_writes(2) [of s n P, symmetric] by (intro image_mono set_take_subset)
  let ?u = "u\<lparr>log_start := log_start s, log_dev := ROOTDEV\<rparr>"
  have "log_start s \<notin> fst ` set (take j (home_writes s n P))" using sub d(13) by force
  then have "blk u (log_start s) = new_head s n" unfolding u(3) by (simp add: upds_other)
  then have hd: "head_of ?u = new_head s n" by (simp add: head_of_def blk_def)
  have sl: "slot ?u = slot s" by (simp add: slot_def fun_eq_iff)
  have "on_disk s (slot s i) \<and> on_disk s (lh_block s ! i)" if "i < n" for i using d(2) that by (simp add: log_entries_def)
  then have l: "log_on_disk ?u n"
    using d(3,6,13,14) lh u(2) w by (simp add: log_on_disk_def on_disk_def hd sl)
  have "blk u (slot s i) = the (P (lh_block s ! i))" if i: "i < n" for i
  proof -
    have "slot s i \<notin> fst ` set (take j (home_writes s n P))" using sub d(14) i by force
    then show ?thesis
      unfolding u(3) using upds_slots [OF d(3) i, of "blk s" s P] slot_neq_start [of i s] i d(3) by (simp add: upds_other)
  qed
  then have inst: "installs ?u n = home_writes s n P"
    using w(2) by (simp add: installs_def home_writes_def hd sl blk_def)
  have "upds (blk u) (home_writes s n P) a = e_data (ent s a)" if a: "outside_log s a" for a
  proof (rule home_final [OF ok a])
    assume "a \<notin> dom P"
    then have "a \<notin> (!) (lh_block s) ` {..<n}" using d(12) by auto
    then have "a \<notin> fst ` set (take j (home_writes s n P))" "a \<notin> slot s ` {..<n}" "a \<noteq> log_start s"
      using sub a outside_slots [OF a ok] by auto
    then show "blk u a = blk s a" unfolding u(3) by (simp add: upds_other)
  qed
  then show ?thesis
    using wp_mono [OF boot_wp [OF u(1), of sb, unfolded st, OF l lh(2)]] outside_slots(2) [OF _ ok] by (simp add: inst)
qed

lemma commit_home:
  assumes ok: "log_ok s n P" and a: "outside_log s a"
  shows "upds (blk s) (commit_writes s n P) a = e_data (ent s a)"
proof -
  have "a \<notin> slot s ` {..<n}" "a \<noteq> log_start s" using outside_slots [OF a ok] by simp_all
  then show ?thesis
    unfolding commit_writes_def
    using home_final [OF ok a, of "(upds (blk s) (log_writes s n P))(log_start s := new_head s n)"] by (simp add: upds_other)
qed

lemma recover_after:
  assumes ok: "log_ok s n P" and u: "zeroed u" "v_nblocks (vio u) = v_nblocks (vio s)"
    "blk u = upds (blk s) (commit_writes s n P)" and sb: "sb_log sb s"
  shows "wp (restart pfn sb) (\<lambda>_ v. log_ready v \<and> (\<forall>a. outside_log s a \<longrightarrow> blk v a = e_data (ent s a))) u"
proof -
  note d = log_okD [OF ok] and w = new_head_words [OF ok]
  have lh: "length (lh_block u) = LOGSIZE" "0 < sint (sb_nlog sb)" and st: "sb_logstart sb = log_start s"
    using u(1) sb d(16) by (simp_all add: zeroed_def sb_log_def)
  let ?u = "u\<lparr>log_start := log_start s, log_dev := ROOTDEV\<rparr>"
  have "blk u (log_start s) = set_hword 0 0 (new_head s n)" by (simp add: u(3) commit_writes_def)
  then have "head_of ?u = set_hword 0 0 (new_head s n)" by (simp add: head_of_def blk_def)
  then have l: "log_on_disk ?u 0" using d(6) lh u(2) w(3) by (simp add: log_on_disk_def on_disk_def hword_same)
  have "blk u a = e_data (ent s a)" if "outside_log s a" for a
    unfolding u(3) using commit_home [OF ok that] .
  then show ?thesis
    using wp_mono [OF boot_wp [OF u(1), of sb, unfolded st, OF l lh(2)]] outside_slots(2) [OF _ ok] by (simp add: installs_def)
qed


lemma commit_prefix:
  assumes ok: "log_ok s n P" and k: "k \<le> 2 * n + 2"
    and u: "crashed s (map (\<lambda>(a, x). (ucast a, x)) (take k (commit_writes s n P))) u" and sb: "sb_log sb s"
  shows "wp (restart pfn sb) (\<lambda>_ v. log_ready v \<and>
    (\<forall>a. outside_log s a \<longrightarrow> blk v a = (if k \<le> n then blk s a else e_data (ent s a)))) u"
proof -
  have v: "zeroed u" "v_nblocks (vio u) = v_nblocks (vio s)" using u by (simp_all add: crashed_def)
  note b = crashed_blk [OF u]
  have len: "length (log_writes s n P) = n" "length (home_writes s n P) = n" by (simp_all add: log_writes_def home_writes_def)
  consider "k \<le> n" | "n < k" "k \<le> 2 * n + 1" | "n < k" "k = 2 * n + 2" using k by linarith
  then show ?thesis
  proof cases
    case 1
    then have "take k (commit_writes s n P) = take k (log_writes s n P)" by (simp add: commit_writes_def len)
    then show ?thesis using recover_before [OF ok 1 v _ sb] b 1 by simp
  next
    case 2
    then obtain j where j: "k - n = Suc j" "j \<le> n" by (cases "k - n") auto
    then have "take k (commit_writes s n P) = log_writes s n P @ (log_start s, new_head s n) # take j (home_writes s n P)"
      using 2 by (simp add: commit_writes_def len)
    then show ?thesis using recover_within [OF ok v _ sb, of j] b 2 by simp
  next
    case 3
    then have "take k (commit_writes s n P) = commit_writes s n P" by (simp add: commit_writes_def len)
    then show ?thesis using recover_after [OF ok v _ sb] b 3 by simp
  qed
qed

section \<open>Transactions\<close>

interpretation loglock: kernel_spinlock log_lock log_lock_update "\<lambda>_. True"
  by unfold_locales simp_all

lemma lock_log_run:
  "log_lock s = initlock \<Longrightarrow> lock_log s = Inr ((), s\<lparr>kcpu := push_off1 (kcpu s), log_lock := held (kcpu s)\<rparr>)"
  using loglock.acquire_run [of s] by simp

lemma unlock_log_run:
  assumes "cpu_ok c" and "kcpu s = push_off1 c" and "log_lock s = held c"
  shows "unlock_log s = Inr ((), s\<lparr>kcpu := c, log_lock := initlock\<rparr>)"
  using assms cpu_ok_noff [OF assms(1)] loglock.release_run [of s] by simp

lemma only_cache_upd:
  "only_cache s t \<Longrightarrow> only_cache (s\<lparr>kcpu := c, log_lock := l, lh_n := n, lh_block := bs\<rparr>) (t\<lparr>kcpu := c, log_lock := l, lh_n := n, lh_block := bs\<rparr>)"
  by (elim only_cacheE) (simp add: only_cache_def)

lemma position_less: "x \<in> set xs \<Longrightarrow> length (takeWhile (\<lambda>c. c \<noteq> x) xs) < length xs"
  by (induction xs) auto

lemma since_upd:
  assumes s: "since s ws E hs t" and c: "cpu_ok c"
  shows "since (s\<lparr>kcpu := c, log_lock := l, lh_n := n, lh_block := bs\<rparr>) ws E hs (t\<lparr>kcpu := c, log_lock := l, lh_n := n, lh_block := bs\<rparr>)"
proof -
  let ?f = "\<lambda>s. s\<lparr>kcpu := c, log_lock := l, lh_n := n, lh_block := bs\<rparr>"
  note d = sinceD(1-3) [OF s]
  have dr: "drv_ok (?f t) = drv_ok t" using c cache_okD(9) [OF d(1)] by (simp add: drv_ok_def)
  have "cache_ok (?f t) = cache_ok t" "ent (?f t) = ent t" "handle (?f t) = handle t" "blk (?f t) = blk t"
    using dr by (intro cache_cong; simp)+
  moreover have "only_cache (?f s) (?f t)" using d(2) unfolding wrote_def by (intro only_cache_upd) simp
  moreover have "blk (?f s) = blk s" by (simp add: blk_def fun_eq_iff)
  ultimately show ?thesis using s d(2) by (simp add: since_def wrote_def)
qed

lemma log_write_absorbs:
  assumes t: "log_lock t = initlock" "cpu_ok (kcpu t)" "lh_n t = int n" "n < LOGSIZE" "int n < log_size t - 1" "1 \<le> outstanding t"
    and b: "b < length (bufs t)" "b_blockno (bufs t ! b) \<in> set (take n (lh_block t))" "n \<le> length (lh_block t)"
  shows "log_write b t = Inr ((), t)"
proof -
  let ?a = "b_blockno (bufs t ! b)" and ?bs = "lh_block t"
  define i where "i = length (takeWhile (\<lambda>c. c \<noteq> b_blockno (bufs t ! b)) (take n (lh_block t)))"
  have i: "i < n" "?bs ! i = ?a"
  proof -
    show "i < n" unfolding i_def using position_less [OF b(2)] b(3) by simp
    then have "take n ?bs ! i = ?a" unfolding i_def using nth_length_takeWhile [of "\<lambda>c. c \<noteq> ?a" "take n ?bs"] b(3) by simp
    then show "?bs ! i = ?a" using \<open>i < n\<close> by simp
  qed
  have same: "?bs[i := ?a] = ?bs" using i(2) list_update_id by metis
  have "unlock_log (t\<lparr>kcpu := push_off1 (kcpu t), log_lock := held (kcpu t)\<rparr>) = Inr ((), t)"
    using t(1,2) unlock_log_run [of "kcpu t" "t\<lparr>kcpu := push_off1 (kcpu t), log_lock := held (kcpu t)\<rparr>"] by (cases t) simp
  moreover have "block_w i ?a (t\<lparr>kcpu := push_off1 (kcpu t), log_lock := held (kcpu t)\<rparr>) = Inr ((), t\<lparr>kcpu := push_off1 (kcpu t), log_lock := held (kcpu t)\<rparr>)"
    using i b(3) same by (subst block_w_run) simp_all
  ultimately show ?thesis
    using t b(1) i(1) lock_log_run [OF t(1)] by (simp add: log_write_def run i_def [symmetric])
qed

lemma log_write_adds:
  assumes t: "since s ws E hs t" "(b, a) \<in> set hs" "e_refs (E a) \<noteq> -1"
    and s: "log_lock s = initlock" "cpu_ok (kcpu s)" "lh_n s = int n" "n < LOGSIZE" "int n < log_size s - 1" "1 \<le> outstanding s"
    and a: "a \<notin> set (take n (lh_block s))" "length (lh_block s) = LOGSIZE"
  shows "wp (log_write b) (\<lambda>_. since (s\<lparr>lh_n := int (Suc n), lh_block := (lh_block s)[n := a]\<rparr>) ws
    (E(a := (E a)\<lparr>e_refs := e_refs (E a) + 1\<rparr>)) hs) t"
proof -
  let ?c = "push_off1 (kcpu s)" and ?l = "held (kcpu s)" and ?bs = "(lh_block s)[n := a]"
  note d = sinceD(1,2) [OF t(1)]
  note f = wrote_log [OF d(2)]
  have k: "kcpu t = kcpu s" using d(2) only_cache_fields(1) [of s t] by (simp add: wrote_def)
  note H = handleD [OF d(1) sinceD(4) [OF t(1,2)]]
  have "takeWhile (\<lambda>c. c \<noteq> a) (take n (lh_block s)) = take n (lh_block s)"
    using a(1) by (simp add: takeWhile_eq_all_conv) blast
  from arg_cong [OF this, of length] have i: "length (takeWhile (\<lambda>c. c \<noteq> a) (take n (lh_block s))) = n"
    using a(2) s(4) by (simp del: takeWhile_eq_all_conv)
  let ?t = "t\<lparr>kcpu := ?c, log_lock := ?l, lh_n := int n, lh_block := ?bs\<rparr>"
  let ?s = "s\<lparr>kcpu := ?c, log_lock := ?l, lh_n := int n, lh_block := ?bs\<rparr>"
  have "since ?s ws E hs ?t" using s(2) by (intro since_upd [OF t(1)]) simp
  from wp_runD [OF bpin_since [OF this t(2,3)]] obtain u where
    u: "bpin b ?t = Inr ((), u)" "since ?s ws (E(a := (E a)\<lparr>e_refs := e_refs (E a) + 1\<rparr>)) hs u" by auto
  have v: "kcpu u = ?c" "log_lock u = ?l" "lh_n u = int n" "lh_block u = ?bs"
    using sinceD(2) [OF u(2)] wrote_log [OF sinceD(2) [OF u(2)]] only_cache_fields(1) [of ?s u] by (simp_all add: wrote_def)
  let ?u = "u\<lparr>kcpu := kcpu s, log_lock := initlock, lh_n := int (Suc n), lh_block := ?bs\<rparr>"
  have "since (s\<lparr>kcpu := kcpu s, log_lock := initlock, lh_n := int (Suc n), lh_block := ?bs\<rparr>) ws (E(a := (E a)\<lparr>e_refs := e_refs (E a) + 1\<rparr>)) hs ?u"
    using since_upd [OF u(2) s(2), where l = initlock and n = "int (Suc n)" and bs = ?bs] by simp
  moreover have "s\<lparr>kcpu := kcpu s, log_lock := initlock, lh_n := int (Suc n), lh_block := ?bs\<rparr> = s\<lparr>lh_n := int (Suc n), lh_block := ?bs\<rparr>"
    using s(1) by (cases s) simp
  moreover have "log_write b t = Inr ((), ?u)"
  proof -
    have w: "block_w n a (t\<lparr>kcpu := ?c, log_lock := ?l\<rparr>) = Inr ((), ?t)"
    proof -
      have nn: "int n = lh_n t" using f(4) s(3) by simp
      have "block_w n a (t\<lparr>kcpu := ?c, log_lock := ?l\<rparr>) = Inr ((), t\<lparr>kcpu := ?c, log_lock := ?l, lh_block := ?bs\<rparr>)"
        using f(5) a(2) s(4) by (simp add: block_w_run)
      then show ?thesis unfolding nn by simp
    qed
    have "unlock_log (u\<lparr>lh_n := int (Suc n)\<rparr>) = Inr ((), ?u)"
    proof -
      have "unlock_log (u\<lparr>lh_n := int (Suc n)\<rparr>) = Inr ((), u\<lparr>lh_n := int (Suc n), kcpu := kcpu s, log_lock := initlock\<rparr>)"
        using v by (intro unlock_log_run [OF s(2)]) simp_all
      then show ?thesis unfolding v(4) [symmetric] by simp
    qed
    moreover have "lh_n_update (\<lambda>n. n + 1) u = u\<lparr>lh_n := int (Suc n)\<rparr>" using v(3) by (cases u) simp
    ultimately show ?thesis
      using lock_log_run [of t] f k s H(3,7) i a(2) w u(1) by (simp add: log_write_def run Let_def)
  qed
  ultimately show ?thesis by (simp add: wp_def)
qed

text \<open>
  The use of the log that the comment at \<open>log_write\<close> describes: read a block, change it, log it, release it.
\<close>

definition logged_write :: "u32 \<Rightarrow> u8 list \<Rightarrow> ('s, unit) lcomp" where
  "logged_write a xs = mbind (bread ROOTDEV a) (\<lambda>b. mthen (set_bdata b xs) (mthen (log_write b) (brelse b)))"

text \<open>A system call is running, and the log has space for another block.\<close>

definition log_open :: "'s log_kern_scheme \<Rightarrow> bool" where
  "log_open s \<longleftrightarrow> log_lock s = initlock \<and> 1 \<le> outstanding s \<and> log_size s \<le> int LOGSIZE \<and> lh_n s < log_size s - 1 \<and>
     (\<forall>i. int i < log_size s - 1 \<longrightarrow> on_disk s (slot s i))"

lemma log_ok_size: "log_ok s n P \<Longrightarrow> card (dom P) = n"
  using log_okD(3,4,8,9) [of s n P] by (simp add: distinct_card)

lemma logged_write_wp:
  assumes ok: "log_ok s n P" and o: "log_open s" and a: "outside_log s a" "on_disk s a"
  shows "wp (logged_write a xs) (\<lambda>_ t. wrote [] (s\<lparr>lh_n := lh_n t, lh_block := lh_block t\<rparr>) t \<and>
    cached t (P(a \<mapsto> xs)) \<and> (if a \<in> dom P then lh_n t = lh_n s \<and> lh_block t = lh_block s
      else lh_n t = int (Suc n) \<and> lh_block t = (lh_block s)[n := a])) s"
proof -
  note d = log_okD [OF ok] and cd = cachedD [OF d(1)]
  have ln: "lh_n s = int n" using d(2) by (simp add: log_entries_def)
  have oo: "log_lock s = initlock" "1 \<le> outstanding s" "log_size s \<le> int LOGSIZE" "int n < log_size s - 1"
    using o ln by (simp_all add: log_open_def)
  have n: "Suc n < NBUF" "n < LOGSIZE" using oo(3,4) by linarith+
  have refs: "{k. e_refs (pin_of s P k) \<noteq> 0} = dom P" by (auto simp: pin_refs)
  let ?e = "pin_of s P a" and ?E = "\<lambda>e. (pin_of s P)(a := e)"
  have r: "e_refs ?e \<noteq> -1" "\<not> e_held ?e" "e_refs ?e + 1 \<noteq> -1" by (simp_all add: pin_of_def split: option.splits)
  have "wp (bread ROOTDEV a) (\<lambda>b. since s [] (?E \<lparr>e_data = e_data ?e, e_refs = e_refs ?e + 1, e_held = True\<rparr>) [(b, a)]) s"
    using bread_since [OF since_cached [OF d(1)] a(2)] r cd(2) refs by (cases "?e") simp
  from wp_runD [OF this] obtain b s1 where 1: "bread ROOTDEV a s = Inr (b, s1)"
    "since s [] (?E \<lparr>e_data = e_data ?e, e_refs = e_refs ?e + 1, e_held = True\<rparr>) [(b, a)] s1" by blast
  have "wp (set_bdata b xs) (\<lambda>_. since s [] (?E \<lparr>e_data = xs, e_refs = e_refs ?e + 1, e_held = True\<rparr>) [(b, a)]) s1"
    using set_bdata_since [OF 1(2), of b a] by simp
  from wp_runD [OF this] obtain s2 where 2: "set_bdata b xs s1 = Inr ((), s2)"
    "since s [] (?E \<lparr>e_data = xs, e_refs = e_refs ?e + 1, e_held = True\<rparr>) [(b, a)] s2" by auto
  have k: "cpu_ok (kcpu s)" using cache_okD(9) [OF cd(1)] .
  define s' where "s' = (if a \<in> dom P then s else s\<lparr>lh_n := int (Suc n), lh_block := (lh_block s)[n := a]\<rparr>)"
  have "wp (log_write b) (\<lambda>_. since s' [] (?E \<lparr>e_data = xs, e_refs = 2, e_held = True\<rparr>) [(b, a)]) s2"
  proof (cases "a \<in> dom P")
    case True
    note f = wrote_log [OF sinceD(2) [OF 2(2)]] and H = handleD [OF sinceD(1) [OF 2(2)] sinceD(4) [OF 2(2), of b a]]
    have "log_write b s2 = Inr ((), s2)"
      using f ln oo n True d(3,4,8) H cache_okD(9) [OF sinceD(1) [OF 2(2)]] by (intro log_write_absorbs) auto
    moreover have "e_refs ?e = 1" using True by auto
    ultimately show ?thesis using 2(2) True by (simp add: wp_def s'_def)
  next
    case False
    then have "e_refs ?e = 0" "a \<notin> set (take n (lh_block s))" unfolding d(8) [symmetric] by (simp_all add: domIff)
    with log_write_adds [OF 2(2), of b a n] r oo k ln n d(4) False show ?thesis by (simp add: s'_def)
  qed
  from wp_runD [OF this] obtain s3 where 3: "log_write b s2 = Inr ((), s3)"
    "since s' [] (?E \<lparr>e_data = xs, e_refs = 2, e_held = True\<rparr>) [(b, a)] s3" by auto
  have "wp (brelse b) (\<lambda>_. since s' [] (?E \<lparr>e_data = xs, e_refs = 1, e_held = False\<rparr>) []) s3"
    using brelse_since [OF 3(2), of b a] by simp
  from wp_runD [OF this] obtain s4 where 4: "brelse b s3 = Inr ((), s4)"
    "since s' [] (?E \<lparr>e_data = xs, e_refs = 1, e_held = False\<rparr>) [] s4" by auto
  have "blk s4 = blk s" using wrote_blk [OF sinceD(2) [OF 4(2)]] by (simp add: s'_def log_upd_cache)
  moreover have "card (dom (P(a \<mapsto> xs))) < NBUF"
    using n(1) log_ok_size [OF ok] card_insert_le_m1 [of "Suc n" "dom P" a] by (simp add: card_insert_if)
  ultimately have "cached s4 (P(a \<mapsto> xs)) \<and> wrote [] s' s4"
    by (intro cachedI [OF 4(2)]) (auto simp: pin_of_def uncached_def split: option.splits)
  moreover have "lh_n s4 = lh_n s'" "lh_block s4 = lh_block s'" using wrote_log(4,5) [OF sinceD(2) [OF 4(2)]] by simp_all
  moreover have "logged_write a xs s = Inr ((), s4)" using 1(1) 2(1) 3(1) 4(1) by (simp add: logged_write_def run)
  moreover have "s\<lparr>lh_n := lh_n s', lh_block := lh_block s'\<rparr> = s'" by (simp add: s'_def)
  ultimately show ?thesis by (cases "a \<in> dom P") (simp_all add: wp_def s'_def)
qed

lemma logged_write_log_ok:
  assumes ok: "log_ok s n P" and o: "log_open s" and a: "outside_log s a" "on_disk s a"
    and t: "wrote [] (s\<lparr>lh_n := lh_n t, lh_block := lh_block t\<rparr>) t" "cached t (P(a \<mapsto> xs))"
      "if a \<in> dom P then lh_n t = lh_n s \<and> lh_block t = lh_block s else lh_n t = int (Suc n) \<and> lh_block t = (lh_block s)[n := a]"
  shows "log_ok t (if a \<in> dom P then n else Suc n) (P(a \<mapsto> xs))"
proof -
  note d = log_okD [OF ok]
  have ln: "lh_n s = int n" using d(2) by (simp add: log_entries_def)
  have n: "n < LOGSIZE" "int n < log_size s - 1" using o ln by (simp_all add: log_open_def)
  have e: "log_dev t = log_dev s" "log_start t = log_start s" "blk t = blk s" "on_disk t = on_disk s" "slot t = slot s" "log_size t = log_size s"
    using wrote_log [OF t(1)] wrote_blk [OF t(1)] wrote_disk [OF t(1)] wrote_slot [OF t(1)]
    by (simp_all add: log_upd_cache on_disk_def slot_def fun_eq_iff)
  have h: "head_of t = head_of s" using e by (simp add: head_of_def)
  have o': "outside_log t = outside_log s" using e by (simp add: outside_log_def fun_eq_iff)
  have out: "x \<noteq> slot s j" if "outside_log s x" "j < Suc n" for x j
    using outside_logD(2) [OF that(1), of j] that(2) n(2) by simp
  show ?thesis
  proof (cases "a \<in> dom P")
    case True
    then have "log_entries t n" using d(2) t(3) e by (simp add: log_entries_def)
    then show ?thesis using ok t True e h o' by (auto simp: log_ok_def)
  next
    case False
    have dom: "dom (P(a \<mapsto> xs)) = insert a (set (take n (lh_block s)))" using d(8) by simp
    have tk: "take (Suc n) (lh_block t) = take n (lh_block s) @ [a]" using t(3) False n(1) d(4) by (simp add: take_Suc_conv_app_nth)
    have nth: "lh_block t ! i = (if i = n then a else lh_block s ! i)" if "i < Suc n" for i
      using t(3) False that n(1) d(4) by simp
    have "on_disk s (slot s n)" using o n(2) by (simp add: log_open_def)
    moreover have "slot s j \<noteq> lh_block t ! i" if "i < Suc n" "j < Suc n" for i j
      using nth [OF that(1)] out [OF a(1) that(2)] out [OF d(15) that(2), of i] that(1) by auto
    ultimately have "log_entries t (Suc n)"
      unfolding log_entries_def using d(2) t(3) False n(1) d(4) e a(2) nth by (auto simp: log_entries_def less_Suc_eq)
    moreover have "distinct (take (Suc n) (lh_block t))" using tk d(8,9) False by simp
    moreover have "dom (P(a \<mapsto> xs)) = set (take (Suc n) (lh_block t))" using tk dom by simp
    moreover have "\<forall>i < Suc n. outside_log t (lh_block t ! i)" using nth d(15) a(1) o' by (simp add: less_Suc_eq)
    ultimately show ?thesis using ok t False e h n(2) by (simp add: log_ok_def)
  qed
qed


lemma commit_atomic:
  assumes "log_ok s n P" and "0 < n" and "sb_log sb s"
  shows "wp commit (\<lambda>_ t. only_cache (s\<lparr>lh_n := 0\<rparr>) t \<and> log_ok t 0 Map.empty \<and> (\<forall>a. outside_log s a \<longrightarrow> blk t a = e_data (ent s a)) \<and>
    (\<exists>ws. v_hist (vio t) = rev ws @ v_hist (vio s) \<and> length ws = 2 * n + 2 \<and>
      (\<forall>k u. k \<le> length ws \<and> crashed s (take k ws) u \<longrightarrow>
        wp (restart pfn sb) (\<lambda>_ v. log_ready v \<and>
          (\<forall>a. outside_log s a \<longrightarrow> e_data (ent v a) = (if k \<le> n then blk s a else e_data (ent s a)))) u))) s"
proof (rule wp_mono [OF commit_wp [OF assms(1,2)]], elim conjE, intro conjI)
  fix t
  let ?ws = "map (\<lambda>(a, x). (ucast a, x)) (commit_writes s n P)"
  assume o: "only_cache (s\<lparr>lh_n := 0\<rparr>) t"
    and c: "cached t Map.empty" and nb: "v_nblocks (vio t) = v_nblocks (vio s)" and t: "lh_n t = 0" "blk t = upds (blk s) (commit_writes s n P)" "v_hist (vio t) = rev ?ws @ v_hist (vio s)"
  show "only_cache (s\<lparr>lh_n := 0\<rparr>) t" by fact
  note d = log_okD [OF assms(1)]
  from o have f: "log_dev t = log_dev s" "log_start t = log_start s" "lh_block t = lh_block s" "log_size t = log_size s" "v_nblocks (vio t) = v_nblocks (vio s)"
    using nb by (auto elim!: only_cacheE)
  have "head_of t = set_hword 0 0 (new_head s n)" using t(2) f(2) by (simp add: head_of_def commit_writes_def)
  then show "log_ok t 0 Map.empty"
    using c d f t(1) new_head_words(3) [OF assms(1)] by (simp add: log_ok_def log_entries_def hword_same on_disk_def)
  show "\<forall>a. outside_log s a \<longrightarrow> blk t a = e_data (ent s a)"
    unfolding t(2) using commit_home [OF assms(1)] by blast
  have len: "length ?ws = 2 * n + 2" by (simp add: commit_writes_def log_writes_def home_writes_def)
  have "wp (restart pfn sb) (\<lambda>_ v. log_ready v \<and>
      (\<forall>a. outside_log s a \<longrightarrow> e_data (ent v a) = (if k \<le> n then blk s a else e_data (ent s a)))) u"
    if k: "k \<le> length ?ws" "crashed s (take k ?ws) u" for k u
  proof -
    have c: "crashed s (map (\<lambda>(a, x). (ucast a, x)) (take k (commit_writes s n P))) u" using k(2) by (simp only: take_map)
    have "k \<le> 2 * n + 2" using k(1) len by simp
    from commit_prefix [OF assms(1) this c assms(3)] show ?thesis
      by (rule wp_mono) (auto simp: log_ready_def dest!: log_okD(1) cachedD(3))
  qed
  with t(3) len show "\<exists>ws. v_hist (vio t) = rev ws @ v_hist (vio s) \<and> length ws = 2 * n + 2 \<and>
      (\<forall>k u. k \<le> length ws \<and> crashed s (take k ws) u \<longrightarrow>
        wp (restart pfn sb) (\<lambda>_ v. log_ready v \<and>
          (\<forall>a. outside_log s a \<longrightarrow> e_data (ent v a) = (if k \<le> n then blk s a else e_data (ent s a)))) u)" by blast
qed


lemma op_upd_cong:
  fixes s :: "'s log_kern_scheme" and k :: int and c :: bool
  defines "s' \<equiv> s\<lparr>outstanding := k, committing := c\<rparr>"
  shows "log_ok s' n P = log_ok s n P" "ent s' = ent s" "blk s' = blk s" "outside_log s' = outside_log s" "crashed s' = crashed s"
proof -
  show e: "ent s' = ent s" "blk s' = blk s" unfolding s'_def by (intro cache_cong; simp add: drv_ok_def)+
  have c: "cache_ok s' = cache_ok s" unfolding s'_def by (intro cache_cong; simp add: drv_ok_def)
  have sl: "slot s' = slot s" "on_disk s' = on_disk s" "head_of s' = head_of s"
    using e by (simp_all add: s'_def slot_def on_disk_def head_of_def fun_eq_iff)
  show o: "outside_log s' = outside_log s" by (simp add: outside_log_def s'_def fun_eq_iff)
  have "uncached s' = uncached s" unfolding s'_def by (intro cache_cong; simp add: drv_ok_def)
  then have p: "pin_of s' P = pin_of s P" for P by (intro ext) (simp only: pin_of_def)
  show "log_ok s' n P = log_ok s n P"
    using sl e c o p by (simp add: log_ok_def log_entries_def cached_def) (simp add: s'_def)
  show "crashed s' = crashed s" by (simp add: crashed_def s'_def fun_eq_iff)
qed

lemma end_op_run:
  assumes s: "log_lock s = initlock" "cpu_ok (kcpu s)" "\<not> committing s" "outstanding s = 1"
    and c: "commit (s\<lparr>outstanding := 0, committing := True\<rparr>) = Inr ((), t)" and t: "only_cache (s\<lparr>outstanding := 0, committing := True, lh_n := 0\<rparr>) t"
  shows "end_op s = Inr ((), t\<lparr>committing := False\<rparr>)"
proof -
  from t obtain v ws d bs where t': "t = s\<lparr>outstanding := 0, committing := True, lh_n := 0, vio := v, vregw := ws, disk_used := d, bufs := bs\<rparr>"
    by (rule only_cacheE)
  have f: "log_lock t = initlock" "kcpu t = kcpu s" unfolding t' using s(1) by simp_all
  let ?s = "s\<lparr>kcpu := push_off1 (kcpu s), log_lock := held (kcpu s)\<rparr>" and ?t = "t\<lparr>kcpu := push_off1 (kcpu s), log_lock := held (kcpu s)\<rparr>"
  have "unlock_log (?s\<lparr>outstanding := 0, committing := True\<rparr>) = Inr ((), s\<lparr>outstanding := 0, committing := True, kcpu := kcpu s, log_lock := log_lock s\<rparr>)"
    using unlock_log_run [OF s(2), of "?s\<lparr>outstanding := 0, committing := True\<rparr>"] s(1) by simp
  then have 1: "unlock_log (?s\<lparr>outstanding := 0, committing := True\<rparr>) = Inr ((), s\<lparr>outstanding := 0, committing := True\<rparr>)" by simp
  have "unlock_log (?t\<lparr>committing := False\<rparr>) = Inr ((), t\<lparr>committing := False, kcpu := kcpu t, log_lock := log_lock t\<rparr>)"
    using unlock_log_run [OF s(2), of "?t\<lparr>committing := False\<rparr>"] f by simp
  then have 2: "unlock_log (?t\<lparr>committing := False\<rparr>) = Inr ((), t\<lparr>committing := False\<rparr>)" by simp
  have o: "outstanding_update (\<lambda>k. k - 1) (s\<lparr>kcpu := push_off1 (kcpu s), log_lock := held (kcpu s)\<rparr>) =
      s\<lparr>kcpu := push_off1 (kcpu s), log_lock := held (kcpu s), outstanding := 0\<rparr>" using s(4) by (cases s) simp
  show ?thesis
    using s f c lock_log_run [OF s(1)] lock_log_run [OF f(1)] 1 2 by (simp add: end_op_def run o)
qed

lemma begin_op_run:
  assumes s: "log_lock s = initlock" "cpu_ok (kcpu s)" "\<not> committing s" "lh_n s + (outstanding s + 1) * int MAXOPBLOCKS \<le> int LOGSIZE"
  shows "begin_op s = Inr ((), s\<lparr>outstanding := outstanding s + 1\<rparr>)"
proof -
  let ?s = "s\<lparr>kcpu := push_off1 (kcpu s), log_lock := held (kcpu s)\<rparr>"
  have o: "outstanding_update (\<lambda>k. k + 1) ?s = ?s\<lparr>outstanding := outstanding s + 1\<rparr>" by (cases s) simp
  have "unlock_log (?s\<lparr>outstanding := outstanding s + 1\<rparr>) = Inr ((), s\<lparr>outstanding := outstanding s + 1, kcpu := kcpu s, log_lock := log_lock s\<rparr>)"
    using unlock_log_run [OF s(2), of "?s\<lparr>outstanding := outstanding s + 1\<rparr>"] s(1) by simp
  then show ?thesis using s lock_log_run [OF s(1)] by (simp add: begin_op_def run o)
qed

lemma logged_write_panics:
  assumes ok: "log_ok s n P" and s: "log_lock s = initlock" "log_size s - 1 \<le> int n" and a: "on_disk s a"
  shows "logged_write a xs s = Inl (Panic ''too big a transaction'')"
proof -
  note d = log_okD [OF ok] and cd = cachedD [OF d(1)]
  have refs: "{k. e_refs (pin_of s P k) \<noteq> 0} = dom P" by (auto simp: pin_refs)
  have r: "e_refs (pin_of s P a) \<noteq> -1" "\<not> e_held (pin_of s P a)" by (simp_all add: pin_of_def split: option.splits)
  have "wp (bread ROOTDEV a) (\<lambda>b t. \<exists>E. since s [] E [(b, a)] t) s"
    using r cd(2) refs by (intro wp_mono [OF bread_since [OF since_cached [OF d(1)] a]]) auto
  from wp_runD [OF this] obtain b s1 E where 1: "bread ROOTDEV a s = Inr (b, s1)" "since s [] E [(b, a)] s1" by blast
  from wp_runD [OF set_bdata_since [OF 1(2), of b a xs]] obtain s2 E where 2: "set_bdata b xs s1 = Inr ((), s2)" "since s [] E [(b, a)] s2" by auto
  have "log_lock s2 = initlock" "lh_n s2 = int n" "log_size s2 - 1 \<le> int n"
    using wrote_log [OF sinceD(2) [OF 2(2)]] s d(2) by (simp_all add: log_entries_def)
  then have "log_write b s2 = Inl (Panic ''too big a transaction'')"
    using lock_log_run [of s2] by (simp add: log_write_def run)
  with 1(1) 2(1) show ?thesis by (simp add: logged_write_def run)
qed

text \<open>What does not change while blocks are logged.\<close>

definition same_log :: "'s log_kern_scheme \<Rightarrow> 's log_kern_scheme \<Rightarrow> bool" where
  "same_log s t \<longleftrightarrow> log_lock t = log_lock s \<and> outstanding t = outstanding s \<and> log_size t = log_size s \<and> log_start t = log_start s \<and>
     v_nblocks (vio t) = v_nblocks (vio s)"

lemma same_log_cong:
  assumes "same_log s t"
  shows "on_disk t = on_disk s" "slot t = slot s" "outside_log t = outside_log s"
  using assms by (simp_all add: same_log_def on_disk_def slot_def outside_log_def fun_eq_iff)

lemma logged_writes_wp:
  assumes ok: "log_ok s 0 Map.empty" and s: "log_lock s = initlock" "1 \<le> outstanding s" "log_size s \<le> int LOGSIZE"
      "\<And>i. int i < log_size s - 1 \<Longrightarrow> on_disk s (slot s i)"
    and as: "distinct as" "int (length as) < log_size s" "\<And>a. a \<in> set as \<Longrightarrow> outside_log s a \<and> on_disk s a"
  shows "wp (mfor as (\<lambda>a. logged_write a xs)) (\<lambda>_ t. \<exists>P. log_ok t (length as) P \<and> dom P = set (take (length as) as) \<and> same_log s t) s"
proof (rule wp_mfor)
  show "\<exists>P. log_ok s 0 P \<and> dom P = set (take 0 as) \<and> same_log s s" using ok by (intro exI [of _ Map.empty]) (simp add: same_log_def)
  fix k t
  assume k: "k < length as" and "\<exists>P. log_ok t k P \<and> dom P = set (take k as) \<and> same_log s t"
  then obtain P where t: "log_ok t k P" "dom P = set (take k as)" "same_log s t" by blast
  note e = same_log_cong [OF t(3)]
  have l: "lh_n t = int k" using log_okD(2) [OF t(1)] by (simp add: log_entries_def)
  have o: "log_open t" using s l k as(2) t(3) e by (simp add: log_open_def same_log_def)
  have a: "outside_log t (as ! k)" "on_disk t (as ! k)" using as(3) [of "as ! k"] k e by simp_all
  have new: "as ! k \<notin> dom P" using t(2) as(1) k by (auto simp: in_set_conv_nth distinct_conv_nth)
  show "wp (logged_write (as ! k) xs) (\<lambda>_ u. \<exists>P. log_ok u (Suc k) P \<and> dom P = set (take (Suc k) as) \<and> same_log s u) t"
  proof (rule wp_mono [OF logged_write_wp [OF t(1) o a]], elim conjE)
    fix u
    assume u: "wrote [] (t\<lparr>lh_n := lh_n u, lh_block := lh_block u\<rparr>) u" "cached u (P(as ! k \<mapsto> xs))"
      "if as ! k \<in> dom P then lh_n u = lh_n t \<and> lh_block u = lh_block t else lh_n u = int (Suc k) \<and> lh_block u = (lh_block t)[k := as ! k]"
    have "log_ok u (Suc k) (P(as ! k \<mapsto> xs))" using logged_write_log_ok [OF t(1) o a u] new by simp
    moreover have "dom (P(as ! k \<mapsto> xs)) = set (take (Suc k) as)" using t(2) k by (simp add: take_Suc_conv_app_nth)
    moreover have "same_log s u" using t(3) wrote_log [OF u(1)] u(1) by (simp add: same_log_def wrote_def)
    ultimately show "\<exists>P. log_ok u (Suc k) P \<and> dom P = set (take (Suc k) as) \<and> same_log s u" by blast
  qed
qed

section \<open>Properties of the log\<close>

text \<open>A disk of 100 zeroed blocks with a log of 30 blocks from block 2 on, as \<open>mkfs\<close> makes it.\<close>

definition log0 :: log_kern where
  "log0 = \<lparr>kcpu = \<lparr>noff = 0, intena = True, intr = True, cpu_id = 0\<rparr>, kpid = 1, vdisk_lock = initlock,
     vio = vio0\<lparr>v_data := replicate (Suc NBUF) [0], v_blocks := \<lambda>_. replicate BSIZE 0, v_nblocks := 100\<rparr>,
     disk_free = replicate NUM False, disk_used = 0, info_b = replicate NUM None,
     bufs = replicate (Suc NBUF) buf0, device = dev0, vreg = vreg0, vregw = [], wait_bound = 2, bcache_lock = initlock,
     log_lock = initlock, log_start = 0, log_size = 0, outstanding = 0, committing = False, log_dev = 0, lh_n = 0,
     lh_block = replicate LOGSIZE 0\<rparr>"

definition sb0 :: superblock where
  "sb0 = \<lparr>sb_magic = 0x10203040, sb_size = 100, sb_nblocks = 65, sb_ninodes = 10, sb_nlog = 30, sb_logstart = 2, sb_inodestart = 32, sb_bmapstart = 34\<rparr>"

lemma log0_zeroed: "zeroed log0"
  using dev0_serves
  by (simp add: zeroed_def booted_def log0_def drv_new_def vio0_def vreg0_def cpu_ok_def buf0_def list_all_iff)

lemma u32_of_nat: "k < 2 ^ 32 \<Longrightarrow> unat (of_nat k :: u32) = k"
  by (simp add: unat_of_nat)

lemma log0_blocks:
  assumes "log_start t = 2" and "v_nblocks (vio t) = 100" and "log_size t = 30"
  shows "k < 100 \<Longrightarrow> on_disk t (of_nat k)" and "slot t i = of_nat (i + 3)" and "32 \<le> k \<Longrightarrow> k < 100 \<Longrightarrow> outside_log t (of_nat k)"
proof -
  show "on_disk t (of_nat k)" if "k < 100" for k
    using that assms(2) by (simp add: on_disk_def word_less_nat_alt unat_ucast_up u32_of_nat)
  show "slot t i = of_nat (i + 3)" for i using assms(1) by (simp add: slot_def)
  show "outside_log t (of_nat k)" if k: "32 \<le> k" "k < 100"
  proof -
    have "(of_nat k :: u32) \<noteq> of_nat (2 + j)" if "j < 30" for j
      using u32_of_nat [of k] u32_of_nat [of "2 + j"] k that by auto
    then show ?thesis using assms(1,3) by (simp add: outside_log_def)
  qed
qed

lemma log0_open:
  assumes "log_start t = 2" "v_nblocks (vio t) = 100" "log_size t = 30" and "log_lock t = initlock" "outstanding t = 1" "lh_n t = 0"
  shows "log_open t"
  using assms log0_blocks(1,2) [OF assms(1-3)] unfolding log_open_def by (simp del: of_nat_add)

lemma log0_restart:
  obtains t where "restart 0x40100 sb0 log0 = Inr ((), t)" "log_ready t" "log_start t = 2" "v_nblocks (vio t) = 100" "log_size t = 30"
proof -
  have l: "log_on_disk (log0\<lparr>log_start := sb_logstart sb0, log_dev := ROOTDEV\<rparr>) 0"
    by (simp add: log_on_disk_def log0_def sb0_def head_of_def blk_def hword_def on_disk_def vio0_def)
  have "wp (restart 0x40100 sb0) (\<lambda>_ t. log_ready t \<and> log_start t = 2 \<and> v_nblocks (vio t) = 100 \<and> log_size t = 30) log0"
    by (rule wp_mono [OF boot_wp [OF log0_zeroed l]]) (simp_all add: sb0_def log0_def vio0_def)
  from wp_runD [OF this] show thesis using that by auto
qed

lemma log0_started:
  obtains t where "mthen (restart 0x40100 sb0) begin_op log0 = Inr ((), t)" "log_ok t 0 Map.empty" "log_open t" "log_start t = 2"
    "v_nblocks (vio t) = 100" "log_size t = 30" "log_lock t = initlock" "outstanding t = 1" "\<not> committing t"
proof -
  obtain s where s: "restart 0x40100 sb0 log0 = Inr ((), s)" "log_ready s" "log_start s = 2" "v_nblocks (vio s) = 100" "log_size s = 30"
    by (rule log0_restart)
  have r: "log_ok s 0 Map.empty" "log_lock s = initlock" "outstanding s = 0" "\<not> committing s" using s(2) by (simp_all add: log_ready_def)
  have l: "lh_n s = 0" "cpu_ok (kcpu s)"
    using log_okD(2) [OF r(1)] cache_okD(9) [OF cachedD(1) [OF log_okD(1) [OF r(1)]]] by (simp_all add: log_entries_def)
  let ?t = "s\<lparr>outstanding := 1\<rparr>"
  have "begin_op s = Inr ((), ?t)" using begin_op_run [of s] r l by simp
  then have 1: "mthen (restart 0x40100 sb0) begin_op log0 = Inr ((), ?t)"
    by (simp add: mbind_run [where m = "restart 0x40100 sb0", OF s(1)])
  have 2: "log_ok ?t 0 Map.empty" using op_upd_cong(1) [where s = s and k = 1 and c = "committing s"] r(1) by simp
  show thesis
    using s(3-5) r(2-4) l(1) by (intro that [OF 1 2] log0_open) simp_all
qed

text \<open>
  C22. Logging a block: with a system call running and space in the log, a block outside the log that is
  read, changed and given to \<open>log_write\<close> is pinned in the cache with its new contents, and is in the header
  exactly once, however often it is logged. Nothing is written to the disk.
\<close>

theorem log_write_records:
  assumes "log_ok s n P" and "log_open s" and "outside_log s a" and "on_disk s a"
  shows "wp (logged_write a xs) (\<lambda>_ t. log_ok t (card (dom (P(a \<mapsto> xs)))) (P(a \<mapsto> xs)) \<and> blk t = blk s \<and> v_hist (vio t) = v_hist (vio s)) s"
proof (rule wp_mono [OF logged_write_wp [OF assms]], elim conjE)
  fix t
  assume t: "wrote [] (s\<lparr>lh_n := lh_n t, lh_block := lh_block t\<rparr>) t" "cached t (P(a \<mapsto> xs))"
    "if a \<in> dom P then lh_n t = lh_n s \<and> lh_block t = lh_block s else lh_n t = int (Suc n) \<and> lh_block t = (lh_block s)[n := a]"
  have l: "log_ok t (if a \<in> dom P then n else Suc n) (P(a \<mapsto> xs))" by (rule logged_write_log_ok [OF assms t])
  moreover from log_ok_size [OF this] have "card (dom (P(a \<mapsto> xs))) = (if a \<in> dom P then n else Suc n)" .
  ultimately have "log_ok t (card (dom (P(a \<mapsto> xs)))) (P(a \<mapsto> xs))" by (simp only:)
  moreover have "blk t = blk s" "v_hist (vio t) = v_hist (vio s)" using t(1) by (simp_all add: wrote_def log_upd_cache)
  ultimately show "log_ok t (card (dom (P(a \<mapsto> xs)))) (P(a \<mapsto> xs)) \<and> blk t = blk s \<and> v_hist (vio t) = v_hist (vio s)" by blast
qed

theorem log_write_records_witness:
  "wp (mthen (mthen (restart 0x40100 sb0) begin_op) (logged_write 40 [7])) (\<lambda>_ t. log_ok t 1 [40 \<mapsto> [7]]) log0"
proof -
  obtain t where t: "mthen (restart 0x40100 sb0) begin_op log0 = Inr ((), t)" "log_ok t 0 Map.empty" "log_open t" "log_start t = 2"
    "v_nblocks (vio t) = 100" "log_size t = 30"
    by (rule log0_started)
  have "wp (logged_write 40 [7]) (\<lambda>_ t. log_ok t 1 [40 \<mapsto> [7]]) t"
    using log0_blocks(1,3) [OF t(4-6), of 40] by (intro wp_mono [OF log_write_records [OF t(2,3)]]) simp_all
  then show ?thesis unfolding wp_def mbind_run [where m = "mthen (restart 0x40100 sb0) begin_op", OF t(1)] .
qed

text \<open>
  C4. File system operations are atomic. When the last running system call ends, \<open>end_op\<close> writes
  \<open>2 * n + 2\<close> blocks for the \<open>n\<close> that were changed. Whichever number \<open>k\<close> of them has reached the disk when
  the machine stops, the next start (\<open>binit\<close>, \<open>virtio_disk_init\<close>, \<open>initlog\<close>) recovers: every block outside
  the log then has its old contents if the header was not yet written (\<open>k \<le> n\<close>) and its new contents
  otherwise, and the log is empty and ready for the next operation. If the machine does not stop, the new
  contents are on the disk and the log is empty and ready as well.
\<close>

theorem end_op_atomic:
  assumes "log_ok s n P" and "0 < n" and "log_lock s = initlock" and "outstanding s = 1" and "\<not> committing s"
    and "sb_logstart sb = log_start s" and "sint (sb_nlog sb) = log_size s"
  shows "wp end_op (\<lambda>_ t. log_ready t \<and> (\<forall>a. outside_log s a \<longrightarrow> blk t a = e_data (ent s a)) \<and>
    (\<exists>ws. v_hist (vio t) = rev ws @ v_hist (vio s) \<and> length ws = 2 * n + 2 \<and>
      (\<forall>k u. k \<le> length ws \<and> crashed s (take k ws) u \<longrightarrow>
        wp (restart pfn sb) (\<lambda>_ v. log_ready v \<and>
          (\<forall>a. outside_log s a \<longrightarrow> e_data (ent v a) = (if k \<le> n then blk s a else e_data (ent s a)))) u))) s"
proof -
  let ?s = "s\<lparr>outstanding := 0, committing := True\<rparr>"
  note e = op_upd_cong [where s = s and k = 0 and c = True]
  have "log_ok ?s n P" "sb_log sb ?s" using assms e by (simp_all add: sb_log_def)
  from wp_runD [OF commit_atomic [OF this(1) assms(2) this(2), unfolded e, of pfn]] obtain t where
    t: "commit ?s = Inr ((), t)" "only_cache (?s\<lparr>lh_n := 0\<rparr>) t" "log_ok t 0 Map.empty" "\<forall>a. outside_log s a \<longrightarrow> blk t a = e_data (ent s a)"
      "\<exists>ws. v_hist (vio t) = rev ws @ v_hist (vio s) \<and> length ws = 2 * n + 2 \<and>
      (\<forall>k u. k \<le> length ws \<and> crashed s (take k ws) u \<longrightarrow>
        wp (restart pfn sb) (\<lambda>_ v. log_ready v \<and>
          (\<forall>a. outside_log s a \<longrightarrow> e_data (ent v a) = (if k \<le> n then blk s a else e_data (ent s a)))) u)" by auto
  have k: "cpu_ok (kcpu s)" using cache_okD(9) [OF cachedD(1) [OF log_okD(1) [OF assms(1)]]] .
  from t(2) have o: "outstanding t = 0" "log_lock t = initlock" using assms(3) by (auto elim!: only_cacheE)
  have r: "end_op s = Inr ((), t\<lparr>committing := False\<rparr>)"
    using assms(3-5) k t(1,2) by (intro end_op_run) simp_all
  have b: "blk (t\<lparr>committing := False\<rparr>) = blk t" by (simp add: blk_def fun_eq_iff)
  have h: "v_hist (vio (t\<lparr>committing := False\<rparr>)) = v_hist (vio t)" by simp
  have "log_ok (t\<lparr>committing := False\<rparr>) 0 Map.empty"
    using op_upd_cong(1) [where s = t and k = "outstanding t" and c = False] t(3) by simp
  then have "log_ready (t\<lparr>committing := False\<rparr>)" using o by (simp add: log_ready_def)
  then show ?thesis unfolding wp_of_run [where m = end_op, OF r] b h by (intro conjI t(4) t(5))
qed

theorem end_op_atomic_witness:
  "wp (mthen (mthen (restart 0x40100 sb0) begin_op) (mthen (logged_write 40 [7]) end_op)) (\<lambda>_ t. log_ready t \<and> blk t 40 = [7]) log0"
proof -
  obtain t where t: "mthen (restart 0x40100 sb0) begin_op log0 = Inr ((), t)" "log_ok t 0 Map.empty" "log_open t" "log_start t = 2"
    "v_nblocks (vio t) = 100" "log_size t = 30" "log_lock t = initlock" "outstanding t = 1" "\<not> committing t"
    by (rule log0_started)
  have o: "outside_log t 40" "on_disk t 40" using log0_blocks(1,3) [OF t(4-6), of 40] by simp_all
  let ?P = "[40 \<mapsto> [7]] :: pins"
  obtain u where u: "logged_write 40 [7] t = Inr ((), u)" "wrote [] (t\<lparr>lh_n := lh_n u, lh_block := lh_block u\<rparr>) u" "log_ok u 1 ?P"
    using wp_runD [OF logged_write_wp [OF t(2,3) o, of "[7]"]] logged_write_log_ok [OF t(2,3) o, of _ "[7]"] by auto
  have f: "log_lock u = initlock" "outstanding u = 1" "\<not> committing u" "sb_logstart sb0 = log_start u" "sint (sb_nlog sb0) = log_size u"
    "outside_log u 40"
    using wrote_log [OF u(2)] t o(1) by (simp_all add: sb0_def outside_log_def)
  have "ent u 40 = \<lparr>e_data = [7], e_refs = 1, e_held = False\<rparr>" using cachedD(3) [OF log_okD(1) [OF u(3)]] by simp
  then have "wp end_op (\<lambda>_ t. log_ready t \<and> blk t 40 = [7]) u"
    using f(6) by (intro wp_mono [OF end_op_atomic [OF u(3) _ f(1-5)]]) auto
  then show ?thesis
    unfolding wp_def mbind_run [where m = "mthen (restart 0x40100 sb0) begin_op", OF t(1)] mbind_run [where m = "logged_write 40 [7]", OF u(1)] .
qed

text \<open>
  C30. \<open>begin_op\<close> admits more than the log can take. With the log as \<open>mkfs\<close> makes it, of \<open>LOGSIZE\<close> blocks with
  its header, three system calls may start on an empty log, since each may log \<open>MAXOPBLOCKS\<close> blocks and 30
  blocks are within \<open>LOGSIZE\<close>; but when together they log 30 different blocks, the last \<open>log_write\<close> panics.
\<close>

theorem begin_op_overcommits:
  assumes "log_ok s 0 Map.empty" and "log_lock s = initlock" and "outstanding s = 0" and "\<not> committing s" and "log_size s = int LOGSIZE"
    and "\<And>i. Suc i < LOGSIZE \<Longrightarrow> on_disk s (slot s i)"
    and "distinct as" and "length as = 3 * MAXOPBLOCKS" and "\<And>a. a \<in> set as \<Longrightarrow> outside_log s a \<and> on_disk s a"
  shows "mthen begin_op (mthen begin_op (mthen begin_op (mfor as (\<lambda>a. logged_write a xs)))) s = Inl (Panic ''too big a transaction'')"
proof -
  let ?s = "\<lambda>k. s\<lparr>outstanding := k\<rparr>"
  have k: "cpu_ok (kcpu s)" using cache_okD(9) [OF cachedD(1) [OF log_okD(1) [OF assms(1)]]] .
  have l: "lh_n s = 0" using log_okD(2) [OF assms(1)] by (simp add: log_entries_def)
  have b: "begin_op s = Inr ((), ?s 1)" "begin_op (?s 1) = Inr ((), ?s 2)" "begin_op (?s 2) = Inr ((), ?s 3)"
    using begin_op_run [of s] begin_op_run [of "?s 1"] begin_op_run [of "?s 2"] assms(2-4) k l by simp_all
  let ?f = "\<lambda>a. logged_write a xs"
  have ok: "log_ok (?s 3) 0 Map.empty" using op_upd_cong(1) [where s = s and k = 3 and c = "committing s"] assms(1) by simp
  have sl: "same_log (?s 3) (?s 3)" "outside_log (?s 3) = outside_log s" "on_disk (?s 3) = on_disk s" "slot (?s 3) = slot s"
    by (simp_all add: same_log_def outside_log_def on_disk_def slot_def fun_eq_iff)
  have m: "a \<in> set as" if "a \<in> set (take 29 as)" for a using that by (rule in_set_takeD)
  have "wp (mfor (take 29 as) ?f) (\<lambda>_ t. \<exists>P. log_ok t 29 P \<and> same_log (?s 3) t) (?s 3)"
    using assms(2,5-9) m sl by (intro wp_mono [OF logged_writes_wp [OF ok]]) auto
  from wp_runD [OF this] obtain t P where t: "mfor (take 29 as) ?f (?s 3) = Inr ((), t)" "log_ok t 29 P" "same_log (?s 3) t" by auto
  have "as ! 29 \<in> set as" using assms(8) by simp
  then have "logged_write (as ! 29) xs t = Inl (Panic ''too big a transaction'')"
    using assms(2,5,9) t(3) same_log_cong(1) [OF t(3)] sl(3) by (intro logged_write_panics [OF t(2)]) (simp_all add: same_log_def)
  then have "mthen (mfor (take 29 as) ?f) (mfor [as ! 29] ?f) (?s 3) = Inl (Panic ''too big a transaction'')"
    using t(1) by (simp add: run)
  moreover have "take 29 as @ [as ! 29] = as"
    using assms(8) id_take_nth_drop [of 29 as] by simp
  ultimately have "mfor as ?f (?s 3) = Inl (Panic ''too big a transaction'')"
    using mfor_append [of "take 29 as" "[as ! 29]" ?f] by metis
  then show ?thesis using b by (simp add: mbind_def)
qed

theorem begin_op_overcommits_witness:
  "mthen (restart 0x40100 sb0) (mthen begin_op (mthen begin_op (mthen begin_op (mfor (map of_nat [40..<70]) (\<lambda>a. logged_write a [7]))))) log0 =
    Inl (Panic ''too big a transaction'')"
proof -
  obtain s where s: "restart 0x40100 sb0 log0 = Inr ((), s)" "log_ready s" "log_start s = 2" "v_nblocks (vio s) = 100" "log_size s = 30"
    by (rule log0_restart)
  have r: "log_ok s 0 Map.empty" "log_lock s = initlock" "outstanding s = 0" "\<not> committing s" using s(2) by (simp_all add: log_ready_def)
  let ?as = "map of_nat [40..<70] :: u32 list"
  note b = log0_blocks [OF s(3-5)]
  have "inj_on (of_nat :: nat \<Rightarrow> u32) {40..<70}"
  proof (rule inj_onI)
    fix i j :: nat assume ij: "i \<in> {40..<70}" "j \<in> {40..<70}" and eq: "(of_nat i :: u32) = of_nat j"
    have "i = unat (of_nat i :: u32)" using ij by (simp add: unat_of_nat)
    also have "\<dots> = unat (of_nat j :: u32)" by (simp only: eq)
    also have "\<dots> = j" using ij by (simp add: unat_of_nat)
    finally show "i = j" .
  qed
  then have "distinct ?as" by (simp add: distinct_map del: upt_rec_numeral)
  moreover have "outside_log s a \<and> on_disk s a" if a: "a \<in> set ?as" for a
  proof -
    obtain k where "a = of_nat k" "40 \<le> k" "k < 70" using a by (auto simp del: upt_rec_numeral)
    then show ?thesis using b(1,3) [of k] by simp
  qed
  moreover have "on_disk s (slot s i)" if "Suc i < LOGSIZE" for i using b(1) [of "i + 3"] b(2) that by (simp del: of_nat_add)
  ultimately have "mthen begin_op (mthen begin_op (mthen begin_op (mfor ?as (\<lambda>a. logged_write a [7])))) s = Inl (Panic ''too big a transaction'')"
    using r s(5) by (intro begin_op_overcommits [OF r(1)]) simp_all
  then show ?thesis unfolding mbind_run [where m = "restart 0x40100 sb0", OF s(1)] .
qed

end
