(* ===== verification/Printf.thy ===== *)
theory Printf
  imports Uart Lib
begin

text \<open>
  Formatted output, \<open>src/printf.c\<close>. A format is the list of its characters without the final
  NUL; the variable arguments are the 64-bit words that \<open>va_arg\<close> takes one after the other, and
  taking one more than there are is a fault. Strings and MAC addresses are read from memory
  through their pointers.
\<close>

section \<open>Numbers\<close>

text \<open>The ASCII code of a character of the source text.\<close>

abbreviation chr :: "char \<Rightarrow> u8" where "chr \<equiv> of_char"

abbreviation str :: "string \<Rightarrow> u8 list" where "str \<equiv> map of_char"

definition hex_digits :: "u8 list" where "hex_digits = str ''0123456789abcdef''"

lemma digit_loop_decreases: "1 < base \<Longrightarrow> unum div base \<noteq> 0 \<Longrightarrow> unat (unum div base) < unat unum"
  for base unum :: u64
proof -
  assume b: "1 < base" and n: "unum div base \<noteq> 0"
  have "unum \<noteq> 0" using n by auto
  then have "0 < unat unum" by (simp add: unat_gt_0)
  moreover have "1 < unat base" using b by (simp add: word_less_nat_alt)
  ultimately show ?thesis by (simp add: unat_div_distrib div_less_dividend)
qed

text \<open>The loop that writes the digits in front of \<open>acc\<close>, from the least significant one.\<close>

function digit_loop :: "u64 \<Rightarrow> u64 \<Rightarrow> u8 list \<Rightarrow> u8 list" where
  "digit_loop base unum acc =
     (let acc = hex_digits ! unat (unum mod base) # acc; unum' = unum div base in
      if base \<le> 1 \<or> unum' = 0 then acc else digit_loop base unum' acc)"
  by pat_completeness auto

termination
  by (relation "measure (\<lambda>(base, unum, acc). unat unum)") (auto simp: not_le digit_loop_decreases)

declare digit_loop.simps [simp del]

text \<open>The characters of a number: sign, prefix and digits.\<close>

definition number_chars :: "u64 \<Rightarrow> u64 \<Rightarrow> bool \<Rightarrow> bool \<Rightarrow> u8 list" where
  "number_chars num base signed_num print_0x =
     (let neg = (signed_num \<and> num <s 0);
          unum = (if neg then - (num + 1) + 1 else num);
          cur = digit_loop base unum [];
          cur = (if print_0x then chr CHR ''0'' # chr CHR ''x'' # cur else cur)
      in if neg then chr CHR ''-'' # cur else cur)"

text \<open>
  The characters are written from the end of a buffer of 65 bytes, the last of which is the final NUL.
  Base 0 divides by zero, and base 1 runs out of the buffer; the callers use the bases 10 and 16.
  The loop that pads on the left leaves \<open>digit\<close> one below the smaller of itself and the length.
\<close>

definition printiu64 :: "u64 \<Rightarrow> u64 \<Rightarrow> bool \<Rightarrow> u32 \<Rightarrow> bool \<Rightarrow> ('a machine_scheme, unit) comp" where
  "printiu64 num base signed_num digit print_0x =
     (let cur = number_chars num base signed_num print_0x; len = int (length cur) in
      mthen (massert (base \<noteq> 0) Div_By_Zero)
      (mthen (massert (base \<noteq> 1 \<and> length cur \<le> 64) Out_Of_Bounds)
      (mthen (if sint digit > 0 then uart_puts (replicate (nat (sint digit - len)) (chr CHR '' '')) else mret ())
      (mthen (uart_puts cur)
      (let digit = (if sint digit > 0 then word_of_int (min (sint digit) len - 1) else digit) in
       if sint digit < 0 then uart_puts (replicate (nat (sint (- digit) - len)) (chr CHR '' '')) else mret ())))))"

definition isdigit :: "u8 \<Rightarrow> bool" where
  "isdigit c \<longleftrightarrow> chr CHR ''0'' \<le> c \<and> c \<le> chr CHR ''9''"

primrec digits_of :: "u8 list \<Rightarrow> u32 \<Rightarrow> u8 list \<times> u32" where
  "digits_of [] n = ([], n)"
| "digits_of (c # cs) n =
     (if isdigit c then digits_of cs (n * 10 + ucast c - ucast (chr CHR ''0'')) else (c # cs, n))"

definition fetch_digit :: "u8 list \<Rightarrow> u8 list \<times> u32" where
  "fetch_digit fmt =
     (let (neg, fmt) = (case fmt of c # cs \<Rightarrow> if c = chr CHR ''-'' then (True, cs) else (False, fmt) | [] \<Rightarrow> (False, []));
          (fmt, n) = digits_of fmt 0
      in (fmt, if neg then - n else n))"

definition printmacaddr :: "u64 \<Rightarrow> ('a machine_scheme, unit) comp" where
  "printmacaddr mac = mfor [0..<6] (\<lambda>i.
     mbind (ld8 (mac + of_nat i)) (\<lambda>b.
     mthen (printiu64 (ucast b) 16 False 2 False)
     (if i \<noteq> 5 then uart_putc (chr CHR '':'') else mret ())))"

section \<open>Formats\<close>

text \<open>The characters of a string in memory; the loop that prints it reads up to the NUL byte.\<close>

primrec puts_mem :: "nat \<Rightarrow> u64 \<Rightarrow> ('a machine_scheme, unit) comp" where
  "puts_mem 0 s = mfail Diverge"
| "puts_mem (Suc k) s = mbind (ld8 s) (\<lambda>c.
     if c \<noteq> 0 then mthen (uart_putc c) (puts_mem k (s + 1)) else mret ())"

definition va_arg :: "u64 list \<Rightarrow> ('s, u64 \<times> u64 list) comp" where
  "va_arg ap = (case ap of [] \<Rightarrow> mfail Out_Of_Bounds | w # ap \<Rightarrow> mret (w, ap))"

text \<open>
  One conversion: its letter and the arguments left. Anything else than a known letter is
  printed as it is, the NUL byte at the end of the format included.
\<close>

definition convert :: "u8 \<Rightarrow> u32 \<Rightarrow> u64 list \<Rightarrow> ('a machine_scheme, u64 list) comp" where
  "convert c digit ap =
     (if c = chr CHR ''d'' then mbind (va_arg ap) (\<lambda>(w, ap).
        mthen (printiu64 (sext64 (ucast w)) 10 True digit False) (mret ap))
      else if c = chr CHR ''u'' then mbind (va_arg ap) (\<lambda>(w, ap).
        mthen (printiu64 (zext64 (ucast w)) 10 False digit False) (mret ap))
      else if c = chr CHR ''x'' then mbind (va_arg ap) (\<lambda>(w, ap).
        mthen (printiu64 w 16 False digit False) (mret ap))
      else if c = chr CHR ''p'' then mbind (va_arg ap) (\<lambda>(w, ap).
        mthen (printiu64 w 16 False digit True) (mret ap))
      else if c = chr CHR ''c'' then mbind (va_arg ap) (\<lambda>(w, ap). mthen (uart_putc (ucast w)) (mret ap))
      else if c = chr CHR ''s'' then mbind (va_arg ap) (\<lambda>(w, ap).
        mthen (if w = 0 then uart_puts (str ''(null)'') else mbind (mget poll_bound) (\<lambda>k. puts_mem k w)) (mret ap))
      else if c = chr CHR ''m'' then mbind (va_arg ap) (\<lambda>(w, ap). mthen (printmacaddr w) (mret ap))
      else if c = chr CHR ''%'' then mthen (uart_putc c) (mret ap)
      else mthen (uart_putc (chr CHR ''%'')) (mthen (uart_putc c) (mret ap)))"

text \<open>
  The loop over the format. A format that ends inside a conversion makes the loop step over its
  NUL byte and read what follows the string.
\<close>

lemma digits_of_length: "length (fst (digits_of cs n)) \<le> length cs"
  by (induction cs arbitrary: n) (auto simp: le_SucI)

lemma fetch_digit_length: "length (fst (fetch_digit fmt)) \<le> length fmt"
  using digits_of_length [of fmt 0] digits_of_length [of "tl fmt" 0]
  by (cases fmt) (auto simp: fetch_digit_def Let_def split_beta)

lemma fetch_digit_rest: "(k # rest, digit) = fetch_digit cs \<Longrightarrow> length rest < length cs"
  using fetch_digit_length [of cs] by (metis Suc_le_eq fst_conv length_Cons)

function vprintf :: "u8 list \<Rightarrow> u64 list \<Rightarrow> ('a machine_scheme, unit) comp" where
  "vprintf [] ap = mret ()"
| "vprintf (c # cs) ap =
     (if c = chr CHR ''%'' then
        (case fetch_digit cs of
           ([], digit) \<Rightarrow> mthen (convert 0 digit ap) (mfail Out_Of_Bounds)
         | (k # rest, digit) \<Rightarrow> mbind (convert k digit ap) (\<lambda>ap. vprintf rest ap))
      else mthen (uart_putc c) (vprintf cs ap))"
  by pat_completeness auto

termination
  by (relation "measure (\<lambda>(fmt, ap). length fmt)") (auto dest: fetch_digit_rest)

definition printf :: "u8 list \<Rightarrow> u64 list \<Rightarrow> ('a machine_scheme, int) comp" where
  "printf fmt ap = mthen (vprintf fmt ap) (mret 0)"

definition printf_debug :: "int \<Rightarrow> u8 list \<Rightarrow> u64 list \<Rightarrow> int hcomp" where
  "printf_debug level fmt ap = mbind (mget log_level) (\<lambda>l.
     mthen (if l \<ge> level then vprintf fmt ap else mret ()) (mret 0))"

section \<open>Correctness of the number output\<close>

text \<open>The number that a list of digits denotes, and the numerals without superfluous zeros.\<close>

definition digits_value :: "nat \<Rightarrow> nat list \<Rightarrow> nat" where
  "digits_value base ds = foldl (\<lambda>v d. v * base + d) 0 ds"

definition numeral_for :: "nat \<Rightarrow> nat \<Rightarrow> nat list \<Rightarrow> bool" where
  "numeral_for base n ds \<longleftrightarrow> ds \<noteq> [] \<and> (\<forall>d \<in> set ds. d < base) \<and> digits_value base ds = n \<and>
     (hd ds = 0 \<longrightarrow> ds = [0])"

lemma digits_value_snoc: "digits_value base (ds @ [d]) = digits_value base ds * base + d"
  by (simp add: digits_value_def)

lemma numeral_for_snoc:
  "numeral_for base n ds \<Longrightarrow> 0 < n \<Longrightarrow> d < base \<Longrightarrow> numeral_for base (n * base + d) (ds @ [d])"
  by (cases ds) (auto simp: numeral_for_def digits_value_snoc digits_value_def)

lemma digit_loop_numeral:
  assumes "1 < base"
  shows "\<exists>ds. digit_loop base n acc = map (\<lambda>d. hex_digits ! d) ds @ acc \<and> numeral_for (unat base) (unat n) ds"
  using assms
proof (induction base n acc rule: digit_loop.induct)
  case (1 base n acc)
  let ?d = "unat n mod unat base"
  have d: "unat (n mod base) = ?d" "unat (n div base) = unat n div unat base"
    by (simp_all add: unat_mod_distrib unat_div_distrib)
  have b: "1 < unat base" using 1(2) by (simp add: word_less_nat_alt)
  show ?case
  proof (cases "n div base = 0")
    case True
    then have "unat n div unat base = 0" using d(2) by simp
    then have "?d = unat n" using b by (simp add: div_eq_0_iff)
    moreover have "digit_loop base n acc = map (\<lambda>d. hex_digits ! d) [?d] @ acc"
      using True by (subst digit_loop.simps) (simp add: Let_def d)
    moreover have "numeral_for (unat base) (unat n) [?d]"
      using calculation(1) b by (simp add: numeral_for_def digits_value_def)
        (metis b calculation(1) less_trans mod_less_divisor zero_less_one)
    ultimately show ?thesis by blast
  next
    case False
    then obtain ds where ds: "digit_loop base (n div base) (hex_digits ! ?d # acc) =
        map (\<lambda>d. hex_digits ! d) ds @ hex_digits ! ?d # acc" "numeral_for (unat base) (unat n div unat base) ds"
      using 1(1) [OF refl refl] 1(2) d by (auto simp: not_le)
    have "digit_loop base n acc = map (\<lambda>d. hex_digits ! d) (ds @ [?d]) @ acc"
      using False 1(2) ds(1) leD by (subst digit_loop.simps) (auto simp: Let_def d)
    moreover have "numeral_for (unat base) (unat n) (ds @ [?d])"
      using numeral_for_snoc [OF ds(2), of ?d] False b d by (simp add: unat_gt_0 [symmetric])
    ultimately show ?thesis by blast
  qed
qed

lemma digit_loop_nonempty: "digit_loop base n acc \<noteq> []"
  by (induction base n acc rule: digit_loop.induct) (subst digit_loop.simps, auto simp: Let_def)

lemma unat_of_int_small: "0 \<le> k \<Longrightarrow> k < 2 ^ 64 \<Longrightarrow> unat (word_of_int k :: u64) = nat k"
  by (simp add: unsigned_of_int take_bit_int_eq_self)

lemma unat_abs:
  "unat (if sg \<and> num <s 0 then - (num + 1) + 1 else num) = nat \<bar>if sg then sint num else uint num\<bar>" for num :: u64
proof -
  have range: "- (2 ^ 63) \<le> sint num" "sint num < 2 ^ 63"
    using sint_greater_eq [of num] sint_less [of num] by simp_all
  have "unat (- num) = nat (- sint num)" if "sint num < 0"
    using unat_of_int_small [of "- sint num"] range that by simp
  moreover have "unat num = nat (sint num)" if "\<not> sint num < 0"
    using unat_of_int_small [of "sint num"] range that by simp
  ultimately show ?thesis by (auto simp: word_sless_alt)
qed

text \<open>Two runs of output in a row.\<close>

lemma uart_out_then:
  assumes "\<exists>t. m s = Inr ((), s\<lparr>trace := t\<rparr>) \<and> sent t = sent (trace s) @ xs"
    and "\<And>u. uart_ready u \<Longrightarrow> \<exists>t. n u = Inr ((), u\<lparr>trace := t\<rparr>) \<and> sent t = sent (trace u) @ ys"
    and "uart_ready s"
  shows "\<exists>t. mthen m n s = Inr ((), s\<lparr>trace := t\<rparr>) \<and> sent t = sent (trace s) @ xs @ ys"
proof -
  obtain t where t: "m s = Inr ((), s\<lparr>trace := t\<rparr>)" "sent t = sent (trace s) @ xs" using assms(1) by blast
  obtain t' where "n (s\<lparr>trace := t\<rparr>) = Inr ((), s\<lparr>trace := t'\<rparr>)" "sent t' = sent t @ ys"
    using assms(2) [of "s\<lparr>trace := t\<rparr>"] assms(3) by auto
  with t show ?thesis by (auto simp: run)
qed

text \<open>The blanks on the right of a number of the given length.\<close>

definition right_pad :: "u32 \<Rightarrow> nat \<Rightarrow> nat" where
  "right_pad digit n = (if sint digit < 0 then nat (sint (- digit) - int n) else 0)"

lemma sint_of_small: "0 \<le> k \<Longrightarrow> k < 2 ^ 31 \<Longrightarrow> sint (word_of_int k :: u32) = k"
  by (simp add: sint_uint signed_take_bit_int_eq_self uint_word_of_int_eq take_bit_int_eq_self)

lemma printiu64_run:
  assumes "uart_ready s" and "1 < base" and "length (number_chars num base sg px) \<le> 64"
  shows "\<exists>t. printiu64 num base sg digit px s = Inr ((), s\<lparr>trace := t\<rparr>) \<and>
    sent t = sent (trace s) @ replicate (nat (sint digit - int (length (number_chars num base sg px)))) (chr CHR '' '') @
      number_chars num base sg px @
      replicate (right_pad digit (length (number_chars num base sg px))) (chr CHR '' '')"
proof -
  define cur where "cur = number_chars num base sg px"
  let ?len = "int (length cur)" and ?pad = "\<lambda>n. replicate (nat n) (chr CHR '' '')"
  let ?after = "if sint digit > 0 then word_of_int (min (sint digit) ?len - 1) else digit"
  have skip: "\<exists>t. (mret () :: ('a machine_scheme, unit) comp) u = Inr ((), u\<lparr>trace := t\<rparr>) \<and> sent t = sent (trace u) @ []" for u
    by (auto simp: run intro: exI [of _ "trace u"])
  have "cur \<noteq> []" by (simp add: cur_def number_chars_def Let_def) (simp add: digit_loop_nonempty)
  then have len: "0 < ?len" by simp
  have after: "\<not> sint ?after < 0" if "0 < sint digit"
  proof -
    have k: "0 \<le> min (sint digit) ?len - 1" "min (sint digit) ?len - 1 < 2 ^ 31"
      using that len sint_less [of digit] by (simp_all add: min_def)
    then show ?thesis using that by (simp only: if_True sint_of_small [OF k] not_less)
  qed
  have 1: "\<exists>t. (if sint digit > 0 then uart_puts (?pad (sint digit - ?len)) else mret ()) u = Inr ((), u\<lparr>trace := t\<rparr>) \<and>
      sent t = sent (trace u) @ ?pad (sint digit - ?len)" if "uart_ready u" for u :: "'a machine_scheme"
    using uart_puts_run [OF that] skip [of u] len by (cases "sint digit > 0") simp_all
  have 2: "\<exists>t. (let digit = ?after in if sint digit < 0 then uart_puts (?pad (sint (- digit) - ?len)) else mret ()) u =
      Inr ((), u\<lparr>trace := t\<rparr>) \<and> sent t = sent (trace u) @ replicate (right_pad digit (length cur)) (chr CHR '' '')"
    if "uart_ready u" for u :: "'a machine_scheme"
    using uart_puts_run [OF that] skip [of u] after
    by (cases "sint digit > 0"; cases "sint digit < 0") (simp_all add: Let_def right_pad_def)
  have b: "base \<noteq> 0" "base \<noteq> 1" using assms(2) by auto
  have "\<exists>t. mthen (if sint digit > 0 then uart_puts (?pad (sint digit - ?len)) else mret ())
      (mthen (uart_puts cur)
      (let digit = ?after in if sint digit < 0 then uart_puts (?pad (sint (- digit) - ?len)) else mret ())) s =
      Inr ((), s\<lparr>trace := t\<rparr>) \<and> sent t = sent (trace s) @ ?pad (sint digit - ?len) @ cur @
        replicate (right_pad digit (length cur)) (chr CHR '' '')"
    using assms(1) by (intro uart_out_then 1 2 uart_puts_run)
  then show ?thesis
    unfolding printiu64_def Let_def cur_def [symmetric] using assms(3) b
    by (simp add: run cur_def)
qed

text \<open>
  C32. \<open>printiu64\<close> with a base from 2 to 16, on a serial port that makes room for a character after
  fewer than \<open>poll_bound\<close> rounds of polling. The text of the number is its numeral in the base,
  without leading zeros, after the sign and the prefix \<open>0x\<close> where they are asked for. If it has at
  most 64 characters, it is sent, padded with blanks to the given width on the left, or on the right
  for a negative width; the smallest negative width, whose negation overflows, gives no blanks. A
  longer text, as base 2 can have with a sign or a prefix, overruns the buffer on the stack.
\<close>

theorem printiu64_prints_numeral:
  assumes "uart_ready s" and "1 < base" and "base \<le> 16"
  shows "\<exists>ds. numeral_for (unat base) (nat \<bar>if sg then sint num else uint num\<bar>) ds \<and>
    (let neg = (sg \<and> sint num < 0);
         out = (if neg then str ''-'' else []) @ (if px then str ''0x'' else []) @ map (\<lambda>d. hex_digits ! d) ds in
     if length out \<le> 64 then
       (\<exists>t. printiu64 num base sg digit px s = Inr ((), s\<lparr>trace := t\<rparr>) \<and>
         sent t = sent (trace s) @ replicate (nat (sint digit - int (length out))) (chr CHR '' '') @ out @
           replicate (if sint digit < 0 then nat (sint (- digit) - int (length out)) else 0) (chr CHR '' ''))
     else printiu64 num base sg digit px s = Inl Out_Of_Bounds)"
proof -
  define unum where "unum = (if sg \<and> num <s 0 then - (num + 1) + 1 else num)"
  obtain ds where ds: "digit_loop base unum [] = map (\<lambda>d. hex_digits ! d) ds" "numeral_for (unat base) (unat unum) ds"
    using digit_loop_numeral [OF assms(2), of unum "[]"] by auto
  have abs: "unat unum = nat \<bar>if sg then sint num else uint num\<bar>"
    unfolding unum_def by (rule unat_abs)
  define out where "out = (if sg \<and> sint num < 0 then str ''-'' else []) @
      (if px then str ''0x'' else []) @ map (\<lambda>d. hex_digits ! d) ds"
  have chars: "number_chars num base sg px = out"
    unfolding out_def number_chars_def Let_def unum_def [symmetric] ds(1) by (simp add: word_sless_alt)
  have over: "printiu64 num base sg digit px s = Inl Out_Of_Bounds" if "\<not> length out \<le> 64"
    using that assms(2) by (auto simp: printiu64_def Let_def chars run)
  note fits = printiu64_run [OF assms(1,2), of num sg px digit, unfolded chars right_pad_def]
  show ?thesis
    unfolding Let_def
  proof (intro exI [of _ ds] conjI, unfold out_def [symmetric])
    show "numeral_for (unat base) (nat \<bar>if sg then sint num else uint num\<bar>) ds" using ds(2) abs by simp
    show "if length out \<le> 64 then
       (\<exists>t. printiu64 num base sg digit px s = Inr ((), s\<lparr>trace := t\<rparr>) \<and>
         sent t = sent (trace s) @ replicate (nat (sint digit - int (length out))) (chr CHR '' '') @ out @
           replicate (if sint digit < 0 then nat (sint (- digit) - int (length out)) else 0) (chr CHR '' ''))
     else printiu64 num base sg digit px s = Inl Out_Of_Bounds"
      using fits over by argo
  qed
qed

theorem printiu64_prints_numeral_witness:
  "\<exists>ds. numeral_for 10 42 ds \<and> (if Suc (length ds) \<le> 64 then
     \<exists>t. printiu64 (-42) 10 True 6 False machine0 = Inr ((), machine0\<lparr>trace := t\<rparr>) \<and>
       sent t = replicate (nat (6 - int (Suc (length ds)))) (chr CHR '' '') @ str ''-'' @ map (\<lambda>d. hex_digits ! d) ds
     else printiu64 (-42) 10 True 6 False machine0 = Inl Out_Of_Bounds)"
proof -
  have "uart_ready machine0" by (auto simp: uart_ready_def uart_full_def machine0_def intro: exI [of _ 0])
  from printiu64_prints_numeral [OF this, where base = 10 and num = "-42" and sg = True and digit = 6 and px = False]
  show ?thesis by (simp add: Let_def machine0_def cong: if_cong split del: if_split)
qed

end
