(* ===== verification/Spec2Isabelle.thy ===== *)
theory Spec2Isabelle
  imports Init Exceptions Disk Isolation Xv6_Crash Printf
begin

text \<open>
  A model of \<open>hyper_poc\<close>, a type-1 hypervisor for AArch64 (\<open>src/\<close>, \<open>include/\<close>) that runs an xv6
  guest (\<open>guest/xv6/\<close>), and proofs that its parts do what they are for.

  \<^bold>\<open>The program.\<close> The firmware enters \<open>_start\<close> (\<open>boot.S\<close>) at EL2; \<open>hyp_init_primary\<close> (\<open>init.c\<close>) sets up
  the stacks, the serial port, the page allocator, the interrupt controller, the emulated disk and
  one virtual machine, and enters its first vcpu. From then on the hypervisor runs only when the
  guest traps: \<open>vector.S\<close> saves the guest's registers in its \<open>struct vcpu\<close>, \<open>trap.c\<close> finds out why,
  \<open>mmio.c\<close> hands accesses to emulated devices to \<open>vgic.c\<close> or \<open>virtio_dev.c\<close>, \<open>psci.c\<close> starts further
  vcpus, interrupts are passed on through the list registers of the interrupt controller, and
  \<open>vector.S\<close> restores the registers and returns. The guest's memory is what \<open>create_vm\<close> (\<open>vm.c\<close>) has
  put into its stage-2 translation tables (\<open>mmu.c\<close>), whose pages and the guest's own come from
  \<open>page_alloc.c\<close>. The guest's kernel keeps its files on the emulated disk with a driver, a buffer
  cache and a log.

  \<^bold>\<open>How it is modelled.\<close> Machine integers are words of their width, so that arithmetic wraps as in C.
  A C function is a computation \<open>('s, 'a) comp\<close> (theory \<open>Prelude\<close>): it maps a state to a result and
  a new state, or to a \<open>fault\<close>: \<open>Panic\<close> (a call of \<open>panic\<close>, with its message), \<open>Bus_Error\<close> (an access
  outside the memory), \<open>Out_Of_Bounds\<close> (outside an array), \<open>Deadlock\<close> (waiting for something that this
  flow of control itself would have to do), \<open>Div_By_Zero\<close>, and \<open>Diverge\<close> (a loop used up its bound).
  \<open>wp\<close> is the weakest precondition, and with it a theorem says that the computation returns and how.
  The state grows along the theories, by record extension: \<open>machine\<close> (memory, environment, history
  of device accesses), \<open>palloc\<close> (the allocator's variables), \<open>hyp\<close> (the static variables of the
  hypervisor). Static arrays of structures are lists and pointers into them are indices; the
  translation tables, the rings of the disk, strings and the disk image are bytes in memory.
  Device and system registers are not assumed to behave in any way: a volatile access is an event,
  and what a read returns is an arbitrary function \<open>dev\<close> of the history. Where a property needs the
  hardware to do something (the clock runs, the distributor remembers what it was told) this is a
  hypothesis or a definition of what the history of writes means.

  \<^bold>\<open>Theories of the hypervisor.\<close>
  \<^item> \<open>Prelude\<close> (\<open>types.h\<close>): words, computations, loops, weakest preconditions, the collections \<open>run\<close>
    and \<open>wps\<close>, little-endian access to memory.
  \<^item> \<open>Machine\<close> (\<open>aarch64.h\<close>, \<open>gic.h\<close>): memory accesses, system registers, volatile accesses.
  \<^item> \<open>Lib\<close> (\<open>lib.c\<close>): memory and string functions; exact final memory, also for overlapping regions.
  \<^item> \<open>Spinlock\<close> (\<open>spinlock.h\<close>): the ticket lock, once as the other theories use it and once as a step
    relation on the instructions of any number of processors. Mutual exclusion, and refinement of a
    queue: first come, first served.
  \<^item> \<open>Page_Alloc\<close> (\<open>page_alloc.c\<close>): bitmap, search, allocation and release. The set of free pages is the
    abstraction; the locale \<open>page_provider\<close> is what other parts rely on, \<open>locked_pool\<close> and \<open>bit_writer\<close>
    are contracts inside the allocator. Two defects are proved for every bitmap on which they show: the
    search continues a run at page 0, and initialisation clears an eighth of the bitmap.
  \<^item> \<open>Mmu\<close> (\<open>mmu.c\<close>): the walk, mapping, unmapping, translation. \<open>tbl\<close> and \<open>leaf\<close> read a tree of tables
    from memory; \<open>pt_inv\<close> says that trees share no table and that no table is free. Mapping is the update
    of one leaf, nothing else changes; \<open>ipa2pa\<close> reads back what was mapped; unmapping frees exactly the pages.
    The code does not clear a page that becomes a table: the properties assume that free pages are zero
    (\<open>clean\<close>), which mapping keeps and unmapping does not.
  \<^item> \<open>Objects\<close> (\<open>vm.h\<close>, \<open>vcpu.h\<close>, \<open>vgic.h\<close>, \<open>mmio.h\<close>, \<open>virtio.h\<close>): structures and pools; locale \<open>slot_pool\<close>.
  \<^item> \<open>Gic\<close> (\<open>gic_v3.c\<close>), \<open>Timer\<close> (\<open>timer.c\<close>, \<open>sysreg.c\<close>), \<open>Uart\<close> (\<open>uart.c\<close>), \<open>Printf\<close> (\<open>printf.c\<close>): which
    accesses are made, and what they mean to the device; the exact quotient of \<open>do_muldiv64\<close>; the
    numerals that \<open>printiu64\<close> prints, when its buffer is large enough and the serial port accepts every
    character within the bound (\<open>uart_ready\<close>).
  \<^item> \<open>Mmio\<close> (\<open>mmio.c\<close>), \<open>S2_Trap\<close> and \<open>Vm\<close> (\<open>vm.c\<close>), \<open>Vgic\<close> (\<open>vgic.c\<close>), \<open>Virtio\<close> (\<open>ramdisk.c\<close>,
    \<open>virtio_dev.c\<close>), \<open>Vcpu\<close> (\<open>vcpu.c\<close>), \<open>Psci\<close> (\<open>psci.c\<close>): the objects of a virtual machine. Dispatch goes
    to the newest region that covers the address; the enable bits that a guest writes it reads back;
    an interrupt goes to the first list register that is not in use.
  \<^item> \<open>Context\<close> (\<open>vector.S\<close>), \<open>Trap\<close> (\<open>trap.c\<close>, entry points of \<open>vector.S\<close>), \<open>Exceptions\<close>: the locale
    \<open>guest_exit\<close> joins an entry point with the handler it calls. A C function called from assembly code
    (\<open>c_call\<close>) may leave any values in the registers and in its stack frame, both given by an arbitrary
    \<open>cframe\<close>. Interrupts are transparent to the guest and to the hypervisor; a trapped load gives the destination register the value of the device
    register; \<open>wfi\<close> always ends; \<open>CPU_ON\<close> starts a vcpu.
  \<^item> \<open>Disk\<close>: what the emulated disk does for a guest. All available requests are served in the order of
    the ring and the loop ends; a block that was written is read back. Requests are well-formed chains of
    three descriptors, and a buffer is where the translation of its first byte says; what a cycle of
    descriptors does is a property of its own.
  \<^item> \<open>Isolation\<close>: the part of \<open>create_vm\<close> that loads a guest keeps all guests isolated.
  \<^item> \<open>Calltrace\<close> (\<open>sp_init.c\<close>, \<open>calltrace.c\<close>), \<open>Init\<close> (\<open>boot.S\<close>, \<open>init.c\<close>, \<open>guest.c\<close>): stacks and start-up.

  \<^bold>\<open>Theories of the guest's kernel.\<close> They do not build on those of the hypervisor, apart from
  \<open>Prelude\<close>: the guest is another program, with its own state (record \<open>kern\<close> and its extensions).
  \<^item> \<open>Xv6_Locks\<close> (\<open>spinlock.c\<close>, \<open>sleeplock.c\<close>): locales \<open>kernel_lock\<close>, \<open>kernel_spinlock\<close>,
    \<open>kernel_sleeplock\<close> for a lock that is a field of the state.
  \<^item> \<open>Xv6_Disk\<close> (\<open>virtio_disk.c\<close>): the driver. The device is a parameter; \<open>serves\<close> is the contract of a
    virtio block device. Initialisation makes the driver ready, reads and writes transfer exactly one
    block, and \<open>free_chain\<close> ends.
  \<^item> \<open>Xv6_Bio\<close>, \<open>Xv6_Cache\<close> (\<open>bio.c\<close>): the buffer cache. The list of buffers stays a list in both
    directions; \<open>view\<close> is what the rest of the kernel sees, the contents, the references and the holder
    of every block, and every operation is a step of the view (\<open>cstep\<close>), whichever buffer it recycles.
    \<open>booted\<close> is the zeroed kernel on which \<open>binit\<close> and \<open>virtio_disk_init\<close> run.
  \<^item> \<open>Xv6_Log\<close>, \<open>Xv6_Crash\<close> (\<open>log.c\<close>): the log. \<open>since\<close> executes code on the cache symbolically; commit and
    recovery are lists of block writes. The log is the \<open>log_size\<close> blocks from \<open>log_start\<close> on; blocks outside
    it are those of files. After a crash at any point of a commit, the next start (\<open>restart\<close>: the calls of
    \<open>main\<close> and \<open>fsinit\<close> that concern the disk) gives either the old or the new contents of all blocks and a
    log that is ready again; \<open>log_write\<close> keeps the invariant that makes this so, and \<open>begin_op\<close>
    admits one block more than the log can take.

  \<^bold>\<open>Bounds.\<close> Loops over lists and counters are recursion on these. Loops that poll a device or wait
  for the clock take their bound from the state (\<open>poll_bound\<close>, \<open>wait_bound\<close>) and fault with \<open>Diverge\<close> when
  it is used up; the bound is arbitrary, so that a theorem that such a loop returns holds as soon as the
  condition comes true within any bound at all. Loops along lists have the length of the array as their bound, which is enough because a list without
  repetition is not longer. The chain that the hypervisor follows has one step more than its array, or
  than its 16-bit index has values, as its bound, and the chain that the driver frees has one step more
  than there are descriptors.

  \<^bold>\<open>Not modelled.\<close> Log messages and dumps: neither their text nor the accesses to the serial port that print
  it (device accesses in their arguments are modelled). The branches of unused vectors to themselves. Functions that are never called and only print
  (\<open>data_abort_iss_dump\<close>, \<open>dump_par_el1\<close>, \<open>test_el2_sync_exception\<close>). Caches and weak memory ordering:
  barriers are events without further effect. Concurrency of the processors outside the ticket lock:
  critical sections run whole, which mutual exclusion justifies for data that the locks guard. Of the
  guest, everything above the parts listed: processes and context switches, its own page tables, its
  system calls, inodes and directories, its console, its user programs, and \<open>mkfs\<close>, which runs on the host. Code that is linked in from elsewhere
  (the firmware behind \<open>smc\<close>, the guest image) is part of the environment.
\<close>

end
